(* ===== verification/Kprelude.thy ===== *)
theory Kprelude
  imports Main "HOL-Library.Word" "HOL-Library.Monad_Syntax"
begin

text \<open>
  Shared vocabulary of the OS/161 development.

  A kernel routine that can stop the machine (a failed \<open>assert\<close>, a call of \<open>panic\<close>, or an
  access outside an object, which C leaves undefined) has a result of type \<open>'a option\<close>, and
  \<open>None\<close> is that stop. A routine that returns an error code returns a value of \<open>rc\<close>, whose
  constructors are the constants of \<open>kern/include/kern/errno.h\<close> with \<open>OK\<close> for 0. A routine that
  changes an object returns the new object beside its code, on the error paths too. A C pointer
  that may be null is a value of \<open>'a nullable\<close>. The C types \<open>int\<close> and \<open>u_int32_t\<close> are \<open>int\<close> and
  \<open>nat\<close> with the wrap-around written out by \<open>s32\<close> and \<open>u32\<close> where a sum or a product can leave
  the range.
\<close>

section \<open>Error codes, null pointers, panics\<close>

datatype rc =
    OK | EINVAL | EFAULT | ENAMETOOLONG | ENOMEM | EIO | ENOENT | ENOTDIR | EISDIR | EEXIST
  | EXDEV | EAGAIN | ESPIPE | EUNIMP | ENXIO | ENODEV | EBUSY | EIOCTL | ENOTEMPTY | ERANGE
  | ENOSPC | EMFILE | ENFILE | ENOSYS | ENOEXEC | E2BIG | EBADF

datatype 'a nullable = NULL | Ptr 'a

text \<open>The outcome of \<open>kmalloc\<close> on a byte count: whether it hands back a block.\<close>

type_synonym kmalloc_outcome = "nat \<Rightarrow> bool"

definition kassert :: "bool \<Rightarrow> unit option" where
  "kassert P = (if P then Some () else None)"

named_theorems panic_simps \<open>when a computation that may panic returns a value\<close>

lemma kassert_simps [simp]:
  "kassert True = Some ()"
  "kassert False = None"
  by (simp_all add: kassert_def)

lemma kassert_Some [simp]: "(kassert P = Some u) = P"
  by (simp add: kassert_def)

lemma kassert_bind [simp]: "P \<Longrightarrow> kassert P \<bind> f = f ()"
  by (simp add: kassert_def)

lemma kassert_bind_not [simp]: "\<not> P \<Longrightarrow> kassert P \<bind> f = None"
  by (simp add: kassert_def)

lemma kassert_bind_Some [panic_simps]: "(kassert P \<bind> f = Some x) = (P \<and> f () = Some x)"
  by (simp add: kassert_def)

lemma bind_Some_conv [panic_simps]:
  "(Option.bind m f = Some x) = (\<exists>y. m = Some y \<and> f y = Some x)"
  by (cases m) simp_all

lemma case_sum_Some [panic_simps]:
  "((case r of Inl e \<Rightarrow> f e | Inr x \<Rightarrow> g x) = Some y) =
     ((\<exists>e. r = Inl e \<and> f e = Some y) \<or> (\<exists>x. r = Inr x \<and> g x = Some y))"
  by (cases r) auto

section \<open>Machine integers\<close>

definition INT_MAX :: int where
  "INT_MAX = 2147483647"

definition s32 :: "int \<Rightarrow> int" where
  "s32 x = (x + 2147483648) mod 4294967296 - 2147483648"

definition u32 :: "int \<Rightarrow> nat" where
  "u32 x = nat (x mod 4294967296)"

lemma s32_id: "- 2147483648 \<le> x \<Longrightarrow> x \<le> INT_MAX \<Longrightarrow> s32 x = x"
  by (simp add: s32_def INT_MAX_def)

lemma s32_range: "- 2147483648 \<le> s32 x" "s32 x \<le> INT_MAX"
proof -
  have "0 \<le> (x + 2147483648) mod 4294967296" "(x + 2147483648) mod 4294967296 < 4294967296"
    by (rule pos_mod_sign pos_mod_bound, simp)+
  then show "- 2147483648 \<le> s32 x" "s32 x \<le> INT_MAX"
    by (simp_all add: s32_def INT_MAX_def)
qed

lemma u32_id: "0 \<le> x \<Longrightarrow> x < 4294967296 \<Longrightarrow> u32 x = nat x"
  by (simp add: u32_def)

lemma u32_less: "u32 x < 4294967296"
  by (simp add: u32_def nat_less_iff)

lemma u32_wrap: "4294967296 \<le> x \<Longrightarrow> x < 8589934592 \<Longrightarrow> u32 x = nat (x - 4294967296)"
  using mod_pos_pos_trivial [of "x - 4294967296" 4294967296] unfolding minus_mod_self2 by (simp add: u32_def)

lemma u32_neg: "- 4294967296 \<le> x \<Longrightarrow> x < 0 \<Longrightarrow> u32 x = nat (x + 4294967296)"
  using mod_pos_pos_trivial [of "x + 4294967296" 4294967296] unfolding mod_add_self2 by (simp add: u32_def)

lemma s32_double_negative: "0 < x \<Longrightarrow> x \<le> INT_MAX \<Longrightarrow> INT_MAX < 2 * x \<Longrightarrow> s32 (x * 2) \<le> 0"
proof -
  assume "0 < x" "x \<le> INT_MAX" "INT_MAX < 2 * x"
  then have "0 \<le> x * 2 - 2147483648" "x * 2 - 2147483648 < 2147483648"
    by (simp_all add: INT_MAX_def)
  moreover have "(x * 2 + 2147483648) mod 4294967296 = (x * 2 - 2147483648) mod 4294967296"
    using mod_add_self2 [of "x * 2 - 2147483648" 4294967296] by (simp add: add.commute)
  ultimately show ?thesis
    by (simp add: s32_def)
qed

text \<open>The remainder \<open>%\<close> of C, which has the sign of the dividend.\<close>

definition crem :: "int \<Rightarrow> int \<Rightarrow> int" where
  "crem a b = sgn a * (\<bar>a\<bar> mod \<bar>b\<bar>)"

lemma crem_mod: "0 \<le> a \<Longrightarrow> 0 < b \<Longrightarrow> crem a b = a mod b"
  by (cases "a = 0") (simp_all add: crem_def)

section \<open>Arrays of cells\<close>

text \<open>
  A block of memory is a list of cells. A read or a write outside the block is a stop. In a
  block of pointers an uninitialised cell is \<open>None\<close>.
\<close>

definition rd :: "'a list \<Rightarrow> int \<Rightarrow> 'a option" where
  "rd xs i = (if 0 \<le> i \<and> nat i < length xs then Some (xs ! nat i) else None)"

definition wr :: "'a list \<Rightarrow> int \<Rightarrow> 'a \<Rightarrow> 'a list option" where
  "wr xs i x = (if 0 \<le> i \<and> nat i < length xs then Some (xs[nat i := x]) else None)"

lemma rd_in [simp]: "0 \<le> i \<Longrightarrow> nat i < length xs \<Longrightarrow> rd xs i = Some (xs ! nat i)"
  by (simp add: rd_def)

lemma wr_in [simp]: "0 \<le> i \<Longrightarrow> nat i < length xs \<Longrightarrow> wr xs i x = Some (xs[nat i := x])"
  by (simp add: wr_def)

lemma rd_Some [panic_simps]: "(rd xs i = Some x) = (0 \<le> i \<and> nat i < length xs \<and> x = xs ! nat i)"
  by (auto simp: rd_def)

lemma wr_Some [panic_simps]: "(wr xs i x = Some ys) = (0 \<le> i \<and> nat i < length xs \<and> ys = xs[nat i := x])"
  by (auto simp: wr_def)

text \<open>\<open>memmove\<close> inside one block, counted in cells: \<open>n\<close> cells from \<open>s\<close> to \<open>d\<close>.\<close>

definition cell_memmove :: "'a list \<Rightarrow> nat \<Rightarrow> nat \<Rightarrow> nat \<Rightarrow> 'a list option" where
  "cell_memmove xs d s n =
     (if d + n \<le> length xs \<and> s + n \<le> length xs
      then Some (take d xs @ take n (drop s xs) @ drop (d + n) xs) else None)"

section \<open>Lists\<close>

definition remove_nth :: "nat \<Rightarrow> 'a list \<Rightarrow> 'a list" where
  "remove_nth i xs = take i xs @ drop (Suc i) xs"

lemma remove_nth_Nil [simp]: "remove_nth i [] = []"
  by (simp add: remove_nth_def)

lemma remove_nth_0 [simp]: "remove_nth 0 (x # xs) = xs"
  by (simp add: remove_nth_def)

lemma remove_nth_Suc [simp]: "remove_nth (Suc i) (x # xs) = x # remove_nth i xs"
  by (simp add: remove_nth_def)

lemma length_remove_nth [simp]: "i < length xs \<Longrightarrow> length (remove_nth i xs) = length xs - 1"
  by (simp add: remove_nth_def)

lemma remove_nth_append [simp]: "remove_nth (length xs) (xs @ y # ys) = xs @ ys"
  by (simp add: remove_nth_def)

lemma take_list_update_append: "n < length xs \<Longrightarrow> take (Suc n) (xs[n := x]) = take n xs @ [x]"
  by (simp add: take_Suc_conv_app_nth)

lemma update_append_drop:
  assumes "n < length ys" and "n \<le> length xs"
  shows "(take n xs @ drop n ys)[n := z] = take n xs @ z # drop (Suc n) ys"
proof -
  have "drop n ys = ys ! n # drop (Suc n) ys"
    using assms(1) by (simp add: Cons_nth_drop_Suc)
  with assms(2) show ?thesis
    by (simp add: list_update_append)
qed

lemma take_remove_nth:
  assumes "i < n" and "n \<le> length xs"
  shows "take (n - 1) (take i xs @ take (n - Suc i) (drop (Suc i) xs) @ ys) = remove_nth i (take n xs)"
proof -
  have "length (take i xs @ take (n - Suc i) (drop (Suc i) xs)) = n - 1"
    using assms by simp
  then have "take (n - 1) ((take i xs @ take (n - Suc i) (drop (Suc i) xs)) @ ys) =
      take i xs @ take (n - Suc i) (drop (Suc i) xs)"
    by (metis append_eq_conv_conj)
  with assms show ?thesis
    by (simp add: remove_nth_def drop_take min_def)
qed

section \<open>Routines that return an error code or a value\<close>

text \<open>
  The result of a routine with an \<open>int\<close> error code and an out-parameter: \<open>Inl\<close> the code, or \<open>Inr\<close> the
  value, with the state reached in both cases. \<open>kbind\<close> is the idiom \<open>if (result) return result;\<close>.
\<close>

type_synonym ('s, 'a) kres = "((rc + 'a) \<times> 's) option"

definition kbind :: "('s, 'a) kres \<Rightarrow> ('a \<Rightarrow> 's \<Rightarrow> ('s, 'b) kres) \<Rightarrow> ('s, 'b) kres" where
  "kbind m f = (case m of
       None \<Rightarrow> None
     | Some (Inl e, s) \<Rightarrow> Some (Inl e, s)
     | Some (Inr x, s) \<Rightarrow> f x s)"

definition kret :: "'a \<Rightarrow> 's \<Rightarrow> ('s, 'a) kres" where
  "kret x s = Some (Inr x, s)"

definition kfail :: "rc \<Rightarrow> 's \<Rightarrow> ('s, 'a) kres" where
  "kfail e s = Some (Inl e, s)"

lemma kbind_simps [simp]:
  "kbind None f = None"
  "kbind (Some (Inl e, s)) f = Some (Inl e, s)"
  "kbind (Some (Inr x, s)) f = f x s"
  "kbind (kret x s) f = f x s"
  "kbind (kfail e s) f = kfail e s"
  by (simp_all add: kbind_def kret_def kfail_def)

lemma kbind_Some [panic_simps]:
  "kbind m f = Some y \<longleftrightarrow> (\<exists>e s. m = Some (Inl e, s) \<and> y = (Inl e, s)) \<or> (\<exists>x s. m = Some (Inr x, s) \<and> f x s = Some y)"
  by (auto simp: kbind_def split: option.splits sum.splits prod.splits)

lemma kbind_Inr [panic_simps]:
  "kbind m f = Some (Inr v, s') \<longleftrightarrow> (\<exists>x s. m = Some (Inr x, s) \<and> f x s = Some (Inr v, s'))"
  by (auto simp: kbind_def split: option.splits sum.splits prod.splits)

lemma kbind_cong [fundef_cong]:
  "m = m' \<Longrightarrow> (\<And>x s. m' = Some (Inr x, s) \<Longrightarrow> f x s = f' x s) \<Longrightarrow> kbind m f = kbind m' f'"
  by (auto simp: kbind_def split: option.splits sum.splits prod.splits)

lemma kret_Some [panic_simps]: "kret x s = Some (r, s') \<longleftrightarrow> r = Inr x \<and> s' = s"
  by (auto simp: kret_def)

lemma kfail_Some [panic_simps]: "kfail e s = Some (r, s') \<longleftrightarrow> r = Inl e \<and> s' = s"
  by (auto simp: kfail_def)

section \<open>Bytes and memory\<close>

type_synonym byte = "8 word"

text \<open>Memory: the bytes at the mapped addresses.\<close>

type_synonym mem = "nat \<rightharpoonup> byte"

text \<open>C division of signed integers truncates towards zero.\<close>

definition cdiv :: "int \<Rightarrow> int \<Rightarrow> int" where
  "cdiv a b = (if a < 0 then - ((- a) div b) else a div b)"

lemma cdiv_nonneg: "0 \<le> a \<Longrightarrow> cdiv a b = a div b"
  by (simp add: cdiv_def)

end
