(* ===== verification/Karray.thy ===== *)
theory Karray
  imports Kprelude
begin

text \<open>
  The resizeable pointer array of \<open>kern/lib/array.c\<close>. The struct is a record; the block \<open>v\<close> is a
  null pointer or a list of cells. Every operation of the file is a definition; the abstraction
  \<open>guys\<close> is the list of the elements a client sees. The locale \<open>guy_array\<close> states what the
  clients (the thread system, SFS and the VFS device table) rely on, and the lemmas they use are
  proved in it once; the interpretation at the end discharges it for the operations below.
\<close>

section \<open>The operations\<close>

record 'a karray =
  a_num :: int
  a_max :: int
  a_v :: "'a option list nullable"

definition array_create :: "kmalloc_outcome \<Rightarrow> 'a karray nullable" where
  "array_create km =
     (if \<not> km 12 then NULL else Ptr \<lparr>a_num = 0, a_max = 0, a_v = NULL\<rparr>)"

definition array_getnum :: "'a karray \<Rightarrow> int" where
  "array_getnum a = a_num a"

text \<open>A use of the block \<open>v\<close> through a null pointer is a stop.\<close>

fun deref :: "'a nullable \<Rightarrow> 'a option" where
  "deref NULL = None"
| "deref (Ptr x) = Some x"

definition array_getguy :: "'a karray \<Rightarrow> int \<Rightarrow> 'a option" where
  "array_getguy a index = do {
     kassert (a_num a \<le> a_max a);
     kassert (0 \<le> index \<and> index < a_num a);
     v \<leftarrow> deref (a_v a);
     cell \<leftarrow> rd v index;
     cell
   }"

text \<open>
  The doubling loop. The caller has asserted that \<open>max\<close> is not negative, so the loop runs on
  \<open>nat\<close>; a product above \<open>INT_MAX\<close> overflows a C \<open>int\<close>, which is a stop.
\<close>

function array_newmax :: "nat \<Rightarrow> nat \<Rightarrow> nat option" where
  "array_newmax nguys newmax =
     (if nguys > newmax then
        (if int ((newmax + 1) * 2) > INT_MAX then None
         else array_newmax nguys ((newmax + 1) * 2))
      else Some newmax)"
  by pat_completeness auto
termination
  by (relation "measure (\<lambda>(nguys, newmax). nguys - newmax)") auto

declare array_newmax.simps [simp del]

fun array_copy :: "nat \<Rightarrow> 'a option list nullable \<Rightarrow> 'a option list \<Rightarrow> 'a option list option" where
  "array_copy 0 v newv = Some newv"
| "array_copy (Suc i) v newv = do {
     newv' \<leftarrow> array_copy i v newv;
     old \<leftarrow> deref v;
     cell \<leftarrow> rd old (int i);
     wr newv' (int i) cell
   }"

definition array_preallocate ::
  "kmalloc_outcome \<Rightarrow> 'a karray \<Rightarrow> int \<Rightarrow> (rc \<times> 'a karray) option" where
  "array_preallocate km a nguys = do {
     kassert (0 \<le> a_num a \<and> a_num a \<le> a_max a);
     newmax \<leftarrow> array_newmax (nat nguys) (nat (a_max a));
     let bytes = u32 (int newmax * 4);
     if \<not> km bytes then Some (ENOMEM, a)
     else do {
       newv \<leftarrow> array_copy (nat (a_num a)) (a_v a) (replicate (bytes div 4) None);
       Some (OK, a\<lparr>a_max := int newmax, a_v := Ptr newv\<rparr>)
     }
   }"

definition array_setsize ::
  "kmalloc_outcome \<Rightarrow> 'a karray \<Rightarrow> int \<Rightarrow> (rc \<times> 'a karray) option" where
  "array_setsize km a nguys = do {
     kassert (0 \<le> a_num a \<and> a_num a \<le> a_max a);
     if nguys > a_max a then do {
       (result, a') \<leftarrow> array_preallocate km a nguys;
       if result \<noteq> OK then Some (result, a')
       else Some (OK, a'\<lparr>a_num := nguys\<rparr>)
     }
     else if nguys = 0 \<and> a_max a > 16 then do {
       _ \<leftarrow> deref (a_v a);
       Some (OK, a\<lparr>a_v := NULL, a_max := 0, a_num := nguys\<rparr>)
     }
     else Some (OK, a\<lparr>a_num := nguys\<rparr>)
   }"

definition array_setguy :: "'a karray \<Rightarrow> int \<Rightarrow> 'a \<Rightarrow> 'a karray option" where
  "array_setguy a index p = do {
     kassert (a_num a \<le> a_max a);
     kassert (0 \<le> index \<and> index < a_num a);
     v \<leftarrow> deref (a_v a);
     v' \<leftarrow> wr v index (Some p);
     Some (a\<lparr>a_v := Ptr v'\<rparr>)
   }"

definition array_add :: "kmalloc_outcome \<Rightarrow> 'a karray \<Rightarrow> 'a \<Rightarrow> (rc \<times> 'a karray) option" where
  "array_add km a guy = do {
     let ix = a_num a;
     (result, a') \<leftarrow> array_setsize km a (s32 (ix + 1));
     if result \<noteq> OK then Some (result, a')
     else do {
       v \<leftarrow> deref (a_v a');
       v' \<leftarrow> wr v ix (Some guy);
       Some (OK, a'\<lparr>a_v := Ptr v'\<rparr>)
     }
   }"

definition array_remove :: "'a karray \<Rightarrow> int \<Rightarrow> 'a karray option" where
  "array_remove a index = do {
     kassert (a_num a \<le> a_max a);
     kassert (0 \<le> index \<and> index < a_num a);
     let nmove = a_num a - (index + 1);
     v \<leftarrow> deref (a_v a);
     v' \<leftarrow> cell_memmove v (nat index) (nat index + 1) (nat nmove);
     Some (a\<lparr>a_v := Ptr v', a_num := a_num a - 1\<rparr>)
   }"

text \<open>\<open>array_destroy\<close> gives its blocks back to \<open>kfree\<close>; the result lists their sizes in bytes.\<close>

definition array_destroy :: "'a karray \<Rightarrow> nat list" where
  "array_destroy a = (case a_v a of NULL \<Rightarrow> [] | Ptr v \<Rightarrow> [4 * length v]) @ [12]"

section \<open>Invariant and abstraction\<close>

definition cells :: "'a karray \<Rightarrow> 'a option list" where
  "cells a = (case a_v a of NULL \<Rightarrow> [] | Ptr v \<Rightarrow> v)"

definition array_inv :: "'a karray \<Rightarrow> bool" where
  "array_inv a \<longleftrightarrow> 0 \<le> a_num a \<and> a_num a \<le> a_max a \<and> length (cells a) = nat (a_max a)
     \<and> (0 < a_max a \<longrightarrow> a_v a \<noteq> NULL) \<and> a_max a < 1073741824"

definition guys :: "'a karray \<Rightarrow> 'a option list" where
  "guys a = take (nat (a_num a)) (cells a)"

definition array_room :: "'a karray \<Rightarrow> nat" where
  "array_room a = nat (a_max a)"

lemma array_inv_v:
  assumes "array_inv a" and "0 < a_max a"
  obtains v where "a_v a = Ptr v" "length v = nat (a_max a)"
  using assms by (cases "a_v a") (auto simp: array_inv_def cells_def)

lemma length_guys: "array_inv a \<Longrightarrow> length (guys a) = nat (a_num a)"
  by (auto simp: array_inv_def guys_def min_def)

lemma array_create_guys:
  "array_create km = Ptr a \<Longrightarrow> array_inv a \<and> guys a = []"
  by (auto simp: array_create_def array_inv_def guys_def cells_def split: if_splits)

lemma array_newmax_some:
  "m < 1073741824 \<Longrightarrow> n \<le> 536870910 \<Longrightarrow>
     \<exists>k. array_newmax n m = Some k \<and> n \<le> k \<and> m \<le> k \<and> k < 1073741824 \<and> (n \<le> m \<longrightarrow> k = m)"
proof (induction n m rule: array_newmax.induct)
  case (1 n m)
  show ?case
  proof (cases "n > m")
    case True
    show ?thesis
    proof (cases "(m + 1) * 2 \<le> 536870910")
      case True': True
      with True "1.IH" "1.prems" obtain k where
        "array_newmax n ((m + 1) * 2) = Some k" "n \<le> k" "(m + 1) * 2 \<le> k" "k < 1073741824"
        by (auto simp: INT_MAX_def)
      with True True' show ?thesis
        by (intro exI [of _ k]) (simp add: array_newmax.simps [of n m] INT_MAX_def)
    next
      case False
      with True "1.prems" show ?thesis
        by (intro exI [of _ "(m + 1) * 2"])
          (simp add: array_newmax.simps [of n m] array_newmax.simps [of n "Suc (Suc (m * 2))"] INT_MAX_def)
    qed
  next
    case False
    with "1.prems" show ?thesis
      by (intro exI [of _ m]) (simp add: array_newmax.simps [of n m])
  qed
qed

lemma array_copy_prefix:
  "n \<le> length old \<Longrightarrow> n \<le> length new \<Longrightarrow>
     array_copy n (Ptr old) new = Some (take n old @ drop n new)"
proof (induction n)
  case 0
  then show ?case by simp
next
  case (Suc n)
  then have "array_copy n (Ptr old) new = Some (take n old @ drop n new)"
    by simp
  moreover have "(take n old @ drop n new)[n := old ! n] = take (Suc n) old @ drop (Suc n) new"
    using Suc.prems by (simp add: update_append_drop take_Suc_conv_app_nth)
  ultimately show ?case
    using Suc.prems by simp
qed

lemma array_copy_guys:
  assumes "array_inv a" and "nat (a_num a) \<le> k"
  shows "array_copy (nat (a_num a)) (a_v a) (replicate k None) =
           Some (guys a @ replicate (k - nat (a_num a)) None)"
proof (cases "a_v a")
  case NULL
  with assms have "a_num a = 0"
    by (auto simp: array_inv_def cells_def)
  then show ?thesis by (simp add: guys_def)
next
  case (Ptr v)
  with assms have "nat (a_num a) \<le> length v"
    by (auto simp: array_inv_def cells_def)
  with Ptr assms(2) show ?thesis
    by (simp add: array_copy_prefix guys_def cells_def)
qed

lemma array_preallocate_spec:
  assumes "array_inv a" and "nguys \<le> 536870910"
  shows "(\<exists>a'. array_preallocate km a nguys = Some (OK, a') \<and> array_inv a' \<and> guys a' = guys a
            \<and> a_num a' = a_num a \<and> nguys \<le> a_max a' \<and> a_max a \<le> a_max a')
         \<or> (array_preallocate km a nguys = Some (ENOMEM, a) \<and> (\<exists>n. \<not> km n))"
proof -
  have inv: "0 \<le> a_num a" "a_num a \<le> a_max a" "a_max a < 1073741824"
    using assms(1) by (simp_all add: array_inv_def)
  obtain k where k: "array_newmax (nat nguys) (nat (a_max a)) = Some k" "nat nguys \<le> k"
      "nat (a_max a) \<le> k" "k < 1073741824"
    using array_newmax_some [of "nat (a_max a)" "nat nguys"] assms(2) inv
    by (auto simp: nat_le_iff nat_less_iff)
  have bytes: "u32 (int k * 4) = k * 4"
    using k(4) by (simp add: u32_id)
  have copy: "array_copy (nat (a_num a)) (a_v a) (replicate k None) =
      Some (guys a @ replicate (k - nat (a_num a)) None)"
    using assms(1) inv k(3) by (intro array_copy_guys) auto
  show ?thesis
  proof (cases "km (k * 4)")
    case True
    let ?a' = "a\<lparr>a_max := int k, a_v := Ptr (guys a @ replicate (k - nat (a_num a)) None)\<rparr>"
    have "array_preallocate km a nguys = Some (OK, ?a')"
      using True inv k(1) bytes copy by (simp add: array_preallocate_def)
    moreover have "array_inv ?a'" "guys ?a' = guys a"
      using assms(1) inv k by (auto simp: array_inv_def guys_def cells_def length_guys [OF assms(1), unfolded guys_def cells_def] min_def)
    ultimately show ?thesis
      using k by auto
  next
    case False
    then show ?thesis
      using inv k(1) bytes by (auto simp: array_preallocate_def)
  qed
qed

lemma array_add_in_room:
  assumes "array_inv a" and "a_num a < a_max a"
  shows "\<exists>a'. array_add km a guy = Some (OK, a') \<and> array_inv a' \<and> guys a' = guys a @ [Some guy]
           \<and> a_max a' = a_max a"
proof -
  obtain v where v: "a_v a = Ptr v" "length v = nat (a_max a)"
    using assms by (cases "a_v a") (auto simp: array_inv_def cells_def)
  have inv: "0 \<le> a_num a" "a_max a < 1073741824"
    using assms(1) by (simp_all add: array_inv_def)
  have n: "nat (a_num a) < length v" "nat (a_num a + 1) = Suc (nat (a_num a))"
    using assms(2) inv v(2) by auto
  let ?a' = "a\<lparr>a_num := a_num a + 1, a_v := Ptr (v[nat (a_num a) := Some guy])\<rparr>"
  have s: "s32 (a_num a + 1) = a_num a + 1"
    using assms(2) inv by (simp add: s32_id INT_MAX_def)
  have "array_setsize km a (a_num a + 1) = Some (OK, a\<lparr>a_num := a_num a + 1\<rparr>)"
    using assms(2) inv by (simp add: array_setsize_def)
  then have "array_add km a guy = Some (OK, ?a')"
    using v n inv by (simp add: array_add_def s Let_def)
  moreover have "array_inv ?a'"
    using assms v inv by (simp add: array_inv_def cells_def)
  moreover have "guys ?a' = guys a @ [Some guy]"
    using v n by (simp add: guys_def cells_def take_list_update_append)
  ultimately show ?thesis by auto
qed

lemma array_add_grow:
  assumes "array_inv a" and "a_num a = a_max a" and "a_max a < 536870910"
  shows "(\<exists>a'. array_add km a guy = Some (OK, a') \<and> array_inv a' \<and> guys a' = guys a @ [Some guy]
            \<and> a_max a \<le> a_max a')
         \<or> (array_add km a guy = Some (ENOMEM, a) \<and> (\<exists>n. \<not> km n))"
proof -
  have inv: "0 \<le> a_num a" "a_max a < 1073741824"
    using assms(1) by (simp_all add: array_inv_def)
  have s: "s32 (a_num a + 1) = a_num a + 1"
    using assms inv by (simp add: s32_id INT_MAX_def)
  from array_preallocate_spec [of a "a_num a + 1" km] assms inv
  consider (ok) b where "array_preallocate km a (a_num a + 1) = Some (OK, b)" "array_inv b"
      "guys b = guys a" "a_num b = a_num a" "a_num a + 1 \<le> a_max b" "a_max a \<le> a_max b"
    | (full) "array_preallocate km a (a_num a + 1) = Some (ENOMEM, a)" "\<exists>n. \<not> km n"
    by auto
  then show ?thesis
  proof cases
    case ok
    have set: "array_setsize km a (a_num a + 1) = Some (OK, b\<lparr>a_num := a_num a + 1\<rparr>)"
      using assms(2) inv ok by (simp add: array_setsize_def)
    have set': "array_setsize km b (a_num b + 1) = Some (OK, b\<lparr>a_num := a_num a + 1\<rparr>)"
      using inv ok by (simp add: array_setsize_def)
    have "array_add km a guy = array_add km b guy"
      using s ok by (simp add: array_add_def set set' [unfolded ok(4)])
    moreover have "a_num b < a_max b"
      using ok by simp
    ultimately show ?thesis
      using array_add_in_room [OF ok(2), of km guy] ok by auto
  next
    case full
    then show ?thesis
      using assms(2) inv s by (simp add: array_add_def array_setsize_def)
  qed
qed

lemma array_getguy_nth:
  assumes "array_inv a" and "i < length (guys a)"
  shows "array_getguy a (int i) = guys a ! i"
proof -
  have i: "int i < a_num a"
    using assms by (simp add: length_guys)
  then obtain v where "a_v a = Ptr v" "length v = nat (a_max a)"
    using assms by (cases "a_v a") (auto simp: array_inv_def cells_def)
  moreover have "0 \<le> a_num a" "a_num a \<le> a_max a"
    using assms(1) by (simp_all add: array_inv_def)
  ultimately show ?thesis
    using i by (simp add: array_getguy_def guys_def cells_def)
qed

lemma array_getguy_out:
  "array_inv a \<Longrightarrow> i < 0 \<or> int (length (guys a)) \<le> i \<Longrightarrow> array_getguy a i = None"
  by (auto simp: array_getguy_def length_guys array_inv_def kassert_def)

lemma array_setguy_nth:
  assumes "array_inv a" and "i < length (guys a)"
  shows "\<exists>a'. array_setguy a (int i) p = Some a' \<and> array_inv a' \<and> guys a' = (guys a)[i := Some p]
           \<and> a_max a' = a_max a"
proof -
  have i: "int i < a_num a"
    using assms by (simp add: length_guys)
  then obtain v where "a_v a = Ptr v" "length v = nat (a_max a)"
    using assms by (cases "a_v a") (auto simp: array_inv_def cells_def)
  moreover have "0 \<le> a_num a" "a_num a \<le> a_max a" "a_max a < 1073741824"
    using assms(1) by (simp_all add: array_inv_def)
  ultimately show ?thesis
    using i by (simp add: array_setguy_def array_inv_def guys_def cells_def take_update_swap)
qed

lemma array_remove_nth:
  assumes "array_inv a" and "i < length (guys a)"
  shows "\<exists>a'. array_remove a (int i) = Some a' \<and> array_inv a' \<and> guys a' = remove_nth i (guys a)
           \<and> a_max a' = a_max a"
proof -
  have i: "int i < a_num a"
    using assms by (simp add: length_guys)
  then obtain v where v: "a_v a = Ptr v" "length v = nat (a_max a)"
    using assms by (cases "a_v a") (auto simp: array_inv_def cells_def)
  define n where "n = nat (a_num a)"
  have n: "i < n" "n \<le> length v" "nat (a_num a - (int i + 1)) = n - Suc i" "nat (a_num a - 1) = n - 1"
      "0 \<le> a_num a" "a_num a \<le> a_max a"
    using assms(1) i v by (auto simp: n_def array_inv_def)
  let ?v = "take i v @ take (n - Suc i) (drop (Suc i) v) @ drop (i + (n - Suc i)) v"
  let ?a' = "a\<lparr>a_v := Ptr ?v, a_num := a_num a - 1\<rparr>"
  have "array_remove a (int i) = Some ?a'"
    using v n i by (simp add: array_remove_def cell_memmove_def Let_def)
  moreover have "array_inv ?a'"
    using assms(1) v n i by (simp add: array_inv_def cells_def)
  moreover have "guys ?a' = remove_nth i (guys a)"
    using v n take_remove_nth [of i n v] by (simp add: guys_def cells_def n_def [symmetric])
  ultimately show ?thesis by auto
qed

lemma array_remove_out:
  "array_inv a \<Longrightarrow> i < 0 \<or> int (length (guys a)) \<le> i \<Longrightarrow> array_remove a i = None"
  by (auto simp: array_remove_def length_guys array_inv_def kassert_def)

lemma array_setsize_zero:
  assumes "array_inv a"
  shows "\<exists>a'. array_setsize km a 0 = Some (OK, a') \<and> array_inv a' \<and> guys a' = []
           \<and> a_max a' = (if a_max a > 16 then 0 else a_max a)"
proof (cases "a_max a > 16")
  case True
  then obtain v where "a_v a = Ptr v"
    using assms by (auto elim: array_inv_v)
  with True assms show ?thesis
    by (simp add: array_setsize_def array_inv_def guys_def cells_def)
next
  case False
  with assms show ?thesis
    by (auto simp: array_setsize_def array_inv_def guys_def cells_def)
qed

section \<open>The interface of the array\<close>

text \<open>
  What a client may rely on, over the abstract contents and the room (the capacity already
  allocated). \<open>add\<close> never needs memory while there is room; when there is none it either grows or
  reports \<open>ENOMEM\<close> and leaves the array as it was.
\<close>

fun add_all ::
  "(kmalloc_outcome \<Rightarrow> 'arr \<Rightarrow> 'a \<Rightarrow> (rc \<times> 'arr) option) \<Rightarrow> kmalloc_outcome \<Rightarrow> 'arr \<Rightarrow> 'a list
    \<Rightarrow> (rc \<times> 'arr) option" where
  "add_all add km a [] = Some (OK, a)"
| "add_all add km a (x # xs) = do {
     (r, a') \<leftarrow> add km a x;
     if r \<noteq> OK then Some (r, a') else add_all add km a' xs
   }"

locale guy_array =
  fixes inv :: "'arr \<Rightarrow> bool"
    and contents :: "'arr \<Rightarrow> 'a option list"
    and room :: "'arr \<Rightarrow> nat"
    and add :: "kmalloc_outcome \<Rightarrow> 'arr \<Rightarrow> 'a \<Rightarrow> (rc \<times> 'arr) option"
    and getguy :: "'arr \<Rightarrow> int \<Rightarrow> 'a option"
    and remove :: "'arr \<Rightarrow> int \<Rightarrow> 'arr option"
  assumes contents_room: "inv a \<Longrightarrow> length (contents a) \<le> room a"
    and add_room: "inv a \<Longrightarrow> length (contents a) < room a \<Longrightarrow>
      \<exists>a'. add km a x = Some (OK, a') \<and> inv a' \<and> contents a' = contents a @ [Some x] \<and> room a' = room a"
    and add_full: "inv a \<Longrightarrow> length (contents a) = room a \<Longrightarrow> room a < 536870910 \<Longrightarrow>
      (\<exists>a'. add km a x = Some (OK, a') \<and> inv a' \<and> contents a' = contents a @ [Some x] \<and> room a \<le> room a')
      \<or> (add km a x = Some (ENOMEM, a) \<and> (\<exists>n. \<not> km n))"
    and getguy_nth: "inv a \<Longrightarrow> i < length (contents a) \<Longrightarrow> getguy a (int i) = contents a ! i"
    and getguy_out: "inv a \<Longrightarrow> j < 0 \<or> int (length (contents a)) \<le> j \<Longrightarrow> getguy a j = None"
    and remove_at: "inv a \<Longrightarrow> i < length (contents a) \<Longrightarrow>
      \<exists>a'. remove a (int i) = Some a' \<and> inv a' \<and> contents a' = remove_nth i (contents a)
        \<and> room a' = room a"
begin

lemma add_all_room:
  "inv a \<Longrightarrow> length (contents a) + length xs \<le> room a \<Longrightarrow>
     \<exists>a'. add_all add km a xs = Some (OK, a') \<and> inv a' \<and> contents a' = contents a @ map Some xs
       \<and> room a' = room a"
proof (induction xs arbitrary: a)
  case Nil
  then show ?case by simp
next
  case (Cons x xs)
  then obtain b where b: "add km a x = Some (OK, b)" "inv b" "contents b = contents a @ [Some x]"
      "room b = room a"
    using add_room [of a km x] by auto
  with Cons.prems have "length (contents b) + length xs \<le> room b" by simp
  from Cons.IH [OF b(2) this] b show ?case by auto
qed

lemma add_cases:
  assumes "inv a" and "length (contents a) < 536870910"
  obtains (ok) a' where "add km a x = Some (OK, a')" "inv a'" "contents a' = contents a @ [Some x]"
      "room a \<le> room a'"
    | (nomem) n where "add km a x = Some (ENOMEM, a)" "length (contents a) = room a" "\<not> km n"
  using add_room [of a km x] add_full [of a km x] contents_room [of a] assms
  by (metis le_neq_implies_less order_refl)

lemma getguy_Some:
  "inv a \<Longrightarrow> getguy a i = Some x \<Longrightarrow>
     0 \<le> i \<and> nat i < length (contents a) \<and> contents a ! nat i = Some x"
  by (metis getguy_nth getguy_out int_nat_eq linorder_not_less nat_less_iff option.distinct(1))

end

interpretation karr: guy_array array_inv guys array_room array_add array_getguy array_remove
proof (unfold_locales, goal_cases)
  case (1 a)
  then show ?case by (auto simp: length_guys array_room_def array_inv_def)
next
  case (2 a km x)
  then have "a_num a < a_max a"
    by (auto simp: length_guys array_room_def array_inv_def)
  with 2 show ?case
    using array_add_in_room [of a km x] by (auto simp: array_room_def)
next
  case (3 a km x)
  then have "a_num a = a_max a" "a_max a < 536870910"
    by (auto simp: length_guys array_room_def array_inv_def)
  with 3 show ?case
    using array_add_grow [of a km x] by (auto simp: array_room_def)
next
  case (4 a i)
  then show ?case by (rule array_getguy_nth)
next
  case (5 a i)
  then show ?case by (rule array_getguy_out)
next
  case (6 a i)
  then show ?case
    using array_remove_nth [of a i] by (auto simp: array_room_def)
qed

section \<open>Properties\<close>

text \<open>
  Once \<open>array_preallocate\<close> has succeeded for \<open>n\<close> entries, \<open>array_add\<close> cannot fail until the array
  holds \<open>n\<close> entries, whatever the allocator does meanwhile, and the entries come out in order.
\<close>

theorem array_preallocate_then_add:
  assumes "array_inv a" and "n \<le> 536870910" and "array_preallocate km a n = Some (OK, a')"
    and "length (guys a) + length xs \<le> nat n"
  shows "\<exists>b. add_all array_add km' a' xs = Some (OK, b) \<and> array_inv b \<and> guys b = guys a @ map Some xs"
proof -
  from array_preallocate_spec [OF assms(1,2), of km] assms(3)
  have a': "array_inv a'" "guys a' = guys a" "n \<le> a_max a'" by auto
  then have "length (guys a') + length xs \<le> array_room a'"
    using assms(4) by (simp add: array_room_def)
  with karr.add_all_room [OF a'(1), of xs km'] a'(2) show ?thesis by auto
qed

theorem array_preallocate_then_add_witness:
  "\<exists>b. add_all array_add (\<lambda>_. False) \<lparr>a_num = 0, a_max = 2, a_v = Ptr [None, None]\<rparr> [5, 6 :: nat] = Some (OK, b)
     \<and> guys b = [Some 5, Some 6]"
proof -
  have e: "array_inv \<lparr>a_num = 0, a_max = 0, a_v = NULL\<rparr>" by (simp add: array_inv_def cells_def)
  have p: "array_preallocate (\<lambda>_. True) \<lparr>a_num = 0, a_max = 0, a_v = NULL\<rparr> 2
      = Some (OK, \<lparr>a_num = 0, a_max = 2, a_v = Ptr [None, None :: nat option]\<rparr>)"
    by code_simp
  from array_preallocate_then_add [OF e _ p, of "[5, 6]" "\<lambda>_. False"] show ?thesis
    by (auto simp: guys_def cells_def)
qed

end
