(* ===== verification/Kqueue.thy ===== *)
theory Kqueue
  imports Kprelude
begin

text \<open>
  The ring buffer of \<open>kern/lib/queue.c\<close>, which the scheduler uses as its run queue. \<open>q_addtail\<close> and
  \<open>q_grow\<close> call each other; the model bounds the depth of those calls (\<open>q_grow\<close> takes the number
  of nested calls allowed), and \<open>q_grow_spec\<close> holds for every positive depth, so that the
  bound is never met. The refilling loop carries a fuel that is met only if the loop does not
  end. The abstraction \<open>q_list\<close> is the sequence of queued pointers; the locale \<open>fifo\<close> is the contract
  of \<open>queue.h\<close> over it.
\<close>

section \<open>The operations\<close>

record 'a queue =
  q_size :: int
  q_nextwrite :: int
  q_nextread :: int
  q_data :: "'a option list"

text \<open>The doubling loop of \<open>q_grow\<close>, with the assertion that stops it when the product wraps.\<close>

function q_newsize :: "int \<Rightarrow> int \<Rightarrow> int option" where
  "q_newsize targetsize nsize =
     (if nsize < targetsize then
        (let nsize' = s32 (nsize * 2)
         in if nsize' > 0 then q_newsize targetsize nsize' else None)
      else Some nsize)"
  by pat_completeness auto

lemma s32_double_pos:
  assumes "0 < n" and "n \<le> INT_MAX" and "0 < s32 (n * 2)"
  shows "s32 (n * 2) = n * 2"
proof (cases "n * 2 \<le> INT_MAX")
  case True
  with assms(1) show ?thesis by (intro s32_id) (simp_all add: INT_MAX_def)
next
  case False
  then have "s32 (n * 2) \<le> 0"
    using s32_double_negative [of n] assms by simp
  with assms(3) show ?thesis by simp
qed

termination q_newsize
proof (relation "measure (\<lambda>(t, n). if 0 < n \<and> n \<le> INT_MAX then nat (INT_MAX - n) else 2147483648)",
    goal_cases)
  case 1
  show ?case by simp
next
  case (2 t n n')
  then show ?case
    using s32_range [of "n * 2"] s32_double_pos [of n] by (auto simp: INT_MAX_def)
qed

declare q_newsize.simps [simp del]

text \<open>The part of \<open>q_addtail\<close> after the room has been made, and the whole of it over a growing routine.\<close>

definition q_store :: "'a queue \<Rightarrow> int \<Rightarrow> 'a \<Rightarrow> (rc \<times> 'a queue) option" where
  "q_store q nextnext p = do {
     data' \<leftarrow> wr (q_data q) (q_nextwrite q) (Some p);
     Some (OK, q\<lparr>q_data := data', q_nextwrite := nextnext\<rparr>)
   }"

definition q_addtail_with ::
  "('a queue \<Rightarrow> int \<Rightarrow> (rc \<times> 'a queue) option) \<Rightarrow> 'a queue \<Rightarrow> 'a \<Rightarrow> (rc \<times> 'a queue) option" where
  "q_addtail_with grow q p = do {
     kassert (q_size q > 0);
     let nextnext = crem (q_nextwrite q + 1) (q_size q);
     if nextnext = q_nextread q then do {
       (result, q') \<leftarrow> grow q (q_size q + 1);
       if result \<noteq> OK then Some (result, q')
       else q_store q' (crem (q_nextwrite q' + 1) (q_size q')) p
     }
     else q_store q nextnext p
   }"

text \<open>The loop of \<open>q_grow\<close> that moves the pointers over; \<open>add\<close> is \<open>q_addtail\<close>.\<close>

fun q_refill ::
  "nat \<Rightarrow> ('a queue \<Rightarrow> 'a \<Rightarrow> (rc \<times> 'a queue) option) \<Rightarrow> 'a option list \<Rightarrow> int \<Rightarrow> int \<Rightarrow> int
     \<Rightarrow> 'a queue \<Rightarrow> 'a queue option" where
  "q_refill 0 add olddata i onw osize q = None"
| "q_refill (Suc fuel) add olddata i onw osize q =
     (if i = onw then Some q
      else do {
        cell \<leftarrow> rd olddata i;
        p \<leftarrow> cell;
        (result, q') \<leftarrow> add q p;
        kassert (result = OK);
        q_refill fuel add olddata (crem (i + 1) osize) onw osize q'
      })"

fun q_grow :: "nat \<Rightarrow> kmalloc_outcome \<Rightarrow> 'a queue \<Rightarrow> int \<Rightarrow> (rc \<times> 'a queue) option" where
  "q_grow 0 km q targetsize = None"
| "q_grow (Suc depth) km q targetsize = do {
     nsize \<leftarrow> q_newsize targetsize (q_size q);
     let bytes = u32 (nsize * 4);
     if \<not> km bytes then Some (ENOMEM, q)
     else do {
       q' \<leftarrow> q_refill (Suc (nat (q_size q))) (q_addtail_with (q_grow depth km))
              (q_data q) (q_nextread q) (q_nextwrite q) (q_size q)
              (q\<lparr>q_size := nsize, q_data := replicate (bytes div 4) None,
                 q_nextread := 0, q_nextwrite := 0\<rparr>);
       Some (OK, q')
     }
   }"

definition q_create :: "kmalloc_outcome \<Rightarrow> int \<Rightarrow> 'a queue nullable" where
  "q_create km sz =
     (if \<not> km 16 then NULL
      else let bytes = u32 (sz * 4) in
        if \<not> km bytes then NULL
        else Ptr \<lparr>q_size = sz, q_nextwrite = 0, q_nextread = 0, q_data = replicate (bytes div 4) None\<rparr>)"

definition q_preallocate :: "kmalloc_outcome \<Rightarrow> 'a queue \<Rightarrow> int \<Rightarrow> (rc \<times> 'a queue) option" where
  "q_preallocate km q sz = do {
     kassert (q_size q > 0);
     if sz > q_size q then q_grow 2 km q sz else Some (OK, q)
   }"

definition q_empty :: "'a queue \<Rightarrow> bool" where
  "q_empty q = (q_nextwrite q = q_nextread q)"

definition q_addtail :: "kmalloc_outcome \<Rightarrow> 'a queue \<Rightarrow> 'a \<Rightarrow> (rc \<times> 'a queue) option" where
  "q_addtail km = q_addtail_with (q_grow 2 km)"

definition q_remhead :: "'a queue \<Rightarrow> ('a \<times> 'a queue) option" where
  "q_remhead q = do {
     kassert (q_size q > 0);
     kassert (\<not> q_empty q);
     cell \<leftarrow> rd (q_data q) (q_nextread q);
     ret \<leftarrow> cell;
     Some (ret, q\<lparr>q_nextread := crem (q_nextread q + 1) (q_size q)\<rparr>)
   }"

definition q_destroy :: "'a queue \<Rightarrow> unit option" where
  "q_destroy q = kassert (q_empty q)"

definition q_getstart :: "'a queue \<Rightarrow> int" where
  "q_getstart q = q_nextread q"

definition q_getend :: "'a queue \<Rightarrow> int" where
  "q_getend q = q_nextwrite q"

definition q_getsize :: "'a queue \<Rightarrow> int" where
  "q_getsize q = q_size q"

definition q_getguy :: "'a queue \<Rightarrow> int \<Rightarrow> 'a option" where
  "q_getguy q index = do {
     kassert (0 \<le> index \<and> index < q_size q);
     cell \<leftarrow> rd (q_data q) index;
     cell
   }"

section \<open>Invariant and abstraction\<close>

definition q_count :: "'a queue \<Rightarrow> nat" where
  "q_count q = nat ((q_nextwrite q - q_nextread q) mod q_size q)"

definition q_at :: "'a queue \<Rightarrow> nat \<Rightarrow> 'a option" where
  "q_at q k = q_data q ! nat ((q_nextread q + int k) mod q_size q)"

definition q_list :: "'a queue \<Rightarrow> 'a list" where
  "q_list q = map (\<lambda>k. the (q_at q k)) [0..<q_count q]"

definition queue_inv :: "'a queue \<Rightarrow> bool" where
  "queue_inv q \<longleftrightarrow> 0 < q_size q \<and> q_size q \<le> 536870912
     \<and> 0 \<le> q_nextwrite q \<and> q_nextwrite q < q_size q
     \<and> 0 \<le> q_nextread q \<and> q_nextread q < q_size q
     \<and> length (q_data q) = nat (q_size q)
     \<and> (\<forall>k < q_count q. q_at q k \<noteq> None)"

text \<open>The pointers a queue of this size can hold: one slot always stays free.\<close>

definition q_room :: "'a queue \<Rightarrow> nat" where
  "q_room q = nat (q_size q) - 1"

lemma queue_invD:
  assumes "queue_inv q"
  shows "0 < q_size q" "q_size q \<le> 536870912" "0 \<le> q_nextwrite q" "q_nextwrite q < q_size q"
    "0 \<le> q_nextread q" "q_nextread q < q_size q" "length (q_data q) = nat (q_size q)"
    "k < q_count q \<Longrightarrow> q_at q k \<noteq> None"
  using assms by (auto simp: queue_inv_def)

lemma length_q_list [simp]: "length (q_list q) = q_count q"
  by (simp add: q_list_def)

lemma mod_inj:
  fixes r s i j :: int
  assumes "0 < s" and "(r + i) mod s = (r + j) mod s" and "0 \<le> i" "i < s" "0 \<le> j" "j < s"
  shows "i = j"
proof -
  from assms(2) have "s dvd (r + i) - (r + j)"
    by (simp add: mod_eq_dvd_iff)
  then have "i mod s = j mod s"
    by (simp add: mod_eq_dvd_iff)
  with assms show ?thesis by simp
qed

lemma q_count_int: "queue_inv q \<Longrightarrow> int (q_count q) = (q_nextwrite q - q_nextread q) mod q_size q"
  by (simp add: q_count_def queue_invD(1))

lemma q_count_less: "queue_inv q \<Longrightarrow> int (q_count q) < q_size q"
  by (simp add: q_count_int queue_invD(1))

lemma q_write_index:
  assumes "queue_inv q"
  shows "(q_nextread q + int (q_count q)) mod q_size q = q_nextwrite q"
  using queue_invD [OF assms] by (simp add: q_count_int [OF assms] mod_add_right_eq)

lemma q_full_iff:
  assumes "queue_inv q"
  shows "crem (q_nextwrite q + 1) (q_size q) = q_nextread q \<longleftrightarrow> q_count q = q_room q"
proof -
  note D = queue_invD [OF assms]
  have "crem (q_nextwrite q + 1) (q_size q) = (q_nextread q + (int (q_count q) + 1)) mod q_size q"
    using D mod_add_left_eq [of "q_nextread q + int (q_count q)" "q_size q" 1]
    by (simp add: crem_mod q_write_index [OF assms] add.assoc)
  also have "\<dots> = q_nextread q \<longleftrightarrow> int (q_count q) + 1 = q_size q"
  proof
    assume "(q_nextread q + (int (q_count q) + 1)) mod q_size q = q_nextread q"
    then have "q_size q dvd int (q_count q) + 1"
      using D by (metis add_diff_cancel_left' mod_eq_dvd_iff mod_pos_pos_trivial)
    then show "int (q_count q) + 1 = q_size q"
      using q_count_less [OF assms] by (simp add: zdvd_imp_le dual_order.antisym)
  qed (use D in simp)
  also have "\<dots> \<longleftrightarrow> q_count q = q_room q"
    using D by (auto simp: q_room_def)
  finally show ?thesis .
qed

lemma q_store_spec:
  assumes "queue_inv q" and "q_count q < q_room q"
  shows "\<exists>q'. q_store q (crem (q_nextwrite q + 1) (q_size q)) p = Some (OK, q') \<and> queue_inv q'
           \<and> q_list q' = q_list q @ [p] \<and> q_size q' = q_size q"
proof -
  note D = queue_invD [OF assms(1)]
  let ?nw = "(q_nextwrite q + 1) mod q_size q"
  let ?q = "q\<lparr>q_data := (q_data q)[nat (q_nextwrite q) := Some p], q_nextwrite := ?nw\<rparr>"
  have c: "int (q_count q) + 1 < q_size q"
    using assms(2) by (auto simp: q_room_def)
  have "(q_nextwrite q + 1 - q_nextread q) mod q_size q = (int (q_count q) + 1) mod q_size q"
    unfolding q_count_int [OF assms(1)] by (simp add: mod_simps algebra_simps)
  then have m: "(?nw - q_nextread q) mod q_size q = int (Suc (q_count q))"
    using c by (simp add: mod_diff_left_eq)
  have count: "q_count ?q = Suc (q_count q)"
    unfolding q_count_def [of ?q] by (simp add: m del: of_nat_Suc)
  have at: "q_at ?q k = (if k = q_count q then Some p else q_at q k)" if "k \<le> q_count q" for k
  proof (cases "k = q_count q")
    case True
    then show ?thesis
      using D by (simp add: q_at_def q_write_index [OF assms(1)])
  next
    case False
    then have "(q_nextread q + int k) mod q_size q \<noteq> q_nextwrite q"
      using mod_inj [of "q_size q" "q_nextread q" "int k" "int (q_count q)"] D c that
      by (auto simp: q_write_index [OF assms(1)])
    then have "nat ((q_nextread q + int k) mod q_size q) \<noteq> nat (q_nextwrite q)"
      using D(1,3) by (metis eq_nat_nat_iff pos_mod_sign)
    with False show ?thesis by (simp add: q_at_def)
  qed
  have "q_list ?q = q_list q @ [p]"
    by (simp add: q_list_def count at)
  moreover have "queue_inv ?q"
    unfolding queue_inv_def using D count at by (auto simp: less_Suc_eq_le)
  moreover have "q_store q (crem (q_nextwrite q + 1) (q_size q)) p = Some (OK, ?q)"
    using D by (simp add: q_store_def crem_mod)
  ultimately show ?thesis by auto
qed

lemma q_addtail_with_room:
  assumes "queue_inv q" and "q_count q < q_room q"
  shows "\<exists>q'. q_addtail_with grow q p = Some (OK, q') \<and> queue_inv q' \<and> q_list q' = q_list q @ [p]
           \<and> q_size q' = q_size q"
proof -
  have "crem (q_nextwrite q + 1) (q_size q) \<noteq> q_nextread q"
    using assms q_full_iff by fastforce
  then have "q_addtail_with grow q p = q_store q (crem (q_nextwrite q + 1) (q_size q)) p"
    using queue_invD(1) [OF assms(1)] by (simp add: q_addtail_with_def Let_def)
  with q_store_spec [OF assms, of p] show ?thesis by simp
qed

lemma q_remhead_spec:
  assumes "queue_inv q" and "q_list q = x # xs"
  shows "\<exists>q'. q_remhead q = Some (x, q') \<and> queue_inv q' \<and> q_list q' = xs \<and> q_size q' = q_size q"
proof -
  note D = queue_invD [OF assms(1)]
  let ?nr = "(q_nextread q + 1) mod q_size q"
  let ?q = "q\<lparr>q_nextread := ?nr\<rparr>"
  have pos: "0 < q_count q"
    using assms(2) length_q_list [of q] by simp
  have ne: "\<not> q_empty q"
    using pos by (auto simp: q_empty_def q_count_def)
  have "q_at q 0 \<noteq> None"
    using D(8) pos by blast
  then have head: "q_data q ! nat (q_nextread q) = Some (q_list q ! 0)"
    using D pos by (simp add: q_list_def q_at_def)
  have "(q_nextwrite q - (q_nextread q + 1)) mod q_size q = (int (q_count q) - 1) mod q_size q"
    unfolding q_count_int [OF assms(1)] by (simp add: mod_simps algebra_simps)
  then have m: "(q_nextwrite q - ?nr) mod q_size q = int (q_count q - 1)"
    using pos q_count_less [OF assms(1)] by (simp add: mod_diff_right_eq of_nat_diff)
  have count: "q_count ?q = q_count q - 1"
    unfolding q_count_def [of ?q] by (simp add: m)
  have at: "q_at ?q k = q_at q (Suc k)" for k
    by (simp add: q_at_def mod_add_left_eq add.assoc add.commute [of 1])
  have "q_list ?q = tl (q_list q)"
    by (rule nth_equalityI) (simp_all add: q_list_def count at nth_tl less_diff_conv)
  moreover have "queue_inv ?q"
    unfolding queue_inv_def using D count at by auto
  moreover have "q_remhead q = Some (x, ?q)"
    using D ne head assms(2) by (simp add: q_remhead_def crem_mod)
  ultimately show ?thesis
    using assms(2) by auto
qed

lemma q_empty_iff: "queue_inv q \<Longrightarrow> q_empty q \<longleftrightarrow> q_list q = []"
proof
  assume inv: "queue_inv q" and "q_list q = []"
  then have "q_count q = 0"
    using length_q_list [of q] by simp
  then show "q_empty q"
    using q_write_index [OF inv] queue_invD [OF inv] by (simp add: q_empty_def)
qed (simp add: q_empty_def q_list_def q_count_def)

section \<open>Growing\<close>

text \<open>The old ring seen from index \<open>i\<close>, as a queue of its own.\<close>

abbreviation ring_from :: "'a option list \<Rightarrow> int \<Rightarrow> int \<Rightarrow> int \<Rightarrow> 'a queue" where
  "ring_from olddata i onw osize \<equiv>
     \<lparr>q_size = osize, q_nextwrite = onw, q_nextread = i, q_data = olddata\<rparr>"

lemma q_refill_spec:
  assumes "queue_inv (ring_from old i onw osize)" and "queue_inv q"
    and "q_count (ring_from old i onw osize) < fuel"
    and "q_count q + q_count (ring_from old i onw osize) \<le> q_room q"
  shows "\<exists>q'. q_refill fuel (q_addtail_with grow) old i onw osize q = Some q' \<and> queue_inv q'
           \<and> q_list q' = q_list q @ q_list (ring_from old i onw osize) \<and> q_size q' = q_size q"
  using assms
proof (induction fuel arbitrary: i q)
  case 0
  then show ?case by simp
next
  case (Suc fuel)
  let ?r = "ring_from old i onw osize"
  show ?case
  proof (cases "q_list ?r")
    case Nil
    then have "i = onw"
      using q_empty_iff [OF Suc.prems(1)] by (simp add: q_empty_def)
    with Nil Suc.prems(2) show ?thesis by simp
  next
    case (Cons x xs)
    from q_remhead_spec [OF Suc.prems(1) Cons]
    have rem: "q_remhead ?r = Some (x, ring_from old (crem (i + 1) osize) onw osize)"
        "queue_inv (ring_from old (crem (i + 1) osize) onw osize)"
        "q_list (ring_from old (crem (i + 1) osize) onw osize) = xs"
      by (auto simp: q_remhead_def panic_simps)
    have ne: "i \<noteq> onw" and cell: "rd old i = Some (Some x)"
      using rem(1) by (auto simp: q_remhead_def q_empty_def panic_simps)
    have "q_count q < q_room q"
      using Suc.prems(4) Cons length_q_list [of ?r] by simp
    then obtain b where b: "q_addtail_with grow q x = Some (OK, b)" "queue_inv b"
        "q_list b = q_list q @ [x]" "q_size b = q_size q"
      using q_addtail_with_room [OF Suc.prems(2)] by blast
    have counts: "q_count ?r = Suc (q_count (ring_from old (crem (i + 1) osize) onw osize))"
        "q_count b = Suc (q_count q)" "q_room b = q_room q"
      using Cons rem(3) b(3,4) length_q_list [of ?r] length_q_list [of b]
        length_q_list [of "ring_from old (crem (i + 1) osize) onw osize"]
      by (simp_all add: q_room_def)
    from Suc.IH [OF rem(2) b(2)] Suc.prems(3,4) counts
    show ?thesis
      using ne cell b Cons rem(3) by auto
  qed
qed

lemma q_newsize_spec:
  "0 < n \<Longrightarrow> n \<le> 268435456 \<Longrightarrow> t \<le> 268435456 \<Longrightarrow>
     \<exists>k. q_newsize t n = Some k \<and> t \<le> k \<and> n \<le> k \<and> k \<le> 536870912 \<and> (n < t \<longrightarrow> 2 * n \<le> k)"
proof (induction t n rule: q_newsize.induct)
  case (1 t n)
  show ?case
  proof (cases "n < t")
    case True
    have s: "s32 (n * 2) = n * 2"
      using "1.prems" by (simp add: s32_id INT_MAX_def)
    show ?thesis
    proof (cases "n * 2 \<le> 268435456")
      case small: True
      from "1.IH" [OF True refl] s small "1.prems" obtain k where
        "q_newsize t (n * 2) = Some k" "t \<le> k" "n * 2 \<le> k" "k \<le> 536870912"
        by auto
      with True s "1.prems" show ?thesis
        by (intro exI [of _ k]) (simp add: q_newsize.simps [of t n])
    next
      case False
      with True s "1.prems" show ?thesis
        by (intro exI [of _ "n * 2"])
          (simp add: q_newsize.simps [of t n] q_newsize.simps [of t "n * 2"])
    qed
  next
    case False
    with "1.prems" show ?thesis
      by (intro exI [of _ n]) (simp add: q_newsize.simps [of t n])
  qed
qed

text \<open>
  A call of \<open>q_grow\<close> for more than the present size, with any positive depth bound: it moves every
  pointer over in order, or reports \<open>ENOMEM\<close> and changes nothing.
\<close>

lemma q_grow_spec:
  assumes "queue_inv q" and "q_size q \<le> 268435456" and "q_size q < t" and "t \<le> 268435456"
  shows "(\<exists>q'. q_grow (Suc depth) km q t = Some (OK, q') \<and> queue_inv q' \<and> q_list q' = q_list q
            \<and> t \<le> q_size q' \<and> 2 * q_size q \<le> q_size q')
         \<or> (q_grow (Suc depth) km q t = Some (ENOMEM, q) \<and> (\<exists>n. \<not> km n))"
proof -
  note D = queue_invD [OF assms(1)]
  obtain n where n: "q_newsize t (q_size q) = Some n" "t \<le> n" "n \<le> 536870912" "2 * q_size q \<le> n"
    using q_newsize_spec [of "q_size q" t] assms D by auto
  have bytes: "u32 (n * 4) = nat n * 4"
    using n D by (simp add: u32_id nat_mult_distrib)
  show ?thesis
  proof (cases "km (nat n * 4)")
    case True
    let ?q = "q\<lparr>q_size := n, q_data := replicate (nat n) None, q_nextread := 0, q_nextwrite := 0\<rparr>"
    let ?r = "ring_from (q_data q) (q_nextread q) (q_nextwrite q) (q_size q)"
    have new: "queue_inv ?q" "q_list ?q = []" "q_count ?q = 0" "q_room ?q = nat n - 1"
      using n D by (simp_all add: queue_inv_def q_list_def q_count_def q_room_def)
    have same: "q_count ?r = q_count q" "q_list ?r = q_list q" "queue_inv ?r"
      using assms(1) by (simp_all add: q_list_def q_count_def q_at_def queue_inv_def cong: map_cong)
    have "q_count q < Suc (nat (q_size q))" "q_count q \<le> nat n - 1"
      using q_count_less [OF assms(1)] n D by linarith+
    with q_refill_spec [OF same(3) new(1), of "Suc (nat (q_size q))" "q_grow depth km"] new same
    show ?thesis
      using True n bytes by (auto simp: Let_def simp del: q_refill.simps)
  next
    case False
    then show ?thesis
      using n bytes by (auto simp: Let_def)
  qed
qed

lemma q_addtail_full:
  assumes "queue_inv q" and "q_count q = q_room q" and "q_size q < 268435456"
  shows "(\<exists>q'. q_addtail km q p = Some (OK, q') \<and> queue_inv q' \<and> q_list q' = q_list q @ [p]
            \<and> q_room q \<le> q_room q')
         \<or> (q_addtail km q p = Some (ENOMEM, q) \<and> (\<exists>n. \<not> km n))"
proof -
  note D = queue_invD [OF assms(1)]
  have full: "crem (q_nextwrite q + 1) (q_size q) = q_nextread q"
    using q_full_iff assms by blast
  from q_grow_spec [of q "q_size q + 1" 1 km] assms
  consider (ok) b where "q_grow 2 km q (q_size q + 1) = Some (OK, b)" "queue_inv b"
      "q_list b = q_list q" "2 * q_size q \<le> q_size b"
    | (nomem) "q_grow 2 km q (q_size q + 1) = Some (ENOMEM, q)" "\<exists>n. \<not> km n"
    by (auto simp: numeral_2_eq_2)
  then show ?thesis
  proof cases
    case ok
    have "q_count b = q_count q"
      using ok(3) length_q_list by metis
    then have "q_count b < q_room b"
      using assms(2) ok(4) D by (simp add: q_room_def)
    from q_store_spec [OF ok(2) this, of p] show ?thesis
      using ok D full by (auto simp: q_addtail_def q_addtail_with_def q_room_def Let_def)
  next
    case nomem
    then show ?thesis
      using full D by (simp add: q_addtail_def q_addtail_with_def Let_def)
  qed
qed

lemma q_preallocate_spec:
  assumes "queue_inv q" and "sz \<le> 268435456"
  shows "(\<exists>q'. q_preallocate km q sz = Some (OK, q') \<and> queue_inv q' \<and> q_list q' = q_list q
            \<and> sz \<le> q_size q' \<and> q_size q \<le> q_size q')
         \<or> (q_preallocate km q sz = Some (ENOMEM, q) \<and> (\<exists>n. \<not> km n))"
proof (cases "sz > q_size q")
  case True
  with q_grow_spec [of q sz 1 km] assms queue_invD(1) [OF assms(1)] show ?thesis
    by (auto simp: q_preallocate_def numeral_2_eq_2)
next
  case False
  with assms queue_invD(1) [OF assms(1)] show ?thesis
    by (simp add: q_preallocate_def)
qed

lemma q_create_spec:
  "0 < sz \<Longrightarrow> sz \<le> 268435456 \<Longrightarrow> q_create km sz = Ptr q \<Longrightarrow>
     queue_inv q \<and> q_list q = [] \<and> q_size q = sz"
  by (auto simp: q_create_def queue_inv_def q_list_def q_count_def u32_id nat_mult_distrib Let_def
      split: if_splits)

lemma q_remhead_empty: "queue_inv q \<Longrightarrow> q_list q = [] \<Longrightarrow> q_remhead q = None"
  using q_empty_iff [of q] by (simp add: q_remhead_def kassert_def)

section \<open>The interface of the queue\<close>

text \<open>
  Removing the head until the queue is empty, as the scheduler does when it drops every thread;
  the fuel is met only if the loop does not end.
\<close>

fun drain_with ::
  "nat \<Rightarrow> ('q \<Rightarrow> bool) \<Rightarrow> ('q \<Rightarrow> ('a \<times> 'q) option) \<Rightarrow> 'q \<Rightarrow> ('a list \<times> 'q) option" where
  "drain_with 0 emp rem q = None"
| "drain_with (Suc fuel) emp rem q =
     (if emp q then Some ([], q)
      else do {
        (x, q') \<leftarrow> rem q;
        (xs, q'') \<leftarrow> drain_with fuel emp rem q';
        Some (x # xs, q'')
      })"

locale fifo =
  fixes inv :: "'q \<Rightarrow> bool"
    and contents :: "'q \<Rightarrow> 'a list"
    and room :: "'q \<Rightarrow> nat"
    and addtail :: "kmalloc_outcome \<Rightarrow> 'q \<Rightarrow> 'a \<Rightarrow> (rc \<times> 'q) option"
    and remhead :: "'q \<Rightarrow> ('a \<times> 'q) option"
    and empty :: "'q \<Rightarrow> bool"
  assumes contents_room: "inv q \<Longrightarrow> length (contents q) \<le> room q"
    and addtail_room: "inv q \<Longrightarrow> length (contents q) < room q \<Longrightarrow>
      \<exists>q'. addtail km q x = Some (OK, q') \<and> inv q' \<and> contents q' = contents q @ [x] \<and> room q' = room q"
    and addtail_full: "inv q \<Longrightarrow> length (contents q) = room q \<Longrightarrow> room q < 268435455 \<Longrightarrow>
      (\<exists>q'. addtail km q x = Some (OK, q') \<and> inv q' \<and> contents q' = contents q @ [x] \<and> room q \<le> room q')
      \<or> (addtail km q x = Some (ENOMEM, q) \<and> (\<exists>n. \<not> km n))"
    and remhead_Cons: "inv q \<Longrightarrow> contents q = x # xs \<Longrightarrow>
      \<exists>q'. remhead q = Some (x, q') \<and> inv q' \<and> contents q' = xs \<and> room q' = room q"
    and remhead_Nil: "inv q \<Longrightarrow> contents q = [] \<Longrightarrow> remhead q = None"
    and empty_iff: "inv q \<Longrightarrow> empty q \<longleftrightarrow> contents q = []"
begin

lemma addtail_cases:
  assumes "inv q" and "length (contents q) < 268435455"
  obtains (ok) q' where "addtail km q x = Some (OK, q')" "inv q'" "contents q' = contents q @ [x]"
      "room q \<le> room q'"
    | (nomem) n where "addtail km q x = Some (ENOMEM, q)" "length (contents q) = room q" "\<not> km n"
  using addtail_room [of q km x] addtail_full [of q km x] contents_room [of q] assms
  by (metis le_neq_implies_less order_refl)

lemma drain_contents:
  "inv q \<Longrightarrow> length (contents q) < fuel \<Longrightarrow>
     \<exists>q'. drain_with fuel empty remhead q = Some (contents q, q') \<and> inv q' \<and> contents q' = []
       \<and> room q' = room q"
proof (induction fuel arbitrary: q)
  case 0
  then show ?case by simp
next
  case (Suc fuel)
  show ?case
  proof (cases "contents q")
    case Nil
    with Suc.prems show ?thesis by (simp add: empty_iff)
  next
    case (Cons x xs)
    then obtain b where b: "remhead q = Some (x, b)" "inv b" "contents b = xs" "room b = room q"
      using remhead_Cons [OF Suc.prems(1)] by blast
    with Suc.IH [of b] Suc.prems Cons show ?thesis
      by (auto simp: empty_iff)
  qed
qed

text \<open>First in, first out: what is added last is taken out after all that was there.\<close>

lemma addtail_drain:
  assumes "inv q" and "length (contents q) < 268435455" and "addtail km q x = Some (OK, q')"
  shows "\<exists>q''. drain_with (length (contents q) + 2) empty remhead q' = Some (contents q @ [x], q'')"
  by (rule addtail_cases [OF assms(1,2), of km x])
    (use assms(3) drain_contents [of q' "length (contents q) + 2"] in \<open>auto simp del: drain_with.simps\<close>)

end

lemma queue_room_iff:
  "queue_inv q \<Longrightarrow> q_room q < 268435455 \<longleftrightarrow> q_size q < 268435456"
  by (auto simp: q_room_def queue_inv_def)

interpretation kq: fifo queue_inv q_list q_room q_addtail q_remhead q_empty
proof (unfold_locales, goal_cases)
  case (1 q)
  then show ?case using q_count_less [OF 1] by (simp add: q_room_def)
next
  case (2 q km x)
  then show ?case
    using q_addtail_with_room [of q "q_grow 2 km" x] by (auto simp: q_addtail_def q_room_def)
next
  case (3 q km x)
  then show ?case
    using q_addtail_full [of q km x] queue_room_iff by auto
next
  case (4 q x xs)
  then show ?case
    using q_remhead_spec [of q x xs] by (auto simp: q_room_def)
next
  case (5 q)
  then show ?case by (rule q_remhead_empty)
next
  case (6 q)
  then show ?case by (rule q_empty_iff)
qed

section \<open>Properties\<close>

text \<open>
  C17. The queue is first in, first out, also across growing: \<open>q_addtail\<close> on a well-formed queue
  either adds at the tail, so that draining gives the old contents in order and then the new
  pointer, or (only when the ring is full and the allocator refuses) returns \<open>ENOMEM\<close> and changes
  nothing.
\<close>

theorem queue_fifo:
  assumes "queue_inv q" and "length (q_list q) < 268435455"
  shows "(\<exists>q' q''. q_addtail km q p = Some (OK, q') \<and> queue_inv q'
            \<and> drain_with (length (q_list q) + 2) q_empty q_remhead q' = Some (q_list q @ [p], q''))
       \<or> (q_addtail km q p = Some (ENOMEM, q) \<and> length (q_list q) + 1 = nat (q_size q) \<and> (\<exists>n. \<not> km n))"
proof (rule kq.addtail_cases [OF assms, of km p])
  fix q' assume "q_addtail km q p = Some (OK, q')" "queue_inv q'"
  with kq.addtail_drain [OF assms this(1)] show ?thesis by blast
next
  fix n assume "q_addtail km q p = Some (ENOMEM, q)" "length (q_list q) = q_room q" "\<not> km n"
  with queue_invD(1) [OF assms(1)] show ?thesis by (auto simp: q_room_def)
qed

theorem queue_fifo_witness:
  "(let q = \<lparr>q_size = 2, q_nextwrite = 0, q_nextread = 1, q_data = [None, Some (8 :: nat)]\<rparr> in
     \<exists>q' q''. q_addtail (\<lambda>_. True) q 9 = Some (OK, q') \<and> drain_with 3 q_empty q_remhead q' = Some ([8, 9], q''))"
proof -
  let ?q = "\<lparr>q_size = 2, q_nextwrite = 0, q_nextread = 1, q_data = [None, Some (8 :: nat)]\<rparr>"
  have l: "q_list ?q = [8]" by code_simp
  have i: "queue_inv ?q" by (simp add: queue_inv_def q_count_def q_at_def)
  from queue_fifo [OF i, of "\<lambda>_. True" 9] l show ?thesis
    by (simp add: Let_def numeral_3_eq_3 del: drain_with.simps) blast
qed

end
