(* ===== verification/Kthread.thy ===== *)
theory Kthread
  imports Karray Kqueue
begin

text \<open>
  The thread system: \<open>kern/thread/thread.c\<close>, \<open>kern/thread/scheduler.c\<close>, the interrupt level of
  \<open>kern/arch/mips/mips/spl.c\<close> and the switch of \<open>kern/arch/mips/mips/pcb.c\<close>. The globals of those
  files are the fields of \<open>tsys\<close>; a \<open>struct thread\<close> is a record in the store \<open>ts_threads\<close>, keyed by
  its address, and a freed one is not in the store.

  A context switch ends the step of one thread and continues another inside its own call of
  \<open>mi_switch\<close> (or at \<open>mi_threadstart\<close> for a new thread). The place where a thread continues is its
  \<open>pcb_resume\<close>, which stands for the saved registers; \<open>mi_switch_out\<close> is \<open>mi_switch\<close> up to
  \<open>md_switch\<close>, and \<open>resume\<close> is what the thread that was picked runs next. The interrupts taken by
  \<open>cpu_idle\<close> while nothing is runnable are an argument: the list of the addresses their handlers
  wake up (\<open>NULL\<close> for a handler that wakes nothing). A list that ends before something is runnable
  is a machine that idles for ever, and gives no result.
\<close>

section \<open>State\<close>

datatype threadstate = S_RUN | S_READY | S_SLEEP | S_ZOMB

datatype resume_point = AT_START | IN_YIELD int | IN_SLEEP

record pcb =
  pcb_ininterrupt :: int
  pcb_resume :: resume_point

record thread =
  t_pcb :: pcb
  t_name :: string
  t_sleepaddr :: "nat nullable"
  t_stack :: "nat list nullable"
  t_vmspace :: "nat nullable"
  t_cwd :: "nat nullable"

record tsys =
  ts_threads :: "nat \<rightharpoonup> thread"
  curthread :: "nat nullable"
  sleepers :: "nat karray nullable"
  zombies :: "nat karray nullable"
  runqueue :: "nat queue nullable"
  numthreads :: int
  curspl :: int
  in_interrupt :: int
  vn_refs :: "nat \<Rightarrow> int"
  as_active :: "nat nullable"
  as_freed :: "nat list"

definition SPL_HIGH :: int where
  "SPL_HIGH = 15"

definition splx :: "int \<Rightarrow> tsys \<Rightarrow> int \<times> tsys" where
  "splx newspl s = (curspl s, s\<lparr>curspl := newspl\<rparr>)"

definition splhigh :: "tsys \<Rightarrow> int \<times> tsys" where
  "splhigh = splx SPL_HIGH"

definition spl0 :: "tsys \<Rightarrow> int \<times> tsys" where
  "spl0 = splx 0"

definition stack_magic :: "nat list" where
  "stack_magic = [0xae, 0x11, 0xda, 0x33]"

text \<open>Access to a thread structure: a freed or null one is a stop.\<close>

definition thr :: "tsys \<Rightarrow> nat \<Rightarrow> thread option" where
  "thr s t = ts_threads s t"

definition upd_thr :: "nat \<Rightarrow> (thread \<Rightarrow> thread) \<Rightarrow> tsys \<Rightarrow> tsys option" where
  "upd_thr t f s = do { th \<leftarrow> thr s t; Some (s\<lparr>ts_threads := (ts_threads s)(t \<mapsto> f th)\<rparr>) }"

definition VOP_INCREF :: "nat \<Rightarrow> tsys \<Rightarrow> tsys" where
  "VOP_INCREF vn s = s\<lparr>vn_refs := (vn_refs s)(vn := vn_refs s vn + 1)\<rparr>"

definition VOP_DECREF :: "nat \<Rightarrow> tsys \<Rightarrow> tsys" where
  "VOP_DECREF vn s = s\<lparr>vn_refs := (vn_refs s)(vn := vn_refs s vn - 1)\<rparr>"

definition as_activate :: "nat \<Rightarrow> tsys \<Rightarrow> tsys" where
  "as_activate as s = s\<lparr>as_active := Ptr as\<rparr>"

definition as_destroy :: "nat \<Rightarrow> tsys \<Rightarrow> tsys" where
  "as_destroy as s = s\<lparr>as_freed := as # as_freed s\<rparr>"

section \<open>The scheduler\<close>

definition scheduler_bootstrap :: "kmalloc_outcome \<Rightarrow> tsys \<Rightarrow> tsys option" where
  "scheduler_bootstrap km s =
     (case q_create km 32 of NULL \<Rightarrow> None | Ptr q \<Rightarrow> Some (s\<lparr>runqueue := Ptr q\<rparr>))"

definition scheduler_preallocate :: "kmalloc_outcome \<Rightarrow> int \<Rightarrow> tsys \<Rightarrow> (rc \<times> tsys) option" where
  "scheduler_preallocate km nthreads s = do {
     kassert (curspl s > 0);
     q \<leftarrow> deref (runqueue s);
     (r, q') \<leftarrow> q_preallocate km q nthreads;
     Some (r, s\<lparr>runqueue := Ptr q'\<rparr>)
   }"

definition make_runnable :: "kmalloc_outcome \<Rightarrow> nat \<Rightarrow> tsys \<Rightarrow> (rc \<times> tsys) option" where
  "make_runnable km t s = do {
     kassert (curspl s > 0);
     q \<leftarrow> deref (runqueue s);
     (r, q') \<leftarrow> q_addtail km q t;
     Some (r, s\<lparr>runqueue := Ptr q'\<rparr>)
   }"

text \<open>
  \<open>scheduler_killall\<close> takes the threads off the run queue one by one and prints their names, which
  reads each thread structure; the fuel is one more than the queue can hold.
\<close>

definition scheduler_killall :: "tsys \<Rightarrow> (nat list \<times> tsys) option" where
  "scheduler_killall s = do {
     kassert (curspl s > 0);
     q \<leftarrow> deref (runqueue s);
     (ts, q') \<leftarrow> drain_with (Suc (nat (q_size q))) q_empty q_remhead q;
     kassert (list_all (\<lambda>t. thr s t \<noteq> None) ts);
     Some (ts, s\<lparr>runqueue := Ptr q'\<rparr>)
   }"

definition scheduler_shutdown :: "tsys \<Rightarrow> tsys option" where
  "scheduler_shutdown s = do {
     (_, s') \<leftarrow> scheduler_killall s;
     kassert (curspl s' > 0);
     q \<leftarrow> deref (runqueue s');
     q_destroy q;
     Some (s'\<lparr>runqueue := NULL\<rparr>)
   }"

section \<open>Waking up\<close>

text \<open>The loop over \<open>sleepers\<close>; each round either removes entry \<open>i\<close> or moves on.\<close>

fun wakeup_loop :: "nat \<Rightarrow> kmalloc_outcome \<Rightarrow> nat \<Rightarrow> int \<Rightarrow> tsys \<Rightarrow> tsys option" where
  "wakeup_loop 0 km addr i s = None"
| "wakeup_loop (Suc fuel) km addr i s = do {
     a \<leftarrow> deref (sleepers s);
     if i < array_getnum a then do {
       t \<leftarrow> array_getguy a i;
       th \<leftarrow> thr s t;
       if t_sleepaddr th = Ptr addr then do {
         a' \<leftarrow> array_remove a i;
         (result, s') \<leftarrow> make_runnable km t (s\<lparr>sleepers := Ptr a'\<rparr>);
         kassert (result = OK);
         wakeup_loop fuel km addr i s'
       }
       else wakeup_loop fuel km addr (i + 1) s
     }
     else Some s
   }"

definition thread_wakeup :: "kmalloc_outcome \<Rightarrow> nat \<Rightarrow> tsys \<Rightarrow> tsys option" where
  "thread_wakeup km addr s = do {
     kassert (curspl s > 0);
     a \<leftarrow> deref (sleepers s);
     wakeup_loop (Suc (nat (array_getnum a))) km addr 0 s
   }"

text \<open>The search loop of \<open>thread_hassleepers\<close>; \<open>n\<close> entries are left.\<close>

fun hassleepers_loop :: "nat \<Rightarrow> nat \<Rightarrow> nat karray \<Rightarrow> int \<Rightarrow> tsys \<Rightarrow> bool option" where
  "hassleepers_loop 0 addr a i s = Some False"
| "hassleepers_loop (Suc n) addr a i s = do {
     t \<leftarrow> array_getguy a i;
     th \<leftarrow> thr s t;
     if t_sleepaddr th = Ptr addr then Some True else hassleepers_loop n addr a (i + 1) s
   }"

definition thread_hassleepers :: "nat \<Rightarrow> tsys \<Rightarrow> bool option" where
  "thread_hassleepers addr s = do {
     kassert (curspl s > 0);
     a \<leftarrow> deref (sleepers s);
     hassleepers_loop (nat (array_getnum a)) addr a 0 s
   }"

text \<open>\<open>scheduler\<close>: the interrupts that \<open>cpu_idle\<close> takes come from the list \<open>idle\<close>.\<close>

fun scheduler :: "kmalloc_outcome \<Rightarrow> nat nullable list \<Rightarrow> tsys \<Rightarrow> (nat \<times> tsys) option" where
  "scheduler km idle s = do {
     kassert (curspl s > 0);
     q \<leftarrow> deref (runqueue s);
     if q_empty q then
       (case idle of
          [] \<Rightarrow> None
        | irq # rest \<Rightarrow> do {
            s' \<leftarrow> (case irq of NULL \<Rightarrow> Some s | Ptr addr \<Rightarrow> thread_wakeup km addr s);
            scheduler km rest s'
          })
     else do {
       (t, q') \<leftarrow> q_remhead q;
       Some (t, s\<lparr>runqueue := Ptr q'\<rparr>)
     }
   }"

declare scheduler.simps [simp del]

section \<open>Creating, destroying and forking threads\<close>

text \<open>
  The allocator's answers to one call of \<open>thread_create\<close>, \<open>thread_fork\<close> or \<open>thread_bootstrap\<close>, one
  per call of \<open>kmalloc\<close> it makes, and the address it gives for the thread structure.
\<close>

record fork_mem =
  m_addr :: nat
  m_thread :: bool
  m_name :: bool
  m_stack :: bool
  m_sleepers :: kmalloc_outcome
  m_zombies :: kmalloc_outcome
  m_sched :: kmalloc_outcome
  m_run :: kmalloc_outcome

definition thread_create :: "fork_mem \<Rightarrow> string \<Rightarrow> tsys \<Rightarrow> nat nullable \<times> tsys" where
  "thread_create m name s =
     (if \<not> m_thread m then (NULL, s)
      else if \<not> m_name m then (NULL, s)
      else (Ptr (m_addr m),
        s\<lparr>ts_threads := (ts_threads s)(m_addr m \<mapsto>
             \<lparr>t_pcb = \<lparr>pcb_ininterrupt = 0, pcb_resume = AT_START\<rparr>, t_name = name, t_sleepaddr = NULL,
              t_stack = NULL, t_vmspace = NULL, t_cwd = NULL\<rparr>)\<rparr>))"

definition thread_free :: "nat \<Rightarrow> tsys \<Rightarrow> tsys" where
  "thread_free t s = s\<lparr>ts_threads := (ts_threads s)(t := None)\<rparr>"

definition thread_destroy :: "nat \<Rightarrow> tsys \<Rightarrow> tsys option" where
  "thread_destroy t s = do {
     kassert (Ptr t \<noteq> curthread s);
     th \<leftarrow> thr s t;
     kassert (t_vmspace th = NULL);
     kassert (t_cwd th = NULL);
     Some (thread_free t s)
   }"

text \<open>The loop of \<open>exorcise\<close>; \<open>n\<close> entries are left.\<close>

fun exorcise_loop :: "nat \<Rightarrow> nat karray \<Rightarrow> int \<Rightarrow> tsys \<Rightarrow> tsys option" where
  "exorcise_loop 0 z i s = Some s"
| "exorcise_loop (Suc n) z i s = do {
     t \<leftarrow> array_getguy z i;
     kassert (Ptr t \<noteq> curthread s);
     s' \<leftarrow> thread_destroy t s;
     exorcise_loop n z (i + 1) s'
   }"

definition exorcise :: "kmalloc_outcome \<Rightarrow> tsys \<Rightarrow> tsys option" where
  "exorcise km s = do {
     kassert (curspl s > 0);
     z \<leftarrow> deref (zombies s);
     s' \<leftarrow> exorcise_loop (nat (array_getnum z)) z 0 s;
     (result, z') \<leftarrow> array_setsize km z 0;
     kassert (result = OK);
     Some (s'\<lparr>zombies := Ptr z'\<rparr>)
   }"

definition thread_killall :: "kmalloc_outcome \<Rightarrow> tsys \<Rightarrow> tsys option" where
  "thread_killall km s = do {
     kassert (curspl s > 0);
     a \<leftarrow> deref (sleepers s);
     kassert (list_all (\<lambda>i. array_getguy a (int i) \<bind> thr s \<noteq> None) [0..<nat (array_getnum a)]);
     (result, a') \<leftarrow> array_setsize km a 0;
     kassert (result = OK);
     Some (s\<lparr>sleepers := Ptr a'\<rparr>)
   }"

definition thread_panic :: "kmalloc_outcome \<Rightarrow> tsys \<Rightarrow> tsys option" where
  "thread_panic km s = do {
     kassert (curspl s > 0);
     s' \<leftarrow> thread_killall km s;
     (_, s'') \<leftarrow> scheduler_killall s';
     Some s''
   }"

definition thread_bootstrap ::
  "kmalloc_outcome \<Rightarrow> kmalloc_outcome \<Rightarrow> fork_mem \<Rightarrow> tsys \<Rightarrow> (nat \<times> tsys) option" where
  "thread_bootstrap km1 km2 m s =
     (case array_create km1 of
        NULL \<Rightarrow> None
      | Ptr sl \<Rightarrow>
          (case array_create km2 of
             NULL \<Rightarrow> None
           | Ptr zo \<Rightarrow>
               (case thread_create m ''<boot/menu>'' (s\<lparr>sleepers := Ptr sl, zombies := Ptr zo\<rparr>) of
                  (NULL, _) \<Rightarrow> None
                | (Ptr me, s') \<Rightarrow> Some (me, s'\<lparr>curthread := Ptr me, numthreads := 1\<rparr>))))"

definition thread_shutdown :: "tsys \<Rightarrow> tsys" where
  "thread_shutdown s = s\<lparr>sleepers := NULL, zombies := NULL\<rparr>"

text \<open>
  The part of \<open>thread_fork\<close> with interrupts off: room in the three tables, then the run queue.
  Every code is returned with the state reached, so that the failure path can undo it.
\<close>

definition fork_tables :: "fork_mem \<Rightarrow> nat \<Rightarrow> tsys \<Rightarrow> (rc \<times> tsys) option" where
  "fork_tables m newguy s = do {
     sl \<leftarrow> deref (sleepers s);
     (r1, sl') \<leftarrow> array_preallocate (m_sleepers m) sl (s32 (numthreads s + 1));
     let s1 = s\<lparr>sleepers := Ptr sl'\<rparr>;
     if r1 \<noteq> OK then Some (r1, s1)
     else do {
       zo \<leftarrow> deref (zombies s1);
       (r2, zo') \<leftarrow> array_preallocate (m_zombies m) zo (s32 (numthreads s1 + 1));
       let s2 = s1\<lparr>zombies := Ptr zo'\<rparr>;
       if r2 \<noteq> OK then Some (r2, s2)
       else do {
         (r3, s3) \<leftarrow> scheduler_preallocate (m_sched m) (s32 (numthreads s2 + 1)) s2;
         if r3 \<noteq> OK then Some (r3, s3)
         else do {
           (r4, s4) \<leftarrow> make_runnable (m_run m) newguy s3;
           if r4 \<noteq> OK then Some (r4, s4)
           else Some (OK, s4\<lparr>numthreads := s32 (numthreads s4 + 1)\<rparr>)
         }
       }
     }
   }"

definition thread_fork :: "fork_mem \<Rightarrow> string \<Rightarrow> tsys \<Rightarrow> ((rc + nat) \<times> tsys) option" where
  "thread_fork m name s =
     (case thread_create m name s of
        (NULL, s1) \<Rightarrow> Some (Inl ENOMEM, s1)
      | (Ptr newguy, s1) \<Rightarrow>
          if \<not> m_stack m then Some (Inl ENOMEM, thread_free newguy s1)
          else do {
            s2 \<leftarrow> upd_thr newguy (\<lambda>th. th\<lparr>t_stack := Ptr stack_magic\<rparr>) s1;
            cur \<leftarrow> deref (curthread s2);
            cth \<leftarrow> thr s2 cur;
            s3 \<leftarrow> (case t_cwd cth of
                     NULL \<Rightarrow> Some s2
                   | Ptr vn \<Rightarrow> upd_thr newguy (\<lambda>th. th\<lparr>t_cwd := Ptr vn\<rparr>) (VOP_INCREF vn s2));
            s4 \<leftarrow> upd_thr newguy (\<lambda>th. th\<lparr>t_pcb := \<lparr>pcb_ininterrupt = 0, pcb_resume = AT_START\<rparr>\<rparr>) s3;
            let (spl, s5) = splhigh s4;
            (result, s6) \<leftarrow> fork_tables m newguy s5;
            let s7 = snd (splx spl s6);
            if result = OK then Some (Inr newguy, s7)
            else do {
              nth \<leftarrow> thr s7 newguy;
              Some (Inl result,
                thread_free newguy (case t_cwd nth of NULL \<Rightarrow> s7 | Ptr vn \<Rightarrow> VOP_DECREF vn s7))
            }
          })"

section \<open>Switching\<close>

definition check_stack :: "thread \<Rightarrow> bool" where
  "check_stack th = (case t_stack th of NULL \<Rightarrow> True | Ptr st \<Rightarrow> take 4 st = stack_magic)"

definition md_switch :: "nat \<Rightarrow> nat \<Rightarrow> tsys \<Rightarrow> tsys option" where
  "md_switch old nu s =
     (if old = nu then Some s
      else do {
        s1 \<leftarrow> upd_thr old (\<lambda>th. th\<lparr>t_pcb := (t_pcb th)\<lparr>pcb_ininterrupt := in_interrupt s\<rparr>\<rparr>) s;
        nth \<leftarrow> thr s1 nu;
        Some (s1\<lparr>in_interrupt := pcb_ininterrupt (t_pcb nth)\<rparr>)
      })"

text \<open>The switch of \<open>mi_switch\<close> on the next state of the thread that stops.\<close>

definition park :: "kmalloc_outcome \<Rightarrow> threadstate \<Rightarrow> nat \<Rightarrow> tsys \<Rightarrow> (rc \<times> tsys) option" where
  "park km nextstate cur s1 =
     (if nextstate = S_READY then make_runnable km cur s1
      else if nextstate = S_SLEEP then do {
        a \<leftarrow> deref (sleepers s1);
        (r, a') \<leftarrow> array_add km a cur;
        Some (r, s1\<lparr>sleepers := Ptr a'\<rparr>)
      }
      else do {
        kassert (nextstate = S_ZOMB);
        a \<leftarrow> deref (zombies s1);
        (r, a') \<leftarrow> array_add km a cur;
        Some (r, s1\<lparr>zombies := Ptr a'\<rparr>)
      })"

definition mi_switch_out ::
  "kmalloc_outcome \<Rightarrow> nat nullable list \<Rightarrow> threadstate \<Rightarrow> tsys \<Rightarrow> tsys option" where
  "mi_switch_out km idle nextstate s = do {
     kassert (curspl s > 0);
     case curthread s of
       NULL \<Rightarrow> Some s
     | Ptr cur \<Rightarrow> do {
         th \<leftarrow> thr s cur;
         kassert (check_stack th);
         (result, s2) \<leftarrow> park km nextstate cur (s\<lparr>curthread := NULL\<rparr>);
         kassert (result = OK);
         (next, s3) \<leftarrow> scheduler km idle s2;
         md_switch cur next (s3\<lparr>curthread := Ptr next\<rparr>)
       }
   }"

text \<open>The rest of \<open>mi_switch\<close>, run by the thread that continues.\<close>

definition mi_switch_in :: "kmalloc_outcome \<Rightarrow> tsys \<Rightarrow> tsys option" where
  "mi_switch_in km s = do {
     s' \<leftarrow> exorcise km s;
     cur \<leftarrow> deref (curthread s');
     th \<leftarrow> thr s' cur;
     Some (case t_vmspace th of NULL \<Rightarrow> s' | Ptr as \<Rightarrow> as_activate as s')
   }"

text \<open>\<open>mi_threadstart\<close> up to the call of the thread's function.\<close>

definition mi_threadstart :: "tsys \<Rightarrow> tsys option" where
  "mi_threadstart s = do {
     cur \<leftarrow> deref (curthread s);
     th \<leftarrow> thr s cur;
     let s' = (case t_vmspace th of NULL \<Rightarrow> s | Ptr as \<Rightarrow> as_activate as s);
     Some (snd (spl0 s'))
   }"

definition resume :: "kmalloc_outcome \<Rightarrow> tsys \<Rightarrow> tsys option" where
  "resume km s = do {
     cur \<leftarrow> deref (curthread s);
     th \<leftarrow> thr s cur;
     case pcb_resume (t_pcb th) of
       AT_START \<Rightarrow> mi_threadstart s
     | IN_YIELD spl \<Rightarrow> do {
         s' \<leftarrow> mi_switch_in km s;
         Some (snd (splx spl s'))
       }
     | IN_SLEEP \<Rightarrow> do {
         s' \<leftarrow> mi_switch_in km s;
         upd_thr cur (\<lambda>th. th\<lparr>t_sleepaddr := NULL\<rparr>) s'
       }
   }"

definition set_resume :: "resume_point \<Rightarrow> thread \<Rightarrow> thread" where
  "set_resume r th = th\<lparr>t_pcb := (t_pcb th)\<lparr>pcb_resume := r\<rparr>\<rparr>"

text \<open>
  \<open>thread_yield\<close>. With no current thread (a timer interrupt inside \<open>cpu_idle\<close>) \<open>mi_switch\<close> returns
  at once.
\<close>

definition thread_yield ::
  "kmalloc_outcome \<Rightarrow> nat nullable list \<Rightarrow> tsys \<Rightarrow> tsys option" where
  "thread_yield km idle s = do {
     let (spl, s1) = splhigh s;
     kassert (sleepers s1 \<noteq> NULL);
     case curthread s1 of
       NULL \<Rightarrow> do {
         s2 \<leftarrow> mi_switch_out km idle S_READY s1;
         Some (snd (splx spl s2))
       }
     | Ptr cur \<Rightarrow> do {
         s2 \<leftarrow> upd_thr cur (set_resume (IN_YIELD spl)) s1;
         s3 \<leftarrow> mi_switch_out km idle S_READY s2;
         resume km s3
       }
   }"

definition thread_sleep ::
  "kmalloc_outcome \<Rightarrow> nat nullable list \<Rightarrow> nat \<Rightarrow> tsys \<Rightarrow> tsys option" where
  "thread_sleep km idle addr s = do {
     kassert (in_interrupt s = 0);
     cur \<leftarrow> deref (curthread s);
     s1 \<leftarrow> upd_thr cur (\<lambda>th. set_resume IN_SLEEP (th\<lparr>t_sleepaddr := Ptr addr\<rparr>)) s;
     s2 \<leftarrow> mi_switch_out km idle S_SLEEP s1;
     resume km s2
   }"

definition thread_exit :: "kmalloc_outcome \<Rightarrow> nat nullable list \<Rightarrow> tsys \<Rightarrow> tsys option" where
  "thread_exit km idle s = do {
     cur \<leftarrow> deref (curthread s);
     th \<leftarrow> thr s cur;
     kassert (check_stack th);
     let s1 = snd (splhigh s);
     s2 \<leftarrow> (case t_vmspace th of
              NULL \<Rightarrow> Some s1
            | Ptr as \<Rightarrow> do { s' \<leftarrow> upd_thr cur (\<lambda>th. th\<lparr>t_vmspace := NULL\<rparr>) s1; Some (as_destroy as s') });
     s3 \<leftarrow> (case t_cwd th of
              NULL \<Rightarrow> Some s2
            | Ptr vn \<Rightarrow> upd_thr cur (\<lambda>th. th\<lparr>t_cwd := NULL\<rparr>) (VOP_DECREF vn s2));
     kassert (numthreads s3 > 0);
     s4 \<leftarrow> mi_switch_out km idle S_ZOMB (s3\<lparr>numthreads := numthreads s3 - 1\<rparr>);
     resume km s4
   }"

end
