(* ===== verification/Kthread_Inv.thy ===== *)
theory Kthread_Inv
  imports Kthread "HOL-Library.Multiset"
begin

text \<open>
  The abstract view of the thread system and its invariant. Every thread structure is in exactly one
  of four places: it is the current thread, or on the run queue, or in \<open>sleepers\<close>, or in \<open>zombies\<close>;
  \<open>numthreads\<close> counts the first three. The lemmas give each operation of \<open>Kthread\<close> as its effect on
  those lists, and \<open>threads_inv\<close> is kept by all of them.
\<close>

section \<open>The abstract view\<close>

definition guy_list :: "'a karray nullable \<Rightarrow> 'a list" where
  "guy_list p = (case p of NULL \<Rightarrow> [] | Ptr a \<Rightarrow> map the (guys a))"

definition table_ok :: "'a karray nullable \<Rightarrow> bool" where
  "table_ok p = (case p of NULL \<Rightarrow> False | Ptr a \<Rightarrow> array_inv a \<and> None \<notin> set (guys a))"

definition cur_list :: "tsys \<Rightarrow> nat list" where
  "cur_list s = (case curthread s of NULL \<Rightarrow> [] | Ptr t \<Rightarrow> [t])"

definition run_list :: "tsys \<Rightarrow> nat list" where
  "run_list s = (case runqueue s of NULL \<Rightarrow> [] | Ptr q \<Rightarrow> q_list q)"

definition run_room :: "tsys \<Rightarrow> nat" where
  "run_room s = (case runqueue s of NULL \<Rightarrow> 0 | Ptr q \<Rightarrow> q_room q)"

definition sleep_list :: "tsys \<Rightarrow> nat list" where
  "sleep_list s = guy_list (sleepers s)"

definition zombie_list :: "tsys \<Rightarrow> nat list" where
  "zombie_list s = guy_list (zombies s)"

definition sleepaddr :: "tsys \<Rightarrow> nat \<Rightarrow> nat nullable" where
  "sleepaddr s t = (case thr s t of None \<Rightarrow> NULL | Some th \<Rightarrow> t_sleepaddr th)"

definition tables_ok :: "tsys \<Rightarrow> bool" where
  "tables_ok s \<longleftrightarrow> table_ok (sleepers s) \<and> table_ok (zombies s)
     \<and> (case runqueue s of NULL \<Rightarrow> False | Ptr q \<Rightarrow> queue_inv q)"

definition live_list :: "tsys \<Rightarrow> nat list" where
  "live_list s = cur_list s @ run_list s @ sleep_list s"

definition undead :: "thread \<Rightarrow> bool" where
  "undead th \<longleftrightarrow> t_vmspace th = NULL \<and> t_cwd th = NULL"

definition threads_inv :: "tsys \<Rightarrow> bool" where
  "threads_inv s \<longleftrightarrow> tables_ok s
     \<and> distinct (live_list s @ zombie_list s)
     \<and> dom (ts_threads s) = set (live_list s @ zombie_list s)
     \<and> numthreads s = int (length (live_list s))
     \<and> (\<forall>t th. ts_threads s t = Some th \<longrightarrow> check_stack th)
     \<and> (\<forall>t \<in> set (zombie_list s). undead (the (ts_threads s t)))"

lemmas view_defs = guy_list_def cur_list_def run_list_def run_room_def sleep_list_def zombie_list_def
  live_list_def sleepaddr_def thr_def

lemma table_okE:
  assumes "table_ok p"
  obtains a where "p = Ptr a" "array_inv a" "guys a = map Some (guy_list p)"
proof (cases p)
  case NULL
  with assms show ?thesis by (simp add: table_ok_def)
next
  case (Ptr a)
  with assms have "\<forall>x \<in> set (guys a). Some (the x) = x"
    by (metis (no_types, lifting) nullable.simps(5) option.collapse table_ok_def)
  with Ptr assms that [of a] show ?thesis
    by (simp add: table_ok_def guy_list_def map_idI)
qed

lemma table_ok_Ptr: "array_inv a \<Longrightarrow> guys a = map Some xs \<Longrightarrow> table_ok (Ptr a) \<and> guy_list (Ptr a) = xs"
  by (auto simp: table_ok_def guy_list_def o_def)

lemma tables_okE:
  assumes "tables_ok s"
  obtains a z q where "sleepers s = Ptr a" "array_inv a" "guys a = map Some (sleep_list s)"
    "zombies s = Ptr z" "array_inv z" "guys z = map Some (zombie_list s)"
    "runqueue s = Ptr q" "queue_inv q" "q_list q = run_list s" "q_room q = run_room s"
proof -
  from assms obtain a where "sleepers s = Ptr a" "array_inv a" "guys a = map Some (sleep_list s)"
    unfolding tables_ok_def sleep_list_def using table_okE by blast
  moreover from assms obtain z where "zombies s = Ptr z" "array_inv z" "guys z = map Some (zombie_list s)"
    unfolding tables_ok_def zombie_list_def using table_okE by blast
  moreover from assms obtain q where "runqueue s = Ptr q" "queue_inv q"
    by (auto simp: tables_ok_def split: nullable.splits)
  ultimately show ?thesis
    using that [of a z q] by (simp add: run_list_def run_room_def)
qed

section \<open>The scheduler's operations on the view\<close>

text \<open>
  A step that only moves threads between \<open>sleepers\<close> and the run queue: the new state is the old one
  with the two tables replaced, and they hold the given lists.
\<close>

definition others_same :: "tsys \<Rightarrow> tsys \<Rightarrow> bool" where
  "others_same s s' \<longleftrightarrow> ts_threads s' = ts_threads s \<and> curthread s' = curthread s
     \<and> zombies s' = zombies s \<and> numthreads s' = numthreads s \<and> curspl s' = curspl s
     \<and> in_interrupt s' = in_interrupt s \<and> vn_refs s' = vn_refs s \<and> as_active s' = as_active s
     \<and> as_freed s' = as_freed s"

definition moved :: "tsys \<Rightarrow> nat list \<Rightarrow> nat list \<Rightarrow> tsys \<Rightarrow> bool" where
  "moved s sl rl s' \<longleftrightarrow> others_same s s' \<and> tables_ok s' \<and> sleep_list s' = sl \<and> run_list s' = rl
     \<and> run_room s \<le> run_room s'"

lemma moved_frame:
  assumes "moved s sl rl s'"
  shows "curspl s' = curspl s" "ts_threads s' = ts_threads s" "curthread s' = curthread s"
    "zombies s' = zombies s" "numthreads s' = numthreads s" "in_interrupt s' = in_interrupt s"
    "tables_ok s'" "sleep_list s' = sl" "run_list s' = rl" "sleepaddr s' = sleepaddr s"
    "cur_list s' = cur_list s" "zombie_list s' = zombie_list s" "thr s' = thr s" "run_room s \<le> run_room s'"
  using assms by (auto simp: moved_def others_same_def cur_list_def zombie_list_def sleepaddr_def thr_def)

lemma moved_refl: "tables_ok s \<Longrightarrow> moved s (sleep_list s) (run_list s) s"
  by (simp add: moved_def others_same_def)

lemma moved_trans: "moved s sl rl s' \<Longrightarrow> moved s' sl' rl' s'' \<Longrightarrow> moved s sl' rl' s''"
  by (auto simp: moved_def others_same_def)

lemma make_runnable_cases:
  assumes "tables_ok s" and "curspl s > 0" and "length (run_list s) < 268435455"
  obtains (ok) s' where "make_runnable km t s = Some (OK, s')" "moved s (sleep_list s) (run_list s @ [t]) s'"
    | (nomem) n where "make_runnable km t s = Some (ENOMEM, s)" "length (run_list s) = run_room s" "\<not> km n"
proof -
  from assms(1) obtain q where q: "runqueue s = Ptr q" "queue_inv q" "q_list q = run_list s"
      "q_room q = run_room s"
    by (rule tables_okE)
  from q assms(3) have "length (q_list q) < 268435455" by simp
  from q(2) this show ?thesis
  proof (cases rule: kq.addtail_cases [of q km t, case_names ok nomem])
    case (ok q')
    let ?s = "s\<lparr>runqueue := Ptr q'\<rparr>"
    have "make_runnable km t s = Some (OK, ?s)"
      using ok q assms by (simp add: make_runnable_def)
    moreover have "moved s (sleep_list s) (run_list s @ [t]) ?s"
      using ok(2-4) q(1,2) assms(1)
      by (simp add: moved_def others_same_def tables_ok_def sleep_list_def run_list_def run_room_def)
    ultimately show ?thesis by (rule that(1))
  next
    case (nomem n)
    then have "make_runnable km t s = Some (ENOMEM, s)"
      using q assms by (auto simp: make_runnable_def)
    then show ?thesis using that(2) nomem q by simp
  qed
qed

lemma sleeper_at:
  assumes "tables_ok s" and "sleepers s = Ptr a"
  shows "a_num a = int (length (sleep_list s))"
    and "i < length (sleep_list s) \<Longrightarrow> array_getguy a (int i) = Some (sleep_list s ! i)"
    and "\<not> i < length (sleep_list s) \<Longrightarrow> array_getguy a (int i) = None"
proof -
  from assms have a: "array_inv a" "guys a = map Some (sleep_list s)"
    by (auto elim: tables_okE)
  with length_guys [of a] show "a_num a = int (length (sleep_list s))"
    by (simp add: array_inv_def)
  show "i < length (sleep_list s) \<Longrightarrow> array_getguy a (int i) = Some (sleep_list s ! i)"
    using karr.getguy_nth [of a i] a by simp
  show "\<not> i < length (sleep_list s) \<Longrightarrow> array_getguy a (int i) = None"
    using karr.getguy_out [of a "int i"] a by simp
qed

lemma sleeper_remove:
  assumes "tables_ok s" and "sleepers s = Ptr a" and "sleep_list s = xs @ t # ys"
  obtains a' where "array_remove a (int (length xs)) = Some a'"
    "moved s (xs @ ys) (run_list s) (s\<lparr>sleepers := Ptr a'\<rparr>)"
proof -
  from assms have a: "array_inv a" "guys a = map Some (xs @ t # ys)"
    by (auto elim: tables_okE)
  with karr.remove_at [of a "length xs"] obtain a' where a':
      "array_remove a (int (length xs)) = Some a'" "array_inv a'"
      "guys a' = remove_nth (length xs) (guys a)"
    by auto
  then have "guys a' = map Some (xs @ ys)"
    using a remove_nth_append [of "map Some xs" "Some t" "map Some ys"] by simp
  with a'(2) have "table_ok (Ptr a')" "guy_list (Ptr a') = xs @ ys"
    using table_ok_Ptr by blast+
  then have "moved s (xs @ ys) (run_list s) (s\<lparr>sleepers := Ptr a'\<rparr>)"
    using assms(1)
    by (simp add: moved_def others_same_def tables_ok_def sleep_list_def run_list_def run_room_def)
  with a'(1) show ?thesis by (rule that)
qed

text \<open>
  The loop of \<open>thread_wakeup\<close> moves the sleepers on the address that are left, in order, to the
  end of the run queue. It stops the kernel only when the run queue is too small for them and
  memory ran out.
\<close>

definition wakes :: "tsys \<Rightarrow> nat \<Rightarrow> nat list \<Rightarrow> nat list" where
  "wakes s addr ts = filter (\<lambda>t. sleepaddr s t = Ptr addr) ts"

definition stays :: "tsys \<Rightarrow> nat \<Rightarrow> nat list \<Rightarrow> nat list" where
  "stays s addr ts = filter (\<lambda>t. sleepaddr s t \<noteq> Ptr addr) ts"

lemma wakes_cong: "sleepaddr s' = sleepaddr s \<Longrightarrow> wakes s' = wakes s"
  and stays_cong: "sleepaddr s' = sleepaddr s \<Longrightarrow> stays s' = stays s"
  by (simp_all add: wakes_def stays_def fun_eq_iff)

lemma wakeup_loop_spec:
  assumes "tables_ok s" and "curspl s > 0" and "sleep_list s = xs @ ys"
    and "\<forall>t \<in> set ys. thr s t \<noteq> None" and "length ys < fuel"
    and "length (run_list s) + length ys < 268435455"
  shows "(\<exists>s'. wakeup_loop fuel km addr (int (length xs)) s = Some s'
            \<and> moved s (xs @ stays s addr ys) (run_list s @ wakes s addr ys) s')
       \<or> (wakeup_loop fuel km addr (int (length xs)) s = None
            \<and> run_room s < length (run_list s) + length (wakes s addr ys) \<and> (\<exists>n. \<not> km n))"
  using assms
proof (induction ys arbitrary: s xs fuel)
  case Nil
  then obtain a f where a: "sleepers s = Ptr a" "fuel = Suc f"
    by (metis less_nat_zero_code list.size(3) not0_implies_Suc tables_okE)
  have n: "a_num a = int (length xs)"
    using sleeper_at(1) [OF Nil.prems(1) a(1)] Nil.prems(3) by simp
  from moved_refl [OF Nil.prems(1)] Nil.prems(3) have "moved s xs (run_list s) s" by simp
  with a n show ?case by (simp add: array_getnum_def wakes_def stays_def)
next
  case (Cons t ys)
  then obtain a f where a: "sleepers s = Ptr a" "fuel = Suc f"
    by (metis length_Cons less_nat_zero_code not0_implies_Suc tables_okE)
  from Cons.prems(4) obtain th where th: "thr s t = Some th" by auto
  have addr: "sleepaddr s t = t_sleepaddr th" using th by (simp add: sleepaddr_def)
  have n: "a_num a = int (length (xs @ t # ys))" "array_getguy a (int (length xs)) = Some t"
    using sleeper_at(1,2) [OF Cons.prems(1) a(1)] Cons.prems(3) by auto
  show ?case
  proof (cases "t_sleepaddr th = Ptr addr")
    case False
    have loop: "wakeup_loop fuel km addr (int (length xs)) s = wakeup_loop f km addr (int (length (xs @ [t]))) s"
      using a n th False by (simp add: array_getnum_def add.commute)
    have "wakes s addr (t # ys) = wakes s addr ys" "stays s addr (t # ys) = t # stays s addr ys"
      using addr False by (simp_all add: wakes_def stays_def)
    then show ?thesis
      unfolding loop using Cons.IH [of s "xs @ [t]" f] Cons.prems a(2) by auto
  next
    case True
    obtain a' where a': "array_remove a (int (length xs)) = Some a'"
        "moved s (xs @ ys) (run_list s) (s\<lparr>sleepers := Ptr a'\<rparr>)"
      by (rule sleeper_remove [OF Cons.prems(1) a(1) Cons.prems(3)])
    let ?s1 = "s\<lparr>sleepers := Ptr a'\<rparr>"
    note f1 = moved_frame [OF a'(2)]
    have w: "wakes s addr (t # ys) = t # wakes s addr ys" "stays s addr (t # ys) = stays s addr ys"
      using addr True by (simp_all add: wakes_def stays_def)
    have prem: "curspl ?s1 > 0" "length (run_list ?s1) < 268435455"
      using Cons.prems(2,6) f1 by simp_all
    from f1(7) prem show ?thesis
    proof (cases rule: make_runnable_cases [of ?s1 km t, case_names ok nomem])
      case (ok s2)
      note f2 = moved_frame [OF ok(2)]
      have loop: "wakeup_loop fuel km addr (int (length xs)) s = wakeup_loop f km addr (int (length xs)) s2"
        using a n th True a'(1) ok(1) by (simp add: array_getnum_def)
      have "sleepaddr s2 = sleepaddr s" using f1 f2 by simp
      note same = wakes_cong [OF this] stays_cong [OF this]
      have "length (run_list s2) + length ys < 268435455" using f1 f2 Cons.prems(6) by simp
      then have "(\<exists>s'. wakeup_loop f km addr (int (length xs)) s2 = Some s'
            \<and> moved s2 (xs @ stays s addr ys) (run_list s2 @ wakes s addr ys) s')
       \<or> (wakeup_loop f km addr (int (length xs)) s2 = None
            \<and> run_room s2 < length (run_list s2) + length (wakes s addr ys) \<and> (\<exists>n. \<not> km n))"
        using Cons.IH [of s2 xs f] Cons.prems a(2) f1 f2 same by simp
      then show ?thesis
        unfolding loop w using moved_trans [OF moved_trans [OF a'(2) ok(2)]] f1 f2 by auto
    next
      case (nomem k)
      have "wakeup_loop fuel km addr (int (length xs)) s = None"
        using a n th True a'(1) nomem(1) by (simp add: array_getnum_def)
      moreover have "run_room s < length (run_list s) + length (wakes s addr (t # ys))"
        using nomem(2) f1 w by simp
      ultimately show ?thesis using nomem(3) by blast
    qed
  qed
qed

text \<open>
  \<open>thread_wakeup\<close>, and what \<open>thread_hassleepers\<close> answers.
\<close>

definition threads_known :: "tsys \<Rightarrow> bool" where
  "threads_known s \<longleftrightarrow> (\<forall>t \<in> set (live_list s @ zombie_list s). thr s t \<noteq> None)"

lemma threads_inv_known: "threads_inv s \<Longrightarrow> threads_known s"
  by (auto simp: threads_inv_def threads_known_def thr_def)

lemma thread_wakeup_spec:
  assumes "tables_ok s" and "curspl s > 0" and "\<forall>t \<in> set (sleep_list s). thr s t \<noteq> None"
    and "length (run_list s) + length (sleep_list s) < 268435455"
  shows "(\<exists>s'. thread_wakeup km addr s = Some s'
            \<and> moved s (stays s addr (sleep_list s)) (run_list s @ wakes s addr (sleep_list s)) s')
       \<or> (thread_wakeup km addr s = None
            \<and> run_room s < length (run_list s) + length (wakes s addr (sleep_list s)) \<and> (\<exists>n. \<not> km n))"
proof -
  from assms(1) obtain a where a: "sleepers s = Ptr a" by (auto elim: tables_okE)
  have "nat (a_num a) = length (sleep_list s)"
    using sleeper_at(1) [OF assms(1) a] by simp
  then have "thread_wakeup km addr s = wakeup_loop (Suc (length (sleep_list s))) km addr (int (length [])) s"
    using assms(2) a by (simp add: thread_wakeup_def array_getnum_def del: wakeup_loop.simps)
  with wakeup_loop_spec [of s "[]" "sleep_list s" "Suc (length (sleep_list s))" km addr] assms
  show ?thesis by (simp del: wakeup_loop.simps)
qed

lemma thread_wakeup_moved:
  assumes "tables_ok s" and "threads_known s" and "thread_wakeup km addr s = Some s'"
    and "length (run_list s) + length (sleep_list s) < 268435455"
  shows "moved s (stays s addr (sleep_list s)) (run_list s @ wakes s addr (sleep_list s)) s'"
proof -
  from assms(3) have "curspl s > 0" by (simp add: thread_wakeup_def panic_simps)
  with thread_wakeup_spec [OF assms(1) this, of km addr] assms(2-4) show ?thesis
    by (simp add: threads_known_def live_list_def)
qed

lemma hassleepers_loop_spec:
  assumes "tables_ok s" and "sleepers s = Ptr a" and "\<forall>t \<in> set (sleep_list s). thr s t \<noteq> None"
    and "i + n = length (sleep_list s)"
  shows "hassleepers_loop n addr a (int i) s
     = Some (\<exists>t \<in> set (drop i (sleep_list s)). sleepaddr s t = Ptr addr)"
  using assms(4)
proof (induction n arbitrary: i)
  case 0
  then show ?case by simp
next
  case (Suc n)
  then have i: "i < length (sleep_list s)" by simp
  then have "sleep_list s ! i \<in> set (sleep_list s)" by simp
  with assms(3) obtain th where th: "thr s (sleep_list s ! i) = Some th" by blast
  have "drop i (sleep_list s) = sleep_list s ! i # drop (Suc i) (sleep_list s)"
    using i by (simp add: Cons_nth_drop_Suc)
  moreover have "hassleepers_loop n addr a (int i + 1) s
     = Some (\<exists>t \<in> set (drop (Suc i) (sleep_list s)). sleepaddr s t = Ptr addr)"
    using Suc.IH [of "Suc i"] Suc.prems by (simp add: add.commute)
  ultimately show ?case
    using sleeper_at(2) [OF assms(1,2) i] th by (auto simp: sleepaddr_def)
qed

lemma thread_hassleepers_spec:
  assumes "tables_ok s" and "curspl s > 0" and "\<forall>t \<in> set (sleep_list s). thr s t \<noteq> None"
  shows "thread_hassleepers addr s = Some (wakes s addr (sleep_list s) \<noteq> [])"
proof -
  from assms(1) obtain a where a: "sleepers s = Ptr a" by (auto elim: tables_okE)
  with sleeper_at(1) [OF assms(1) a] hassleepers_loop_spec [OF assms(1) a assms(3), of 0 "length (sleep_list s)" addr]
    assms(2) show ?thesis
    by (simp add: thread_hassleepers_def array_getnum_def wakes_def filter_empty_conv)
qed

section \<open>Picking the next thread\<close>

lemma scheduler_run:
  assumes "tables_ok s" and "curspl s > 0" and "run_list s = n # rs"
  obtains s' where "scheduler km idle s = Some (n, s')" "moved s (sleep_list s) rs s'"
proof -
  from assms(1) obtain q where q: "runqueue s = Ptr q" "queue_inv q" "q_list q = run_list s"
    by (rule tables_okE)
  with kq.remhead_Cons [of q n rs] assms(3) obtain q' where q': "q_remhead q = Some (n, q')"
      "queue_inv q'" "q_list q' = rs" "q_room q' = q_room q"
    by auto
  let ?s = "s\<lparr>runqueue := Ptr q'\<rparr>"
  have "\<not> q_empty q" using q assms(3) by (simp add: q_empty_iff)
  then have "scheduler km idle s = Some (n, ?s)"
    using q(1) q'(1) assms(2) by (subst scheduler.simps) simp
  moreover have "moved s (sleep_list s) rs ?s"
    using q'(2-4) q(1,2) assms(1)
    by (simp add: moved_def others_same_def tables_ok_def sleep_list_def run_list_def run_room_def)
  ultimately show ?thesis by (rule that)
qed

text \<open>
  Whatever interrupts come in while the processor idles, the thread picked and what is left in the
  two tables are the threads that were there.
\<close>

lemma scheduler_spec:
  assumes "tables_ok s" and "curspl s > 0" and "\<forall>t \<in> set (sleep_list s). thr s t \<noteq> None"
    and "length (run_list s) + length (sleep_list s) < 268435455"
    and "scheduler km idle s = Some (n, s')"
  shows "\<exists>sl rl. moved s sl rl s' \<and> mset (n # rl @ sl) = mset (run_list s @ sleep_list s)
    \<and> set sl \<subseteq> set (sleep_list s)"
  using assms
proof (induction idle arbitrary: s)
  case Nil
  from Nil.prems(1) obtain q where q: "runqueue s = Ptr q" "queue_inv q" "q_list q = run_list s"
    by (rule tables_okE)
  have "run_list s \<noteq> []"
    using Nil.prems(2,5) q by (subst (asm) scheduler.simps) (auto simp: panic_simps q_empty_iff split: if_splits)
  then obtain m rs where rs: "run_list s = m # rs" by (cases "run_list s") auto
  obtain t where "scheduler km [] s = Some (m, t)" "moved s (sleep_list s) rs t"
    by (rule scheduler_run [OF Nil.prems(1,2) rs])
  with Nil.prems(5) rs show ?case by auto
next
  case (Cons irq idle)
  from Cons.prems(1) obtain q where q: "runqueue s = Ptr q" "queue_inv q" "q_list q = run_list s"
    by (rule tables_okE)
  show ?case
  proof (cases "run_list s")
    case (Cons m rs)
    obtain t where "scheduler km (irq # idle) s = Some (m, t)" "moved s (sleep_list s) rs t"
      by (rule scheduler_run [OF Cons.prems(1,2) Cons])
    with Cons.prems(5) Cons show ?thesis by auto
  next
    case Nil
    then have "q_empty q" using q by (simp add: q_empty_iff)
    then obtain s1 where s1: "(case irq of NULL \<Rightarrow> Some s | Ptr addr \<Rightarrow> thread_wakeup km addr s) = Some s1"
        "scheduler km idle s1 = Some (n, s')"
      using Cons.prems(2,5) q(1) by (subst (asm) scheduler.simps) (auto simp: panic_simps)
    have "\<exists>sl rl. moved s sl rl s1 \<and> mset (rl @ sl) = mset (run_list s @ sleep_list s)
        \<and> set sl \<subseteq> set (sleep_list s)"
    proof (cases irq)
      case NULL
      with s1(1) moved_refl [OF Cons.prems(1)] show ?thesis by auto
    next
      case (Ptr addr)
      with s1(1) thread_wakeup_spec [OF Cons.prems(1-4), of km addr]
      have "moved s (stays s addr (sleep_list s)) (run_list s @ wakes s addr (sleep_list s)) s1" by simp
      moreover have "mset (wakes s addr (sleep_list s) @ stays s addr (sleep_list s)) = mset (sleep_list s)"
        by (simp add: wakes_def stays_def)
      moreover have "set (stays s addr (sleep_list s)) \<subseteq> set (sleep_list s)" by (auto simp: stays_def)
      ultimately show ?thesis by force
    qed
    then obtain sl rl where m: "moved s sl rl s1" "mset (rl @ sl) = mset (run_list s @ sleep_list s)"
        "set sl \<subseteq> set (sleep_list s)"
      by auto
    note f = moved_frame [OF m(1)]
    have "length rl + length sl = length (run_list s) + length (sleep_list s)"
      using mset_eq_length [OF m(2)] by simp
    moreover from m(3) have "\<forall>t \<in> set (sleep_list s1). thr s1 t \<noteq> None"
      using Cons.prems(3) f(8,13) by auto
    ultimately have "\<exists>sl' rl'. moved s1 sl' rl' s' \<and> mset (n # rl' @ sl') = mset (run_list s1 @ sleep_list s1)
        \<and> set sl' \<subseteq> set (sleep_list s1)"
      using Cons.IH [of s1] Cons.prems(2,4) s1(2) f by simp
    then obtain sl' rl' where m': "moved s1 sl' rl' s'" "mset (n # rl' @ sl') = mset (run_list s1 @ sleep_list s1)"
        "set sl' \<subseteq> set (sleep_list s1)"
      by auto
    have "mset (n # rl' @ sl') = mset (run_list s @ sleep_list s)" "set sl' \<subseteq> set (sleep_list s)"
      using m m' f by auto
    with moved_trans [OF m(1) m'(1)] show ?thesis by blast
  qed
qed

section \<open>The invariant\<close>

text \<open>The invariant with \<open>k\<close> threads already taken off the count, as in the middle of \<open>thread_exit\<close>.\<close>

definition threads_but :: "int \<Rightarrow> tsys \<Rightarrow> bool" where
  "threads_but k s \<longleftrightarrow> tables_ok s
     \<and> distinct (live_list s @ zombie_list s)
     \<and> dom (ts_threads s) = set (live_list s @ zombie_list s)
     \<and> numthreads s + k = int (length (live_list s))
     \<and> (\<forall>t th. ts_threads s t = Some th \<longrightarrow> check_stack th)
     \<and> (\<forall>t \<in> set (zombie_list s). undead (the (ts_threads s t)))"

lemma threads_inv_but: "threads_inv s \<longleftrightarrow> threads_but 0 s"
  by (simp add: threads_inv_def threads_but_def)

definition few_threads :: "tsys \<Rightarrow> bool" where
  "few_threads s \<longleftrightarrow> card (dom (ts_threads s)) < 268435454"

lemma few_threads_lists:
  assumes "threads_but k s" and "few_threads s"
  shows "length (cur_list s) + length (run_list s) + length (sleep_list s) + length (zombie_list s) < 268435454"
proof -
  have "card (dom (ts_threads s)) = length (live_list s @ zombie_list s)"
    using assms(1) distinct_card unfolding threads_but_def by metis
  with assms(2) show ?thesis by (simp add: few_threads_def live_list_def)
qed

lemma threads_butD:
  assumes "threads_but k s"
  shows "tables_ok s" "\<forall>t \<in> set (sleep_list s). thr s t \<noteq> None" "\<forall>t \<in> set (zombie_list s). thr s t \<noteq> None"
    "\<forall>t \<in> set (cur_list s). thr s t \<noteq> None" "\<forall>t \<in> set (run_list s). thr s t \<noteq> None"
proof -
  have d: "dom (ts_threads s) = set (live_list s @ zombie_list s)"
    using assms by (simp add: threads_but_def)
  have *: "t \<in> set (live_list s @ zombie_list s) \<Longrightarrow> thr s t \<noteq> None" for t
    using d by (auto simp: thr_def)
  show "tables_ok s" using assms by (simp add: threads_but_def)
  show "\<forall>t \<in> set (sleep_list s). thr s t \<noteq> None" "\<forall>t \<in> set (zombie_list s). thr s t \<noteq> None"
    "\<forall>t \<in> set (cur_list s). thr s t \<noteq> None" "\<forall>t \<in> set (run_list s). thr s t \<noteq> None"
    using * by (auto simp: live_list_def)
qed

text \<open>Moving threads between the places keeps the invariant: the same threads, each once.\<close>

lemma threads_but_perm:
  assumes "threads_but k s" and "tables_ok s'" and "ts_threads s' = ts_threads s"
    and "mset (live_list s' @ zombie_list s') = mset (live_list s @ zombie_list s)"
    and "numthreads s' + k' = int (length (live_list s'))"
    and "\<forall>t \<in> set (zombie_list s'). undead (the (ts_threads s t))"
  shows "threads_but k' s'"
  unfolding threads_but_def
  using assms mset_eq_setD [OF assms(4)] mset_eq_imp_distinct_iff [OF assms(4)]
  by (simp add: threads_but_def)

lemma threads_but_moved:
  assumes "threads_but k s" and "moved s sl rl s'"
    and "mset (rl @ sl) = mset (run_list s @ sleep_list s)"
  shows "threads_but k s'"
proof (rule threads_but_perm [OF assms(1)])
  note f = moved_frame [OF assms(2)]
  have l: "length rl + length sl = length (run_list s) + length (sleep_list s)"
    using mset_eq_length [OF assms(3)] by simp
  show "tables_ok s'" "ts_threads s' = ts_threads s" by (rule f)+
  show "mset (live_list s' @ zombie_list s') = mset (live_list s @ zombie_list s)"
    using f assms(3) by (simp add: live_list_def)
  show "numthreads s' + k = int (length (live_list s'))"
    using f assms(1) l by (simp add: live_list_def threads_but_def)
  show "\<forall>t \<in> set (zombie_list s'). undead (the (ts_threads s t))"
    using f assms(1) by (simp add: threads_but_def)
qed

text \<open>A write to one thread structure that keeps its stack and does not revive it.\<close>

definition same_body :: "(thread \<Rightarrow> thread) \<Rightarrow> bool" where
  "same_body f \<longleftrightarrow> (\<forall>th. (check_stack th \<longrightarrow> check_stack (f th)) \<and> (undead th \<longrightarrow> undead (f th)))"

lemma upd_thr_frame:
  assumes "upd_thr t f s = Some s'"
  shows "curthread s' = curthread s" "sleepers s' = sleepers s" "zombies s' = zombies s"
    "runqueue s' = runqueue s" "numthreads s' = numthreads s" "curspl s' = curspl s"
    "in_interrupt s' = in_interrupt s" "vn_refs s' = vn_refs s"
    "cur_list s' = cur_list s" "run_list s' = run_list s" "sleep_list s' = sleep_list s"
    "zombie_list s' = zombie_list s" "live_list s' = live_list s" "tables_ok s' = tables_ok s"
    "run_room s' = run_room s"
    "dom (ts_threads s') = dom (ts_threads s)"
    "ts_threads s' = (ts_threads s)(t \<mapsto> f (the (ts_threads s t)))" "t \<in> dom (ts_threads s)"
proof -
  from assms obtain th where th: "ts_threads s t = Some th"
      "s' = s\<lparr>ts_threads := (ts_threads s)(t \<mapsto> f th)\<rparr>"
    by (auto simp: upd_thr_def thr_def panic_simps)
  then show "curthread s' = curthread s" "sleepers s' = sleepers s" "zombies s' = zombies s"
    "runqueue s' = runqueue s" "numthreads s' = numthreads s" "curspl s' = curspl s"
    "in_interrupt s' = in_interrupt s" "vn_refs s' = vn_refs s"
    "cur_list s' = cur_list s" "run_list s' = run_list s" "sleep_list s' = sleep_list s"
    "zombie_list s' = zombie_list s" "live_list s' = live_list s" "tables_ok s' = tables_ok s"
    "run_room s' = run_room s" "t \<in> dom (ts_threads s)"
    "ts_threads s' = (ts_threads s)(t \<mapsto> f (the (ts_threads s t)))"
    by (simp_all add: cur_list_def run_list_def sleep_list_def zombie_list_def live_list_def
        tables_ok_def run_room_def domI)
  from th show "dom (ts_threads s') = dom (ts_threads s)" by auto
qed

lemma upd_thr_but:
  assumes "threads_but k s" and "upd_thr t f s = Some s'" and "same_body f"
  shows "threads_but k s'"
proof -
  note f = upd_thr_frame [OF assms(2)]
  have "check_stack (the (ts_threads s t))"
    using domD [OF f(18)] assms(1) unfolding threads_but_def by force
  then have "check_stack th" if "ts_threads s' u = Some th" for u th
    using that f(17) assms(1,3) by (auto simp: threads_but_def same_body_def split: if_splits)
  moreover have "undead (the (ts_threads s' u))" if "u \<in> set (zombie_list s)" for u
    using that f(17) assms(1,3) by (auto simp: threads_but_def same_body_def)
  ultimately show ?thesis
    using assms(1) f(5,12,13,14,16) by (simp add: threads_but_def)
qed

lemma few_threads_dom: "dom (ts_threads s') = dom (ts_threads s) \<Longrightarrow> few_threads s' = few_threads s"
  by (simp add: few_threads_def)

section \<open>Switching\<close>

lemma check_stack_fields: "t_stack th' = t_stack th \<Longrightarrow> check_stack th' = check_stack th"
  by (simp add: check_stack_def)

lemma same_bodyI:
  "(\<And>th. t_stack (f th) = t_stack th) \<Longrightarrow> (\<And>th. undead th \<Longrightarrow> undead (f th)) \<Longrightarrow> same_body f"
  by (simp add: same_body_def check_stack_def)

lemma same_body_fields [simp]:
  "same_body (set_resume r)"
  "same_body (\<lambda>th. set_resume r (th\<lparr>t_sleepaddr := x\<rparr>))"
  "same_body (\<lambda>th. th\<lparr>t_sleepaddr := x\<rparr>)"
  "same_body (\<lambda>th. th\<lparr>t_pcb := p th\<rparr>)"
  "same_body (\<lambda>th. th\<lparr>t_vmspace := NULL\<rparr>)"
  "same_body (\<lambda>th. th\<lparr>t_cwd := NULL\<rparr>)"
  by (auto intro!: same_bodyI simp: set_resume_def undead_def)

text \<open>The sleepers with the addresses they sleep on.\<close>

definition asleep :: "tsys \<Rightarrow> (nat \<times> nat nullable) set" where
  "asleep s = {(t, sleepaddr s t) | t. t \<in> set (sleep_list s)}"

lemma asleep_mono:
  "sleepaddr s' = sleepaddr s \<Longrightarrow> set (sleep_list s') \<subseteq> set (sleep_list s) \<Longrightarrow> asleep s' \<subseteq> asleep s"
  by (auto simp: asleep_def)

lemma sleepaddr_upd_thr:
  "upd_thr t f s = Some s' \<Longrightarrow> sleepaddr s' = (sleepaddr s)(t := t_sleepaddr (f (the (ts_threads s t))))"
  by (auto simp: upd_thr_def thr_def panic_simps sleepaddr_def fun_eq_iff)

lemma sleepaddr_upd_same:
  "upd_thr t f s = Some s' \<Longrightarrow> (\<And>th. t_sleepaddr (f th) = t_sleepaddr th) \<Longrightarrow> sleepaddr s' = sleepaddr s"
  by (auto simp: upd_thr_def thr_def panic_simps sleepaddr_def fun_eq_iff)

text \<open>What a switch keeps, whoever is chosen.\<close>

lemma md_switch_but:
  assumes "threads_but k s" and "md_switch old nu s = Some s'"
  shows "threads_but k s'" "curthread s' = curthread s" "curspl s' = curspl s"
    "run_list s' = run_list s" "sleep_list s' = sleep_list s" "zombie_list s' = zombie_list s"
    "dom (ts_threads s') = dom (ts_threads s)" "sleepaddr s' = sleepaddr s"
proof -
  have "threads_but k s' \<and> curthread s' = curthread s \<and> curspl s' = curspl s
    \<and> run_list s' = run_list s \<and> sleep_list s' = sleep_list s \<and> zombie_list s' = zombie_list s
    \<and> dom (ts_threads s') = dom (ts_threads s) \<and> sleepaddr s' = sleepaddr s"
  proof (cases "old = nu")
    case True
    with assms show ?thesis by (simp add: md_switch_def)
  next
    case False
    then obtain s1 where s1: "upd_thr old (\<lambda>th. th\<lparr>t_pcb := (t_pcb th)\<lparr>pcb_ininterrupt := in_interrupt s\<rparr>\<rparr>) s = Some s1"
        "\<exists>i. s' = s1\<lparr>in_interrupt := i\<rparr>"
      using assms(2) by (auto simp: md_switch_def panic_simps)
    from s1(2) obtain i where i: "s' = s1\<lparr>in_interrupt := i\<rparr>" by blast
    have "threads_but k s1" by (rule upd_thr_but [OF assms(1) s1(1)]) simp
    moreover have "threads_but k s' = threads_but k s1" "run_list s' = run_list s1" "sleep_list s' = sleep_list s1"
        "zombie_list s' = zombie_list s1" "sleepaddr s' = sleepaddr s1"
      using i by (simp_all add: threads_but_def tables_ok_def live_list_def cur_list_def
          run_list_def sleep_list_def zombie_list_def sleepaddr_def thr_def fun_eq_iff)
    ultimately show ?thesis using i upd_thr_frame [OF s1(1)] sleepaddr_upd_same [OF s1(1)] by simp
  qed
  then show "threads_but k s'" "curthread s' = curthread s" "curspl s' = curspl s"
    "run_list s' = run_list s" "sleep_list s' = sleep_list s" "zombie_list s' = zombie_list s"
    "dom (ts_threads s') = dom (ts_threads s)" "sleepaddr s' = sleepaddr s" by auto
qed

text \<open>
  The first half of \<open>mi_switch\<close> as an effect on the view: the current thread goes to the end of the
  table its next state names.
\<close>

definition parked :: "threadstate \<Rightarrow> nat \<Rightarrow> tsys \<Rightarrow> tsys \<Rightarrow> bool" where
  "parked st cur s s' \<longleftrightarrow> tables_ok s' \<and> curthread s' = NULL \<and> ts_threads s' = ts_threads s
     \<and> numthreads s' = numthreads s \<and> curspl s' = curspl s
     \<and> run_list s' = run_list s @ (if st = S_READY then [cur] else [])
     \<and> sleep_list s' = sleep_list s @ (if st = S_SLEEP then [cur] else [])
     \<and> zombie_list s' = zombie_list s @ (if st = S_ZOMB then [cur] else [])"

lemma add_guy_cases:
  assumes "table_ok p" and "length (guy_list p) < 536870910"
  obtains (ok) a a' where "p = Ptr a" "array_add km a x = Some (OK, a')" "table_ok (Ptr a')"
      "guy_list (Ptr a') = guy_list p @ [x]"
    | (nomem) a n where "p = Ptr a" "array_add km a x = Some (ENOMEM, a)" "\<not> km n"
proof -
  from assms(1) obtain a where a: "p = Ptr a" "array_inv a" "guys a = map Some (guy_list p)"
    by (rule table_okE)
  with assms(2) have "length (guys a) < 536870910" by simp
  with a(2) show ?thesis
  proof (cases rule: karr.add_cases [of a km x, case_names ok nomem])
    case (ok a')
    with a(3) have "guys a' = map Some (guy_list p @ [x])" by simp
    with ok(2) table_ok_Ptr that(1) [OF a(1) ok(1)] show ?thesis by blast
  next
    case (nomem n)
    with that(2) [OF a(1)] show ?thesis by blast
  qed
qed

lemma park_cases:
  assumes "tables_ok s" and "curspl s > 0" and "curthread s = NULL" and "st \<noteq> S_RUN"
    and "length (run_list s) + length (sleep_list s) + length (zombie_list s) < 268435454"
  obtains (ok) s' where "park km st cur s = Some (OK, s')" "parked st cur s s'"
    | (nomem) s' n where "park km st cur s = Some (ENOMEM, s')" "\<not> km n"
proof (cases st)
  case S_READY
  have "length (run_list s) < 268435455" using assms(5) by simp
  with assms(1,2) show ?thesis
  proof (cases rule: make_runnable_cases [of s km cur, case_names ok nomem])
    case (ok s')
    note f = moved_frame [OF ok(2)]
    show ?thesis
      by (rule that(1) [of s']) (use S_READY ok f assms(3) in \<open>simp_all add: park_def parked_def\<close>)
  next
    case (nomem n)
    then show ?thesis using that(2) [of s n] S_READY by (simp add: park_def)
  qed
next
  case S_SLEEP
  have t: "table_ok (sleepers s)" "length (guy_list (sleepers s)) < 536870910"
    using assms(1,5) by (simp_all add: tables_ok_def sleep_list_def)
  then show ?thesis
  proof (cases rule: add_guy_cases [of "sleepers s" km cur, case_names ok nomem])
    case (ok a a')
    show ?thesis
      by (rule that(1) [of "s\<lparr>sleepers := Ptr a'\<rparr>"])
        (use S_SLEEP ok assms(1,3) in \<open>simp_all add: park_def parked_def tables_ok_def run_list_def
          sleep_list_def zombie_list_def\<close>)
  next
    case (nomem a n)
    then show ?thesis using that(2) [of s n] S_SLEEP by (simp add: park_def)
  qed
next
  case S_ZOMB
  have t: "table_ok (zombies s)" "length (guy_list (zombies s)) < 536870910"
    using assms(1,5) by (simp_all add: tables_ok_def zombie_list_def)
  then show ?thesis
  proof (cases rule: add_guy_cases [of "zombies s" km cur, case_names ok nomem])
    case (ok a a')
    show ?thesis
      by (rule that(1) [of "s\<lparr>zombies := Ptr a'\<rparr>"])
        (use S_ZOMB ok assms(1,3) in \<open>simp_all add: park_def parked_def tables_ok_def run_list_def
          sleep_list_def zombie_list_def\<close>)
  next
    case (nomem a n)
    then show ?thesis using that(2) [of s n] S_ZOMB by (simp add: park_def)
  qed
qed (use assms(4) in simp)

lemma parked_but:
  assumes "threads_but k s" and "curthread s = Ptr cur" and "parked st cur (s\<lparr>curthread := NULL\<rparr>) s2"
    and "st \<noteq> S_RUN" and "st = S_ZOMB \<Longrightarrow> undead (the (ts_threads s cur))"
    and "mset (n # rl @ sl) = mset (run_list s2 @ sleep_list s2)" and "moved s2 sl rl s3"
  shows "threads_but (k - (if st = S_ZOMB then 1 else 0)) (s3\<lparr>curthread := Ptr n\<rparr>)"
proof (rule threads_but_perm [OF assms(1)])
  let ?s = "s3\<lparr>curthread := Ptr n\<rparr>"
  note f = moved_frame [OF assms(7)]
  have s2: "zombie_list s2 = zombie_list s @ (if st = S_ZOMB then [cur] else [])"
      "run_list s2 = run_list s @ (if st = S_READY then [cur] else [])"
      "sleep_list s2 = sleep_list s @ (if st = S_SLEEP then [cur] else [])"
      "ts_threads s2 = ts_threads s" "numthreads s2 = numthreads s"
    using assms(3) by (simp_all add: parked_def run_list_def sleep_list_def zombie_list_def)
  have l: "live_list ?s = n # rl @ sl" "zombie_list ?s = zombie_list s2" "live_list s = cur # run_list s @ sleep_list s"
    using f assms(2) by (simp_all add: live_list_def cur_list_def run_list_def sleep_list_def zombie_list_def)
  show "tables_ok ?s" "ts_threads ?s = ts_threads s"
    using f s2 by (simp_all add: tables_ok_def)
  show "mset (live_list ?s @ zombie_list ?s) = mset (live_list s @ zombie_list s)"
    using assms(4,6) unfolding l s2 by (cases st) auto
  have "length (live_list ?s) = length (run_list s2) + length (sleep_list s2)"
    using mset_eq_length [OF assms(6)] l by simp
  then show "numthreads ?s + (k - (if st = S_ZOMB then 1 else 0)) = int (length (live_list ?s))"
    using assms(1,4) l(3) f s2 by (cases st) (auto simp: threads_but_def)
  show "\<forall>t \<in> set (zombie_list ?s). undead (the (ts_threads s t))"
    using assms(1,5) l s2 by (auto simp: threads_but_def)
qed

lemma mi_switch_out_inv:
  assumes "threads_but k s" and "few_threads s" and "st \<noteq> S_RUN" and "curthread s = Ptr cur"
    and "st = S_ZOMB \<Longrightarrow> undead (the (ts_threads s cur))"
    and "mi_switch_out km idle st s = Some s'"
  shows "threads_but (k - (if st = S_ZOMB then 1 else 0)) s'" and "few_threads s'" and "curspl s' > 0"
    and "\<exists>n. curthread s' = Ptr n"
    and "asleep s' \<subseteq> asleep s \<union> (if st = S_SLEEP then {(cur, sleepaddr s cur)} else {})"
proof -
  note few = few_threads_lists [OF assms(1,2)] and pre = threads_butD [OF assms(1)]
  let ?s1 = "s\<lparr>curthread := NULL\<rparr>"
  from assms(4,6) obtain s2 n s3 where out: "curspl s > 0" "park km st cur ?s1 = Some (OK, s2)"
      "scheduler km idle s2 = Some (n, s3)" "md_switch cur n (s3\<lparr>curthread := Ptr n\<rparr>) = Some s'"
    by (auto simp: mi_switch_out_def panic_simps)
  have s1: "tables_ok ?s1" "curspl ?s1 > 0" "curthread ?s1 = NULL"
      "length (run_list ?s1) + length (sleep_list ?s1) + length (zombie_list ?s1) < 268435454"
      "run_list ?s1 = run_list s" "sleep_list ?s1 = sleep_list s" "ts_threads ?s1 = ts_threads s"
    using pre(1) out(1) few
    by (simp_all add: tables_ok_def run_list_def sleep_list_def zombie_list_def)
  have p: "parked st cur ?s1 s2"
    by (rule park_cases [OF s1(1-3) assms(3) s1(4), of km cur]) (use out(2) in auto)
  have s2: "tables_ok s2" "curspl s2 > 0" "length (run_list s2) + length (sleep_list s2) < 268435455"
      "\<forall>t \<in> set (sleep_list s2). thr s2 t \<noteq> None"
    using p s1 few pre(2,4) assms(4) by (auto simp: parked_def thr_def cur_list_def split: if_splits)
  from scheduler_spec [OF s2(1,2,4,3) out(3)] obtain sl rl where m: "moved s2 sl rl s3"
      "mset (n # rl @ sl) = mset (run_list s2 @ sleep_list s2)" "set sl \<subseteq> set (sleep_list s2)"
    by auto
  note but = parked_but [OF assms(1,4) p assms(3,5) m(2,1)]
  note md = md_switch_but [OF but out(4)]
  show "threads_but (k - (if st = S_ZOMB then 1 else 0)) s'" by (rule md(1))
  have "dom (ts_threads s') = dom (ts_threads s)"
    using md(7) moved_frame(2) [OF m(1)] p by (simp add: parked_def)
  with assms(2) show "few_threads s'" by (simp add: few_threads_def)
  show "curspl s' > 0" "\<exists>n. curthread s' = Ptr n"
    using md(2,3) moved_frame(1) [OF m(1)] s2(2) by simp_all
  have "sleep_list s' = sl"
    using md(5) moved_frame(8) [OF m(1)] by (simp add: sleep_list_def)
  moreover have "sleepaddr s' = sleepaddr s"
    using md(8) moved_frame(2) [OF m(1)] p by (simp add: parked_def sleepaddr_def thr_def fun_eq_iff)
  moreover have "set sl \<subseteq> set (sleep_list s) \<union> (if st = S_SLEEP then {cur} else {})"
    using m(3) p s1(6) by (auto simp: parked_def split: if_splits)
  ultimately show "asleep s' \<subseteq> asleep s \<union> (if st = S_SLEEP then {(cur, sleepaddr s cur)} else {})"
    by (auto simp: asleep_def split: if_splits)
qed

section \<open>Destroying zombies\<close>

lemma exorcise_loop_spec:
  assumes "array_inv z" and "guys z = map Some (xs @ ys)" and "distinct ys"
    and "\<forall>t \<in> set ys. \<exists>th. ts_threads s t = Some th \<and> undead th" and "curthread s \<notin> Ptr ` set ys"
  shows "exorcise_loop (length ys) z (int (length xs)) s
     = Some (s\<lparr>ts_threads := (ts_threads s) |` (- set ys)\<rparr>)"
  using assms
proof (induction ys arbitrary: xs s)
  case Nil
  then show ?case by (simp add: restrict_map_def)
next
  case (Cons t ys)
  then obtain th where th: "ts_threads s t = Some th" "undead th" by auto
  let ?s = "thread_free t s"
  have get: "array_getguy z (int (length xs)) = Some t"
    using karr.getguy_nth [of z "length xs"] Cons.prems(1,2) by (simp add: nth_append)
  have "thread_destroy t s = Some ?s"
    using Cons.prems(5) th by (auto simp: thread_destroy_def thr_def undead_def)
  moreover have "exorcise_loop (length ys) z (int (length (xs @ [t]))) ?s
      = Some (?s\<lparr>ts_threads := (ts_threads ?s) |` (- set ys)\<rparr>)"
    using Cons.prems by (intro Cons.IH) (auto simp: thread_free_def)
  moreover have "(ts_threads ?s) |` (- set ys) = (ts_threads s) |` (- set (t # ys))"
    by (auto simp: thread_free_def restrict_map_def fun_eq_iff)
  ultimately show ?case
    using get Cons.prems(5) by (auto simp: thread_free_def add.commute)
qed

lemma exorcise_spec:
  assumes "threads_but k s" and "curspl s > 0"
  obtains z' where "exorcise km s = Some (s\<lparr>ts_threads := (ts_threads s) |` (- set (zombie_list s)), zombies := Ptr z'\<rparr>)"
    "table_ok (Ptr z')" "guy_list (Ptr z') = []"
proof -
  from threads_butD(1) [OF assms(1)] obtain z where z: "zombies s = Ptr z" "array_inv z"
      "guys z = map Some (zombie_list s)"
    by (rule tables_okE)
  have n: "nat (a_num z) = length (zombie_list s)"
    using length_guys [OF z(2)] z(3) by simp
  have "\<exists>th. ts_threads s t = Some th \<and> undead th" if "t \<in> set (zombie_list s)" for t
    using that assms(1) threads_butD(3) [OF assms(1)] by (force simp: threads_but_def thr_def)
  moreover have "curthread s \<notin> Ptr ` set (zombie_list s)" "distinct (zombie_list s)"
    using assms(1) by (auto simp: threads_but_def live_list_def cur_list_def)
  ultimately have loop: "exorcise_loop (length (zombie_list s)) z 0 s
      = Some (s\<lparr>ts_threads := (ts_threads s) |` (- set (zombie_list s))\<rparr>)"
    using exorcise_loop_spec [OF z(2), of "[]" "zombie_list s" s] z(3) by simp
  from array_setsize_zero [OF z(2), of km] obtain z' where z': "array_setsize km z 0 = Some (OK, z')"
      "array_inv z'" "guys z' = map Some []"
    by auto
  show ?thesis
  proof (rule that [of z'])
    show "exorcise km s = Some (s\<lparr>ts_threads := (ts_threads s) |` (- set (zombie_list s)), zombies := Ptr z'\<rparr>)"
      using assms(2) z(1) n loop z'(1) by (simp add: exorcise_def array_getnum_def)
  qed (use table_ok_Ptr [OF z'(2,3)] in auto)
qed

lemma threads_but_exorcised:
  assumes "threads_but k s" and "table_ok (Ptr z')" and "guy_list (Ptr z') = []"
    and "s' = s\<lparr>ts_threads := (ts_threads s) |` (- set (zombie_list s)), zombies := Ptr z'\<rparr>"
  shows "threads_but k s'" "live_list s' = live_list s" "zombie_list s' = []"
proof -
  show l: "live_list s' = live_list s" "zombie_list s' = []"
    using assms(3,4) by (simp_all add: live_list_def cur_list_def run_list_def sleep_list_def zombie_list_def)
  have "dom (ts_threads s') = set (live_list s)"
    using assms(1,4) by (auto simp: threads_but_def)
  then show "threads_but k s'"
    using assms l by (auto simp: threads_but_def tables_ok_def restrict_map_def split: if_splits)
qed

lemma few_threads_subset:
  assumes "threads_but k s" and "few_threads s" and "dom (ts_threads s') \<subseteq> dom (ts_threads s)"
  shows "few_threads s'"
proof -
  have "finite (dom (ts_threads s))" using assms(1) by (simp add: threads_but_def)
  then have "card (dom (ts_threads s')) \<le> card (dom (ts_threads s))"
    using assms(3) by (rule card_mono)
  with assms(2) show ?thesis by (simp add: few_threads_def)
qed

lemma mi_switch_in_inv:
  assumes "threads_but k s" and "few_threads s" and "curspl s > 0" and "curthread s = Ptr cur"
  obtains s' where "mi_switch_in km s = Some s'" "threads_but k s'" "few_threads s'"
    "live_list s' = live_list s" "zombie_list s' = []" "curthread s' = curthread s"
    "run_list s' = run_list s" "sleep_list s' = sleep_list s"
    "ts_threads s' = (ts_threads s) |` (- set (zombie_list s))"
proof -
  obtain z' where z: "exorcise km s = Some (s\<lparr>ts_threads := (ts_threads s) |` (- set (zombie_list s)), zombies := Ptr z'\<rparr>)"
      "table_ok (Ptr z')" "guy_list (Ptr z') = []"
    by (rule exorcise_spec [OF assms(1,3)])
  let ?s1 = "s\<lparr>ts_threads := (ts_threads s) |` (- set (zombie_list s)), zombies := Ptr z'\<rparr>"
  note e = threads_but_exorcised [OF assms(1) z(2,3) refl]
  have "thr ?s1 cur \<noteq> None"
    using threads_butD(4) [OF e(1)] assms(4) by (simp add: cur_list_def)
  then obtain th where th: "thr ?s1 cur = Some th" by blast
  let ?s' = "case t_vmspace th of NULL \<Rightarrow> ?s1 | Ptr as \<Rightarrow> as_activate as ?s1"
  have run: "mi_switch_in km s = Some ?s'"
    using z(1) th assms(4) by (simp add: mi_switch_in_def)
  have fr: "threads_but k ?s' = threads_but k ?s1" "live_list ?s' = live_list ?s1"
      "zombie_list ?s' = zombie_list ?s1" "curthread ?s' = curthread s" "run_list ?s' = run_list s"
      "sleep_list ?s' = sleep_list s" "ts_threads ?s' = ts_threads ?s1"
    by (simp_all add: as_activate_def threads_but_def tables_ok_def live_list_def cur_list_def
        run_list_def sleep_list_def zombie_list_def split: nullable.split)
  have "few_threads ?s'"
    by (rule few_threads_subset [OF assms(1,2)]) (use fr(7) in auto)
  then show ?thesis
    using that [OF run] fr e by simp
qed

text \<open>The thread that was picked runs on, wherever it stopped; what it runs cannot fail.\<close>

lemma curspl_inv [simp]: "threads_but k (s\<lparr>curspl := c\<rparr>) = threads_but k s" "few_threads (s\<lparr>curspl := c\<rparr>) = few_threads s"
    "cur_list (s\<lparr>curspl := c\<rparr>) = cur_list s" "run_list (s\<lparr>curspl := c\<rparr>) = run_list s"
    "sleep_list (s\<lparr>curspl := c\<rparr>) = sleep_list s" "zombie_list (s\<lparr>curspl := c\<rparr>) = zombie_list s"
    "tables_ok (s\<lparr>curspl := c\<rparr>) = tables_ok s" "live_list (s\<lparr>curspl := c\<rparr>) = live_list s"
    "run_room (s\<lparr>curspl := c\<rparr>) = run_room s" "thr (s\<lparr>curspl := c\<rparr>) = thr s"
    "sleepaddr (s\<lparr>curspl := c\<rparr>) = sleepaddr s"
  by (simp_all add: threads_but_def few_threads_def tables_ok_def live_list_def cur_list_def
      run_list_def sleep_list_def zombie_list_def run_room_def thr_def sleepaddr_def fun_eq_iff)

lemma numthreads_view [simp]:
  "cur_list (s\<lparr>numthreads := n\<rparr>) = cur_list s" "run_list (s\<lparr>numthreads := n\<rparr>) = run_list s"
  "sleep_list (s\<lparr>numthreads := n\<rparr>) = sleep_list s" "zombie_list (s\<lparr>numthreads := n\<rparr>) = zombie_list s"
  "tables_ok (s\<lparr>numthreads := n\<rparr>) = tables_ok s" "run_room (s\<lparr>numthreads := n\<rparr>) = run_room s"
  by (simp_all add: tables_ok_def cur_list_def run_list_def sleep_list_def zombie_list_def run_room_def)

lemma resume_inv:
  assumes "threads_but k s" and "few_threads s" and "curspl s > 0" and "curthread s = Ptr cur"
  obtains s' where "resume km s = Some s'" "threads_but k s'" "few_threads s'"
    "live_list s' = live_list s" "curthread s' = curthread s" "run_list s' = run_list s"
    "sleep_list s' = sleep_list s" "asleep s' = asleep s"
proof -
  have "thr s cur \<noteq> None"
    using threads_butD(4) [OF assms(1)] assms(4) by (simp add: cur_list_def)
  then obtain th where th: "thr s cur = Some th" by blast
  obtain s1 where s1: "mi_switch_in km s = Some s1" "threads_but k s1" "few_threads s1"
      "live_list s1 = live_list s" "curthread s1 = curthread s" "run_list s1 = run_list s"
      "sleep_list s1 = sleep_list s" "ts_threads s1 = (ts_threads s) |` (- set (zombie_list s))"
    by (rule mi_switch_in_inv [OF assms, of km])
  have apart: "set (sleep_list s) \<inter> set (zombie_list s) = {}" "cur \<notin> set (sleep_list s)"
    using assms(1,4) by (auto simp: threads_but_def live_list_def cur_list_def)
  then have a1: "asleep s1 = asleep s"
    using s1(7,8) by (auto simp: asleep_def sleepaddr_def thr_def restrict_map_def)
  show ?thesis
  proof (cases "pcb_resume (t_pcb th)")
    case AT_START
    let ?s' = "snd (spl0 (case t_vmspace th of NULL \<Rightarrow> s | Ptr as \<Rightarrow> as_activate as s))"
    have "resume km s = Some ?s'"
      using AT_START th assms(4) by (simp add: resume_def mi_threadstart_def Let_def)
    moreover have "threads_but k ?s' = threads_but k s" "few_threads ?s' = few_threads s"
        "live_list ?s' = live_list s" "curthread ?s' = curthread s" "run_list ?s' = run_list s"
        "sleep_list ?s' = sleep_list s" "asleep ?s' = asleep s"
      by (simp_all add: asleep_def sleepaddr_def thr_def spl0_def splx_def as_activate_def threads_but_def few_threads_def tables_ok_def
          live_list_def cur_list_def run_list_def sleep_list_def zombie_list_def split: nullable.split)
    ultimately show ?thesis using that assms by blast
  next
    case (IN_YIELD spl)
    then have "resume km s = Some (s1\<lparr>curspl := spl\<rparr>)"
      using th assms(4) s1(1) by (simp add: resume_def splx_def)
    then show ?thesis using that s1 a1 by (auto simp: live_list_def cur_list_def asleep_def)
  next
    case IN_SLEEP
    have "thr s1 cur \<noteq> None"
      using threads_butD(4) [OF s1(2)] s1(5) assms(4) by (simp add: cur_list_def)
    then obtain s2 where s2: "upd_thr cur (\<lambda>th. th\<lparr>t_sleepaddr := NULL\<rparr>) s1 = Some s2"
      by (auto simp: upd_thr_def)
    have "threads_but k s2" by (rule upd_thr_but [OF s1(2) s2]) simp
    moreover have "resume km s = Some s2"
      using IN_SLEEP th assms(4) s1(1) s2 by (simp add: resume_def)
    moreover note f = upd_thr_frame [OF s2]
    moreover have "few_threads s2" using f(16) s1(3) by (simp add: few_threads_def)
    moreover have "asleep s2 = asleep s1"
      using f(11) s1(7) apart(2) sleepaddr_upd_thr [OF s2] by (auto simp: asleep_def)
    with a1 have "asleep s2 = asleep s" by simp
    ultimately show ?thesis using that s1 by simp
  qed
qed

section \<open>The operations keep the invariant\<close>

lemma thread_yield_but:
  assumes "threads_but 0 s" and "few_threads s" and "thread_yield km idle s = Some s'"
  shows "threads_but 0 s' \<and> few_threads s' \<and> asleep s' \<subseteq> asleep s"
proof (cases "curthread s")
  case NULL
  with assms show ?thesis
    by (auto simp: thread_yield_def mi_switch_out_def splhigh_def splx_def panic_simps Let_def asleep_def)
next
  case (Ptr cur)
  let ?s1 = "s\<lparr>curspl := SPL_HIGH\<rparr>"
  from Ptr assms(3) obtain s2 s3 where run: "upd_thr cur (set_resume (IN_YIELD (curspl s))) ?s1 = Some s2"
      "mi_switch_out km idle S_READY s2 = Some s3" "resume km s3 = Some s'"
    by (auto simp: thread_yield_def splhigh_def splx_def panic_simps Let_def)
  note f = upd_thr_frame [OF run(1)]
  have s2: "threads_but 0 s2" "few_threads s2" "curthread s2 = Ptr cur"
    using upd_thr_but [OF _ run(1)] assms(1,2) few_threads_dom [OF f(16)] f(1) Ptr by simp_all
  have "S_READY \<noteq> S_RUN" by simp
  note out = mi_switch_out_inv [OF s2(1,2) this s2(3) _ run(2)]
  from out(4) obtain n where n: "curthread s3 = Ptr n" by auto
  have "asleep s2 = asleep s"
    using f(11) sleepaddr_upd_same [OF run(1)] by (simp add: asleep_def set_resume_def)
  with out(5) have "asleep s3 \<subseteq> asleep s" by simp
  moreover have "threads_but 0 s3" using out(1) by simp
  ultimately show ?thesis
    by (rule_tac resume_inv [OF _ out(2,3) n, of 0 km]) (use run(3) in auto)
qed

lemma thread_sleep_but:
  assumes "threads_but 0 s" and "few_threads s" and "thread_sleep km idle addr s = Some s'"
  shows "threads_but 0 s' \<and> few_threads s' \<and> (\<exists>cur. curthread s = Ptr cur \<and> asleep s' \<subseteq> insert (cur, Ptr addr) (asleep s))"
proof -
  from assms(3) obtain cur s1 s2 where run: "curthread s = Ptr cur"
      "upd_thr cur (\<lambda>th. set_resume IN_SLEEP (th\<lparr>t_sleepaddr := Ptr addr\<rparr>)) s = Some s1"
      "mi_switch_out km idle S_SLEEP s1 = Some s2" "resume km s2 = Some s'"
    by (cases "curthread s") (auto simp: thread_sleep_def panic_simps)
  note f = upd_thr_frame [OF run(2)]
  have s1: "threads_but 0 s1" "few_threads s1" "curthread s1 = Ptr cur"
    using upd_thr_but [OF _ run(2)] assms(1,2) few_threads_dom [OF f(16)] f(1) run(1) by simp_all
  have "S_SLEEP \<noteq> S_RUN" by simp
  note out = mi_switch_out_inv [OF s1(1,2) this s1(3) _ run(3)]
  from out(4) obtain n where n: "curthread s2 = Ptr n" by auto
  have "cur \<notin> set (sleep_list s)"
    using assms(1) run(1) by (auto simp: threads_but_def live_list_def cur_list_def)
  then have "asleep s1 = asleep s" "sleepaddr s1 cur = Ptr addr"
    using f(11) sleepaddr_upd_thr [OF run(2)] by (auto simp: asleep_def set_resume_def)
  with out(5) have "asleep s2 \<subseteq> insert (cur, Ptr addr) (asleep s)" by simp
  moreover have "threads_but 0 s2" using out(1) by simp
  ultimately show ?thesis
    by (rule_tac resume_inv [OF _ out(2,3) n, of 0 km]) (use run(1,4) in auto)
qed

text \<open>Fields no part of the invariant reads.\<close>

lemma side_inv [simp]:
  "threads_but k (VOP_INCREF v s) = threads_but k s" "threads_but k (VOP_DECREF v s) = threads_but k s"
  "threads_but k (as_destroy a s) = threads_but k s"
  "few_threads (VOP_INCREF v s) = few_threads s" "few_threads (VOP_DECREF v s) = few_threads s"
  "few_threads (as_destroy a s) = few_threads s"
  "ts_threads (VOP_INCREF v s) = ts_threads s" "ts_threads (VOP_DECREF v s) = ts_threads s"
  "ts_threads (as_destroy a s) = ts_threads s"
  "curthread (VOP_INCREF v s) = curthread s" "curthread (VOP_DECREF v s) = curthread s"
  "curthread (as_destroy a s) = curthread s"
  "asleep (VOP_INCREF v s) = asleep s" "asleep (VOP_DECREF v s) = asleep s" "asleep (as_destroy a s) = asleep s"
  by (simp_all add: asleep_def sleepaddr_def thr_def VOP_INCREF_def VOP_DECREF_def as_destroy_def threads_but_def few_threads_def tables_ok_def
      live_list_def cur_list_def run_list_def sleep_list_def zombie_list_def)

text \<open>The part of \<open>thread_exit\<close> that lets go of the address space and the directory.\<close>

lemma exit_release:
  assumes "threads_but k s" and "few_threads s" and "curthread s = Ptr cur" and "thr s cur = Some th"
    and "(case t_vmspace th of NULL \<Rightarrow> Some s
          | Ptr as \<Rightarrow> do { s' \<leftarrow> upd_thr cur (\<lambda>th. th\<lparr>t_vmspace := NULL\<rparr>) s; Some (as_destroy as s') }) = Some s2"
    and "(case t_cwd th of NULL \<Rightarrow> Some s2
          | Ptr vn \<Rightarrow> upd_thr cur (\<lambda>th. th\<lparr>t_cwd := NULL\<rparr>) (VOP_DECREF vn s2)) = Some s3"
  shows "threads_but k s3" "few_threads s3" "curthread s3 = Ptr cur" "undead (the (ts_threads s3 cur))"
    "asleep s3 = asleep s"
proof -
  have s2: "threads_but k s2 \<and> few_threads s2 \<and> curthread s2 = Ptr cur \<and> asleep s2 = asleep s
      \<and> ts_threads s2 cur = Some (th\<lparr>t_vmspace := NULL\<rparr>)"
  proof (cases "t_vmspace th")
    case NULL
    with assms show ?thesis by (simp add: thr_def)
  next
    case (Ptr as)
    with assms(5) obtain s' where s': "upd_thr cur (\<lambda>th. th\<lparr>t_vmspace := NULL\<rparr>) s = Some s'" "s2 = as_destroy as s'"
      by (auto simp: panic_simps)
    note f = upd_thr_frame [OF s'(1)]
    have "asleep s' = asleep s" using f(11) sleepaddr_upd_same [OF s'(1)] by (simp add: asleep_def)
    then show ?thesis
      using s'(2) f(1,17) upd_thr_but [OF assms(1) s'(1)] few_threads_dom [OF f(16)] assms(2-4) by (simp add: thr_def)
  qed
  have "threads_but k s3 \<and> few_threads s3 \<and> curthread s3 = Ptr cur \<and> undead (the (ts_threads s3 cur))
      \<and> asleep s3 = asleep s"
  proof (cases "t_cwd th")
    case NULL
    with assms(6) s2 show ?thesis by (auto simp: undead_def)
  next
    case (Ptr vn)
    with assms(6) have u: "upd_thr cur (\<lambda>th. th\<lparr>t_cwd := NULL\<rparr>) (VOP_DECREF vn s2) = Some s3" by simp
    note f = upd_thr_frame [OF u]
    have "threads_but k (VOP_DECREF vn s2)" using s2 by simp
    note b = upd_thr_but [OF this u]
    have "asleep s3 = asleep (VOP_DECREF vn s2)"
      using f(11) sleepaddr_upd_same [OF u] by (simp add: asleep_def)
    then show ?thesis
      using f(1,17) b few_threads_dom [OF f(16)] s2 by (simp add: undead_def)
  qed
  then show "threads_but k s3" "few_threads s3" "curthread s3 = Ptr cur" "undead (the (ts_threads s3 cur))"
    "asleep s3 = asleep s" by auto
qed

lemma thread_exit_but:
  assumes "threads_but 0 s" and "few_threads s" and "thread_exit km idle s = Some s'"
  shows "threads_but 0 s' \<and> few_threads s' \<and> asleep s' \<subseteq> asleep s"
proof -
  let ?s1 = "s\<lparr>curspl := SPL_HIGH\<rparr>"
  from assms(3) obtain cur th s2 s3 s4 where run: "curthread s = Ptr cur" "thr s cur = Some th"
      "(case t_vmspace th of NULL \<Rightarrow> Some ?s1
          | Ptr as \<Rightarrow> do { s' \<leftarrow> upd_thr cur (\<lambda>th. th\<lparr>t_vmspace := NULL\<rparr>) ?s1; Some (as_destroy as s') }) = Some s2"
      "(case t_cwd th of NULL \<Rightarrow> Some s2
          | Ptr vn \<Rightarrow> upd_thr cur (\<lambda>th. th\<lparr>t_cwd := NULL\<rparr>) (VOP_DECREF vn s2)) = Some s3"
      "mi_switch_out km idle S_ZOMB (s3\<lparr>numthreads := numthreads s3 - 1\<rparr>) = Some s4" "resume km s4 = Some s'"
    unfolding thread_exit_def splhigh_def splx_def
    by (cases "curthread s") (auto simp: panic_simps Let_def)
  have pre: "threads_but 0 ?s1" "few_threads ?s1" "curthread ?s1 = Ptr cur" "thr ?s1 cur = Some th"
    using assms(1,2) run(1,2) by simp_all
  note r = exit_release [OF pre run(3,4)]
  let ?s3 = "s3\<lparr>numthreads := numthreads s3 - 1\<rparr>"
  have s3: "threads_but 1 ?s3" "few_threads ?s3" "curthread ?s3 = Ptr cur" "undead (the (ts_threads ?s3 cur))"
      "asleep ?s3 = asleep s"
    using r by (auto simp: asleep_def sleepaddr_def thr_def threads_but_def few_threads_def tables_ok_def live_list_def cur_list_def
        run_list_def sleep_list_def zombie_list_def)
  have "S_ZOMB \<noteq> S_RUN" by simp
  note out = mi_switch_out_inv [OF s3(1,2) this s3(3) s3(4) run(5)]
  from out(4) obtain n where n: "curthread s4 = Ptr n" by auto
  have "asleep s4 \<subseteq> asleep s" "threads_but 0 s4" using out(1,5) s3(5) by simp_all
  then show ?thesis
    by (rule_tac resume_inv [OF _ out(2,3) n, of 0 km]) (use run(6) in auto)
qed

lemma thread_wakeup_but:
  assumes "threads_but k s" and "few_threads s" and "thread_wakeup km addr s = Some s'"
  shows "threads_but k s' \<and> few_threads s' \<and> asleep s' = asleep s - UNIV \<times> {Ptr addr}"
proof -
  have "curspl s > 0" using assms(3) by (simp add: thread_wakeup_def panic_simps)
  with thread_wakeup_spec [of s km addr] few_threads_lists [OF assms(1,2)] threads_butD(1,2) [OF assms(1)] assms(3)
  have m: "moved s (stays s addr (sleep_list s)) (run_list s @ wakes s addr (sleep_list s)) s'"
    by simp
  then have "threads_but k s'"
    by (rule threads_but_moved [OF assms(1)]) (simp add: wakes_def stays_def)
  moreover have "asleep s' = asleep s - UNIV \<times> {Ptr addr}"
    using moved_frame(8,10) [OF m] by (auto simp: asleep_def stays_def)
  ultimately show ?thesis using assms(2) moved_frame(2) [OF m] by (simp add: few_threads_def)
qed

subsection \<open>Fork\<close>

text \<open>A state with the same threads in the same places, up to the sizes of the tables.\<close>

definition resized :: "tsys \<Rightarrow> tsys \<Rightarrow> bool" where
  "resized s s' \<longleftrightarrow> tables_ok s' \<and> ts_threads s' = ts_threads s \<and> curthread s' = curthread s
     \<and> numthreads s' = numthreads s \<and> curspl s' = curspl s \<and> vn_refs s' = vn_refs s
     \<and> run_list s' = run_list s \<and> sleep_list s' = sleep_list s \<and> zombie_list s' = zombie_list s"

lemma resized_trans: "resized s s' \<Longrightarrow> resized s' s'' \<Longrightarrow> resized s s''"
  by (simp add: resized_def)

lemma prealloc_cases:
  assumes "table_ok p" and "n \<le> 536870910"
  obtains (ok) a a' where "p = Ptr a" "array_preallocate km a n = Some (OK, a')" "table_ok (Ptr a')"
      "guy_list (Ptr a') = guy_list p"
    | (nomem) a where "p = Ptr a" "array_preallocate km a n = Some (ENOMEM, a)"
proof -
  from assms(1) obtain a where a: "p = Ptr a" "array_inv a" "guys a = map Some (guy_list p)"
    by (rule table_okE)
  from array_preallocate_spec [OF a(2) assms(2), of km] show ?thesis
  proof (elim disjE exE conjE)
    fix a' assume "array_preallocate km a n = Some (OK, a')" "array_inv a'" "guys a' = guys a"
    with a table_ok_Ptr [of a' "guy_list p"] that(1) [of a a'] show ?thesis by simp
  qed (use that(2) a(1) in blast)
qed

lemma scheduler_preallocate_cases:
  assumes "tables_ok s" and "curspl s > 0" and "n \<le> 268435456"
  obtains (ok) s' where "scheduler_preallocate km n s = Some (OK, s')" "resized s s'" "n \<le> int (run_room s') + 1"
    | (nomem) "scheduler_preallocate km n s = Some (ENOMEM, s)"
proof -
  from assms(1) obtain q where q: "runqueue s = Ptr q" "queue_inv q"
    by (rule tables_okE)
  from q_preallocate_spec [OF q(2) assms(3), of km] show ?thesis
  proof (elim disjE exE conjE)
    fix q' assume q': "q_preallocate km q n = Some (OK, q')" "queue_inv q'" "q_list q' = q_list q"
      "n \<le> q_size q'"
    let ?s = "s\<lparr>runqueue := Ptr q'\<rparr>"
    have "scheduler_preallocate km n s = Some (OK, ?s)"
      using q q' assms(2) by (simp add: scheduler_preallocate_def)
    moreover have "resized s ?s"
      using q(1) q' assms(1) by (simp add: resized_def tables_ok_def run_list_def sleep_list_def zombie_list_def)
    moreover have "n \<le> int (run_room ?s) + 1"
      using q'(4) by (simp add: run_room_def q_room_def)
    ultimately show ?thesis by (rule that(1))
  qed (use that(2) q assms(2) in \<open>simp add: scheduler_preallocate_def\<close>)
qed

lemma fork_tables_cases:
  assumes "tables_ok s" and "curspl s > 0" and "0 \<le> numthreads s" and "numthreads s < 268435454"
    and "length (run_list s) < 268435455"
  obtains (ok) s1 s' where "fork_tables m new s = Some (OK, s'\<lparr>numthreads := numthreads s + 1\<rparr>)" "resized s s1"
      "moved s1 (sleep_list s) (run_list s @ [new]) s'" "numthreads s \<le> int (run_room s')"
    | (nomem) s' where "fork_tables m new s = Some (ENOMEM, s')" "resized s s'"
proof -
  have n: "s32 (numthreads s + 1) = numthreads s + 1" "numthreads s + 1 \<le> 536870910" "numthreads s + 1 \<le> 268435456"
    using assms(3,4) by (simp_all add: s32_id INT_MAX_def)
  have t: "table_ok (sleepers s)" "table_ok (zombies s)"
    using assms(1) by (simp_all add: tables_ok_def)
  show ?thesis
  proof (rule prealloc_cases [OF t(1) n(2), of "m_sleepers m"])
    fix a assume "sleepers s = Ptr a" "array_preallocate (m_sleepers m) a (numthreads s + 1) = Some (ENOMEM, a)"
    then show ?thesis
      by (intro that(2) [of s]) (use assms(1) n(1) in \<open>simp_all add: fork_tables_def resized_def Let_def\<close>)
  next
    fix a a' assume a: "sleepers s = Ptr a" "array_preallocate (m_sleepers m) a (numthreads s + 1) = Some (OK, a')"
      "table_ok (Ptr a')" "guy_list (Ptr a') = guy_list (sleepers s)"
    let ?s1 = "s\<lparr>sleepers := Ptr a'\<rparr>"
    have r1: "resized s ?s1"
      using a assms(1) by (simp add: resized_def tables_ok_def run_list_def sleep_list_def zombie_list_def)
    show ?thesis
    proof (rule prealloc_cases [OF t(2) n(2), of "m_zombies m"])
      fix z assume "zombies s = Ptr z" "array_preallocate (m_zombies m) z (numthreads s + 1) = Some (ENOMEM, z)"
      then show ?thesis
        by (intro that(2) [of ?s1]) (use a r1 n(1) in \<open>simp_all add: fork_tables_def Let_def\<close>)
    next
      fix z z' assume z: "zombies s = Ptr z" "array_preallocate (m_zombies m) z (numthreads s + 1) = Some (OK, z')"
        "table_ok (Ptr z')" "guy_list (Ptr z') = guy_list (zombies s)"
      let ?s2 = "?s1\<lparr>zombies := Ptr z'\<rparr>"
      have r2: "resized s ?s2"
        using a z assms(1) by (simp add: resized_def tables_ok_def run_list_def sleep_list_def zombie_list_def)
      have pre: "tables_ok ?s2" "curspl ?s2 > 0" using r2 assms(2) by (simp_all add: resized_def)
      show ?thesis
      proof (rule scheduler_preallocate_cases [OF pre n(3), of "m_sched m"])
        assume "scheduler_preallocate (m_sched m) (numthreads s + 1) ?s2 = Some (ENOMEM, ?s2)"
        then show ?thesis
          by (intro that(2) [of ?s2]) (use a z r2 n(1) in \<open>simp_all add: fork_tables_def Let_def\<close>)
      next
        fix s3 assume s3: "scheduler_preallocate (m_sched m) (numthreads s + 1) ?s2 = Some (OK, s3)"
          "resized ?s2 s3" "numthreads s + 1 \<le> int (run_room s3) + 1"
        note r3 = resized_trans [OF r2 s3(2)]
        have pre3: "tables_ok s3" "curspl s3 > 0" "length (run_list s3) < 268435455"
          using r3 assms(2,5) by (simp_all add: resized_def)
        show ?thesis
        proof (rule make_runnable_cases [OF pre3, of "m_run m" new])
          fix s4 assume s4: "make_runnable (m_run m) new s3 = Some (OK, s4)"
            "moved s3 (sleep_list s3) (run_list s3 @ [new]) s4"
          have "numthreads s4 = numthreads s" using moved_frame(5) [OF s4(2)] r3 by (simp add: resized_def)
          then show ?thesis
            by (intro that(1) [of s4 s3]) (use a z s3 s4 r3 n(1) moved_frame(14) [OF s4(2)] in
              \<open>simp_all add: fork_tables_def resized_def Let_def\<close>)
        next
          assume "make_runnable (m_run m) new s3 = Some (ENOMEM, s3)"
          then show ?thesis
            by (intro that(2) [of s3]) (use a z s3 r3 n(1) in \<open>simp_all add: fork_tables_def Let_def\<close>)
        qed
      qed
    qed
  qed
qed

text \<open>The thread structure that \<open>thread_fork\<close> makes, and the state in which it reaches the tables.\<close>

definition forked :: "nat nullable \<Rightarrow> string \<Rightarrow> thread" where
  "forked cwd name = \<lparr>t_pcb = \<lparr>pcb_ininterrupt = 0, pcb_resume = AT_START\<rparr>, t_name = name, t_sleepaddr = NULL,
     t_stack = Ptr stack_magic, t_vmspace = NULL, t_cwd = cwd\<rparr>"

definition fork_ready :: "fork_mem \<Rightarrow> string \<Rightarrow> nat nullable \<Rightarrow> tsys \<Rightarrow> tsys" where
  "fork_ready m name cwd s =
     (let s' = (case cwd of NULL \<Rightarrow> s | Ptr vn \<Rightarrow> VOP_INCREF vn s)
      in s'\<lparr>ts_threads := (ts_threads s)(m_addr m \<mapsto> forked cwd name), curspl := SPL_HIGH\<rparr>)"

lemma thread_fork_unfold:
  assumes "m_thread m" "m_name m" "m_stack m" and "curthread s = Ptr cur" and "ts_threads s cur = Some cth"
    and "m_addr m \<notin> dom (ts_threads s)"
  shows "thread_fork m name s = do {
     (result, s6) \<leftarrow> fork_tables m (m_addr m) (fork_ready m name (t_cwd cth) s);
     let s7 = s6\<lparr>curspl := curspl s\<rparr>;
     if result = OK then Some (Inr (m_addr m), s7)
     else do {
       nth \<leftarrow> thr s7 (m_addr m);
       Some (Inl result, thread_free (m_addr m) (case t_cwd nth of NULL \<Rightarrow> s7 | Ptr vn \<Rightarrow> VOP_DECREF vn s7))
     }
   }"
proof -
  have "cur \<noteq> m_addr m" using assms(5,6) by auto
  then show ?thesis
    using assms
    by (auto simp: thread_fork_def thread_create_def upd_thr_def thr_def fork_ready_def forked_def splhigh_def
        splx_def VOP_INCREF_def Let_def split: nullable.split cong del: if_weak_cong nullable.case_cong_weak)
qed

lemma fork_ready_view [simp]:
  "cur_list (fork_ready m name c s) = cur_list s" "run_list (fork_ready m name c s) = run_list s"
  "sleep_list (fork_ready m name c s) = sleep_list s" "zombie_list (fork_ready m name c s) = zombie_list s"
  "tables_ok (fork_ready m name c s) = tables_ok s" "numthreads (fork_ready m name c s) = numthreads s"
  "curspl (fork_ready m name c s) = 15" "curthread (fork_ready m name c s) = curthread s"
  "ts_threads (fork_ready m name c s) = (ts_threads s)(m_addr m \<mapsto> forked c name)"
  by (simp_all add: fork_ready_def VOP_INCREF_def Let_def cur_list_def run_list_def sleep_list_def
      zombie_list_def tables_ok_def SPL_HIGH_def split: nullable.split)

lemma check_stack_forked [simp]: "check_stack (forked c name)"
  by (simp add: check_stack_def forked_def stack_magic_def)

definition fork_done :: "nat \<Rightarrow> nat nullable \<Rightarrow> string \<Rightarrow> tsys \<Rightarrow> tsys \<Rightarrow> bool" where
  "fork_done new c name s s' \<longleftrightarrow> ts_threads s' = (ts_threads s)(new \<mapsto> forked c name)
     \<and> curthread s' = curthread s \<and> numthreads s' = numthreads s + 1 \<and> curspl s' = curspl s
     \<and> run_list s' = run_list s @ [new] \<and> sleep_list s' = sleep_list s \<and> zombie_list s' = zombie_list s
     \<and> tables_ok s'"

lemma fork_done_but:
  assumes "threads_but 0 s" and "new \<notin> dom (ts_threads s)" and "fork_done new c name s s'"
  shows "threads_but 0 s'"
proof -
  have l: "live_list s' = cur_list s @ run_list s @ [new] @ sleep_list s" "zombie_list s' = zombie_list s"
      "dom (ts_threads s') = insert new (dom (ts_threads s))"
    using assms(3) by (auto simp: fork_done_def live_list_def cur_list_def)
  then have "\<forall>t \<in> set (zombie_list s). t \<noteq> new"
    using assms(1,2) by (auto simp: threads_but_def)
  then show ?thesis
    using assms l unfolding threads_but_def fork_done_def live_list_def by auto
qed

lemma fork_undone:
  assumes "resized (fork_ready m name c s) s6" and "m_addr m \<notin> dom (ts_threads s)"
    and "s7 = s6\<lparr>curspl := curspl s\<rparr>"
    and "s' = thread_free (m_addr m) (case c of NULL \<Rightarrow> s7 | Ptr vn \<Rightarrow> VOP_DECREF vn s7)"
  shows "resized s s'"
proof -
  have "vn_refs s' = vn_refs s"
    using assms(1,3,4)
    by (auto simp: resized_def fork_ready_def VOP_INCREF_def VOP_DECREF_def thread_free_def Let_def split: nullable.splits)
  moreover have "(ts_threads s)(m_addr m := None) = ts_threads s"
    using assms(2) by (auto simp: fun_eq_iff)
  ultimately show ?thesis
    using assms(1,3,4) by (cases c)
      (simp_all add: resized_def thread_free_def VOP_DECREF_def VOP_INCREF_def fork_ready_def Let_def tables_ok_def
        run_list_def sleep_list_def zombie_list_def)
qed

lemma resized_but: "threads_but k s \<Longrightarrow> resized s s' \<Longrightarrow> threads_but k s'"
  by (simp add: resized_def threads_but_def live_list_def cur_list_def)

lemma thread_fork_cases:
  assumes "threads_but 0 s" and "few_threads s" and "curthread s = Ptr cur" and "m_addr m \<notin> dom (ts_threads s)"
  obtains (ok) c s' where "thread_fork m name s = Some (Inr (m_addr m), s')" "fork_done (m_addr m) c name s s'"
      "numthreads s \<le> int (run_room s')"
    | (nomem) s' where "thread_fork m name s = Some (Inl ENOMEM, s')" "resized s s'"
proof (cases "m_thread m \<and> m_name m \<and> m_stack m")
  case False
  have "(ts_threads s)(m_addr m := None) = ts_threads s"
    using assms(4) by (auto simp: fun_eq_iff)
  then have "thread_fork m name s = Some (Inl ENOMEM, s)"
    using False by (auto simp: thread_fork_def thread_create_def thread_free_def)
  then show ?thesis
    using threads_butD(1) [OF assms(1)] that(2) by (simp add: resized_def)
next
  case True
  note pre = threads_butD [OF assms(1)] and few = few_threads_lists [OF assms(1,2)]
  from pre(4) assms(3) obtain cth where cth: "ts_threads s cur = Some cth"
    by (auto simp: cur_list_def thr_def)
  let ?r = "fork_ready m name (t_cwd cth) s"
  have "numthreads s = int (length (live_list s))"
    using assms(1) by (simp add: threads_but_def)
  with few pre(1) have r: "tables_ok ?r" "curspl ?r > 0" "0 \<le> numthreads ?r" "numthreads ?r < 268435454"
      "length (run_list ?r) < 268435455"
    by (simp_all add: live_list_def)
  have u: "thread_fork m name s = do {
     (result, s6) \<leftarrow> fork_tables m (m_addr m) ?r;
     let s7 = s6\<lparr>curspl := curspl s\<rparr>;
     if result = OK then Some (Inr (m_addr m), s7)
     else do {
       nth \<leftarrow> thr s7 (m_addr m);
       Some (Inl result, thread_free (m_addr m) (case t_cwd nth of NULL \<Rightarrow> s7 | Ptr vn \<Rightarrow> VOP_DECREF vn s7))
     }
   }"
    using True assms(3,4) cth by (intro thread_fork_unfold) auto
  show ?thesis
  proof (rule fork_tables_cases [OF r, of m "m_addr m"])
    fix s1 s' assume ft: "fork_tables m (m_addr m) ?r = Some (OK, s'\<lparr>numthreads := numthreads ?r + 1\<rparr>)"
      "resized ?r s1" "moved s1 (sleep_list ?r) (run_list ?r @ [m_addr m]) s'" "numthreads ?r \<le> int (run_room s')"
    let ?s = "s'\<lparr>numthreads := numthreads s + 1, curspl := curspl s\<rparr>"
    have "thread_fork m name s = Some (Inr (m_addr m), ?s)"
      using u ft(1) by simp
    moreover have "fork_done (m_addr m) (t_cwd cth) name s ?s"
      using moved_frame [OF ft(3)] ft(2) by (simp add: fork_done_def resized_def)
    moreover have "numthreads s \<le> int (run_room ?s)"
      using ft(4) by simp
    ultimately show ?thesis by (rule that(1))
  next
    fix s6 assume ft: "fork_tables m (m_addr m) ?r = Some (ENOMEM, s6)" "resized ?r s6"
    then have "thr (s6\<lparr>curspl := curspl s\<rparr>) (m_addr m) = Some (forked (t_cwd cth) name)"
      by (simp add: resized_def thr_def)
    then have "thread_fork m name s = Some (Inl ENOMEM, thread_free (m_addr m)
        (case t_cwd cth of NULL \<Rightarrow> s6\<lparr>curspl := curspl s\<rparr> | Ptr vn \<Rightarrow> VOP_DECREF vn (s6\<lparr>curspl := curspl s\<rparr>)))"
      using u ft(1) by (simp add: forked_def Let_def)
    with fork_undone [OF ft(2) assms(4) refl refl] that(2) show ?thesis by blast
  qed
qed

text \<open>The state that \<open>thread_bootstrap\<close> and \<open>scheduler_bootstrap\<close> leave.\<close>

lemma bootstrap_but:
  assumes "scheduler_bootstrap km0 s = Some s1" and "thread_bootstrap km1 km2 m s1 = Some (me, s')"
    and "ts_threads s = Map.empty"
  shows "threads_but 0 s'" and "cur_list s' = [me]" and "run_list s' = []" and "sleep_list s' = []"
proof -
  from assms(1) obtain q where q: "q_create km0 32 = Ptr q" "s1 = s\<lparr>runqueue := Ptr q\<rparr>"
    by (auto simp: scheduler_bootstrap_def split: nullable.splits)
  with q_create_spec [of 32 km0 q] have qi: "queue_inv q" "q_list q = []" by simp_all
  from assms(2) obtain a z where az: "array_create km1 = Ptr a" "array_create km2 = Ptr z"
      "me = m_addr m" "s' = snd (thread_create m ''<boot/menu>'' (s1\<lparr>sleepers := Ptr a, zombies := Ptr z\<rparr>))
        \<lparr>curthread := Ptr me, numthreads := 1\<rparr>" "m_thread m" "m_name m"
    by (auto simp: thread_bootstrap_def thread_create_def split: nullable.splits if_splits)
  have t: "table_ok (Ptr a)" "guy_list (Ptr a) = []" "table_ok (Ptr z)" "guy_list (Ptr z) = []"
    using array_create_guys [OF az(1)] array_create_guys [OF az(2)] table_ok_Ptr [of a "[]"] table_ok_Ptr [of z "[]"]
    by auto
  show "cur_list s' = [me]" "run_list s' = []" "sleep_list s' = []" "threads_but 0 s'"
    using az(3-6) q(2) qi t assms(3)
    by (auto simp: thread_create_def threads_but_def tables_ok_def live_list_def cur_list_def run_list_def
        sleep_list_def zombie_list_def check_stack_def split: if_splits)
qed

section \<open>Who runs next\<close>

lemma md_switch_total:
  "ts_threads s old \<noteq> None \<Longrightarrow> ts_threads s nu \<noteq> None \<Longrightarrow> \<exists>s'. md_switch old nu s = Some s'"
  by (auto simp: md_switch_def upd_thr_def thr_def)

text \<open>With something on the run queue the switch is determined, and it happens.\<close>

lemma mi_switch_out_next:
  assumes "threads_but k s" and "few_threads s" and "st \<noteq> S_RUN" and "curthread s = Ptr cur" and "curspl s > 0"
    and "st = S_ZOMB \<Longrightarrow> undead (the (ts_threads s cur))"
    and "park km st cur (s\<lparr>curthread := NULL\<rparr>) = Some (OK, s2)" and "run_list s2 = n # rs"
    and "parked st cur (s\<lparr>curthread := NULL\<rparr>) s2"
  obtains s' where "mi_switch_out km idle st s = Some s'" "curthread s' = Ptr n" "run_list s' = rs"
    "sleep_list s' = sleep_list s2" "zombie_list s' = zombie_list s2" "curspl s' = curspl s"
    "threads_but (k - (if st = S_ZOMB then 1 else 0)) s'" "few_threads s'"
proof -
  from assms(4) threads_butD(4) [OF assms(1)] obtain th where th: "ts_threads s cur = Some th"
    by (auto simp: cur_list_def thr_def)
  have st: "check_stack th" using assms(1) th unfolding threads_but_def by blast
  have s2: "tables_ok s2" "curspl s2 > 0" "ts_threads s2 = ts_threads s" "curspl s2 = curspl s"
    using assms(5,9) by (simp_all add: parked_def)
  obtain s3 where s3: "scheduler km idle s2 = Some (n, s3)" "moved s2 (sleep_list s2) rs s3"
    by (rule scheduler_run [OF s2(1,2) assms(8)])
  note f = moved_frame [OF s3(2)]
  have "mset (n # rs @ sleep_list s2) = mset (run_list s2 @ sleep_list s2)" using assms(8) by simp
  note but = parked_but [OF assms(1,4,9,3,6) this s3(2)]
  have "n \<in> set (cur_list (s3\<lparr>curthread := Ptr n\<rparr>))" by (simp add: cur_list_def)
  with threads_butD(4) [OF but] have "ts_threads s3 n \<noteq> None" by (simp add: thr_def)
  moreover have "ts_threads s3 cur \<noteq> None" using f(2) s2(3) th by simp
  ultimately obtain s' where s': "md_switch cur n (s3\<lparr>curthread := Ptr n\<rparr>) = Some s'"
    using md_switch_total [of "s3\<lparr>curthread := Ptr n\<rparr>" cur n] by auto
  have run: "mi_switch_out km idle st s = Some s'"
    using assms(4,5,7) th st s3(1) s' by (simp add: mi_switch_out_def thr_def)
  note md = md_switch_but [OF but s'] and inv = mi_switch_out_inv [OF assms(1-4,6) run]
  show ?thesis
    by (rule that [OF run]) (use md f s2(4) inv in \<open>simp_all add: run_list_def sleep_list_def zombie_list_def\<close>)
qed

text \<open>The current thread's structure is not touched by a switch except for its \<open>pcb\<close>.\<close>

definition room_for :: "kmalloc_outcome \<Rightarrow> tsys \<Rightarrow> bool" where
  "room_for km s \<longleftrightarrow> (\<forall>n. km n) \<or> length (run_list s) < run_room s"

lemma park_ready:
  assumes "tables_ok s" and "curspl s > 0" and "curthread s = NULL" and "length (run_list s) < 268435455"
    and "room_for km s"
  obtains s' where "park km S_READY cur s = Some (OK, s')" "parked S_READY cur s s'"
proof (rule make_runnable_cases [OF assms(1,2,4), of km cur])
  fix s' assume m: "make_runnable km cur s = Some (OK, s')" "moved s (sleep_list s) (run_list s @ [cur]) s'"
  note f = moved_frame [OF m(2)]
  show ?thesis
    by (rule that [of s']) (use m(1) f assms(3) in \<open>simp_all add: park_def parked_def\<close>)
next
  fix n assume "length (run_list s) = run_room s" "\<not> km n"
  with assms(5) show ?thesis by (auto simp: room_for_def)
qed

lemma thread_yield_rotates:
  assumes "threads_but 0 s" and "few_threads s" and "curthread s = Ptr cur" and "room_for km s"
  obtains s' where "thread_yield km idle s = Some s'" "cur_list s' @ run_list s' = run_list s @ [cur]"
    "sleep_list s' = sleep_list s" "threads_but 0 s'"
proof -
  let ?s1 = "s\<lparr>curspl := SPL_HIGH\<rparr>"
  note pre = threads_butD [OF assms(1)] and few = few_threads_lists [OF assms(1,2)]
  from assms(3) pre(4) have "ts_threads s cur \<noteq> None"
    by (auto simp: cur_list_def thr_def)
  then obtain s2 where s2: "upd_thr cur (set_resume (IN_YIELD (curspl s))) ?s1 = Some s2"
    by (auto simp: upd_thr_def thr_def)
  note f = upd_thr_frame [OF s2]
  have s2i: "threads_but 0 s2" "few_threads s2" "curthread s2 = Ptr cur" "curspl s2 > 0"
    using upd_thr_but [OF _ s2] assms(1-3) few_threads_dom [OF f(16)] f(1,6) by (simp_all add: SPL_HIGH_def)
  let ?s2 = "s2\<lparr>curthread := NULL\<rparr>"
  have v: "tables_ok ?s2" "curspl ?s2 > 0" "curthread ?s2 = NULL" "length (run_list ?s2) < 268435455" "room_for km ?s2"
      "run_list ?s2 = run_list s" "sleep_list ?s2 = sleep_list s"
    using pre(1) few f s2i(4) assms(4)
    by (simp_all add: tables_ok_def run_list_def sleep_list_def zombie_list_def room_for_def run_room_def)
  obtain s3 where s3: "park km S_READY cur ?s2 = Some (OK, s3)" "parked S_READY cur ?s2 s3"
    by (rule park_ready [OF v(1-5)])
  have r3: "run_list s3 = run_list s @ [cur]" "sleep_list s3 = sleep_list s"
    using s3(2) v(6,7) by (simp_all add: parked_def)
  then have "run_list s3 \<noteq> []" by simp
  then obtain n rs where n: "run_list s3 = n # rs" by (meson neq_Nil_conv)
  have "S_READY \<noteq> S_RUN" "S_READY = S_ZOMB \<Longrightarrow> undead (the (ts_threads s2 cur))" by simp_all
  then obtain s4 where s4: "mi_switch_out km idle S_READY s2 = Some s4" "curthread s4 = Ptr n" "run_list s4 = rs"
      "sleep_list s4 = sleep_list s3" "curspl s4 = curspl s2" "threads_but 0 s4" "few_threads s4"
    using mi_switch_out_next [OF s2i(1,2) _ s2i(3,4) _ s3(1) n s3(2), of idle] by auto
  have "curspl s4 > 0" using s4(5) s2i(4) by simp
  then obtain s5 where s5: "resume km s4 = Some s5" "threads_but 0 s5" "curthread s5 = curthread s4"
      "run_list s5 = run_list s4" "sleep_list s5 = sleep_list s4"
    by (rule resume_inv [OF s4(6,7) _ s4(2), of km])
  have "sleepers s \<noteq> NULL" using pre(1) by (auto elim: tables_okE)
  then have "thread_yield km idle s = Some s5"
    using s2 s4(1) s5(1) assms(3) by (simp add: thread_yield_def splhigh_def splx_def Let_def)
  then show ?thesis
    by (rule that) (use s5 s4 r3 n in \<open>simp_all add: cur_list_def\<close>)
qed

section \<open>Reachable states\<close>

text \<open>
  The steps of a running system: the calls of the thread interface in any order, changes of the
  interrupt level, and the current thread changing its own directory (\<open>vfs_setcurdir\<close>) or address
  space (\<open>runprogram\<close>). The address \<open>kmalloc\<close> gives for a thread structure is not one in use. There
  are never more thread structures than the 32-bit address space can hold: each has a page of stack.
\<close>

inductive tstep :: "tsys \<Rightarrow> tsys \<Rightarrow> bool" where
  fork: "thread_fork m name s = Some (r, s') \<Longrightarrow> m_addr m \<notin> dom (ts_threads s) \<Longrightarrow> few_threads s \<Longrightarrow> tstep s s'"
| yield: "thread_yield km idle s = Some s' \<Longrightarrow> few_threads s \<Longrightarrow> tstep s s'"
| sleep: "thread_sleep km idle addr s = Some s' \<Longrightarrow> few_threads s \<Longrightarrow> tstep s s'"
| exit: "thread_exit km idle s = Some s' \<Longrightarrow> few_threads s \<Longrightarrow> tstep s s'"
| wakeup: "thread_wakeup km addr s = Some s' \<Longrightarrow> few_threads s \<Longrightarrow> tstep s s'"
| spl: "splx n s = (old, s') \<Longrightarrow> tstep s s'"
| own: "curthread s = Ptr cur \<Longrightarrow> upd_thr cur (\<lambda>th. th\<lparr>t_cwd := c, t_vmspace := v\<rparr>) s = Some s' \<Longrightarrow> tstep s s'"

inductive treach :: "tsys \<Rightarrow> bool" where
  boot: "ts_threads s = Map.empty \<Longrightarrow> scheduler_bootstrap km0 s = Some s1 \<Longrightarrow>
    thread_bootstrap km1 km2 m s1 = Some (me, s') \<Longrightarrow> treach s'"
| step: "treach s \<Longrightarrow> tstep s s' \<Longrightarrow> treach s'"

lemma own_but:
  assumes "threads_but k s" and "curthread s = Ptr cur"
    and "upd_thr cur (\<lambda>th. th\<lparr>t_cwd := c, t_vmspace := v\<rparr>) s = Some s'"
  shows "threads_but k s'"
proof -
  note f = upd_thr_frame [OF assms(3)]
  have "cur \<notin> set (zombie_list s)"
    using assms(1,2) by (auto simp: threads_but_def live_list_def cur_list_def)
  moreover have "check_stack th" if "ts_threads s' u = Some th" for u th
  proof -
    have "check_stack (the (ts_threads s cur))"
      using domD [OF f(18)] assms(1) unfolding threads_but_def by force
    with that f(17) assms(1) show ?thesis
      by (auto simp: threads_but_def check_stack_def split: if_splits)
  qed
  ultimately show ?thesis
    using assms(1) f(5,12,13,14,16,17) by (auto simp: threads_but_def)
qed

lemma thread_fork_but:
  assumes "threads_but 0 s" and "few_threads s" and "m_addr m \<notin> dom (ts_threads s)"
    and "thread_fork m name s = Some (r, s')"
  shows "threads_but 0 s' \<and> asleep s' = asleep s"
proof (cases "curthread s")
  case NULL
  have "(ts_threads s)(m_addr m := None) = ts_threads s"
    using assms(3) by (auto simp: fun_eq_iff)
  with NULL assms(4) have "s' = s"
    by (auto simp: thread_fork_def thread_create_def thread_free_def upd_thr_def thr_def panic_simps split: if_splits)
  with assms(1) show ?thesis by simp
next
  case (Ptr cur)
  show ?thesis
  proof (rule thread_fork_cases [OF assms(1,2) Ptr assms(3), of name])
    fix c t assume "thread_fork m name s = Some (Inr (m_addr m), t)" "fork_done (m_addr m) c name s t"
    moreover have "m_addr m \<notin> set (sleep_list s)"
      using assms(3) threads_butD(2) [OF assms(1)] by (auto simp: thr_def)
    with calculation(2) have "asleep t = asleep s"
      unfolding asleep_def by (intro Collect_cong ex_cong1) (auto simp: fork_done_def sleepaddr_def thr_def)
    ultimately show ?thesis using assms(4) fork_done_but [OF assms(1,3)] by simp
  next
    fix t assume "thread_fork m name s = Some (Inl ENOMEM, t)" "resized s t"
    moreover from this have "asleep t = asleep s"
      by (simp add: resized_def asleep_def sleepaddr_def thr_def)
    ultimately show ?thesis using assms(4) resized_but [OF assms(1)] by simp
  qed
qed

lemma tstep_inv:
  assumes "tstep s s'" and "threads_inv s"
  shows "threads_inv s'"
  using assms unfolding threads_inv_but
proof (induction rule: tstep.induct)
  case (fork m name s r s')
  show ?case using thread_fork_but [OF fork(4,3,2,1)] by simp
next
  case (yield km idle s s')
  then show ?case using thread_yield_but by blast
next
  case (sleep km idle addr s s')
  then show ?case using thread_sleep_but by blast
next
  case (exit km idle s s')
  then show ?case using thread_exit_but by blast
next
  case (wakeup km addr s s')
  then show ?case using thread_wakeup_but by blast
next
  case (spl n s old s')
  then show ?case by (auto simp: splx_def)
next
  case (own s cur c v s')
  then show ?case by (blast intro: own_but)
qed

lemma treach_inv: "treach s \<Longrightarrow> threads_inv s"
proof (induction rule: treach.induct)
  case (boot s km0 s1 km1 km2 m me s')
  show ?case unfolding threads_inv_but by (rule bootstrap_but(1) [OF boot(2,3,1)])
next
  case (step s s')
  then show ?case by (blast intro: tstep_inv)
qed

section \<open>Concrete runs\<close>

text \<open>A machine that has just started, an allocator with memory and one without, and a run of forks.\<close>

definition cold :: tsys where
  "cold = \<lparr>ts_threads = Map.empty, curthread = NULL, sleepers = NULL, zombies = NULL, runqueue = NULL,
     numthreads = 0, curspl = 15, in_interrupt = 0, vn_refs = (\<lambda>_. 0), as_active = NULL, as_freed = []\<rparr>"

definition mem_ok :: "nat \<Rightarrow> fork_mem" where
  "mem_ok addr = \<lparr>m_addr = addr, m_thread = True, m_name = True, m_stack = True, m_sleepers = (\<lambda>_. True),
     m_zombies = (\<lambda>_. True), m_sched = (\<lambda>_. True), m_run = (\<lambda>_. True)\<rparr>"

definition booted :: tsys where
  "booted = (case scheduler_bootstrap (\<lambda>_. True) cold \<bind> thread_bootstrap (\<lambda>_. True) (\<lambda>_. True) (mem_ok 100)
     of Some (_, s) \<Rightarrow> s | None \<Rightarrow> cold)"

fun fork_run :: "nat list \<Rightarrow> tsys \<Rightarrow> tsys option" where
  "fork_run [] s = Some s"
| "fork_run (a # as) s = do {
     (r, s') \<leftarrow> thread_fork (mem_ok a) ''t'' s;
     fork_run as s'
   }"

lemma treach_booted: "treach booted"
proof -
  obtain s1 where s1: "scheduler_bootstrap (\<lambda>_. True) cold = Some s1"
    by (simp add: scheduler_bootstrap_def q_create_def Let_def)
  obtain me s' where s': "thread_bootstrap (\<lambda>_. True) (\<lambda>_. True) (mem_ok 100) s1 = Some (me, s')"
    by (simp add: thread_bootstrap_def array_create_def thread_create_def mem_ok_def)
  have "treach s'"
    by (rule treach.boot [OF _ s1 s']) (simp add: cold_def)
  then show ?thesis using s1 s' by (simp add: booted_def)
qed

lemma treach_fork_run:
  "fork_run as s = Some s' \<Longrightarrow> treach s \<Longrightarrow> distinct as \<Longrightarrow> set as \<inter> dom (ts_threads s) = {} \<Longrightarrow>
     card (dom (ts_threads s)) + length as < 268435454 \<Longrightarrow> treach s'"
proof (induction as arbitrary: s)
  case Nil
  then show ?case by simp
next
  case (Cons a as)
  then obtain r s1 where s1: "thread_fork (mem_ok a) ''t'' s = Some (r, s1)" "fork_run as s1 = Some s'"
    by (auto simp: panic_simps)
  have inv: "threads_but 0 s" using treach_inv [OF Cons.prems(2)] by (simp add: threads_inv_but)
  have fin: "finite (dom (ts_threads s))" using inv by (simp add: threads_but_def)
  have few: "few_threads s" using Cons.prems(5) by (simp add: few_threads_def)
  have fresh: "m_addr (mem_ok a) \<notin> dom (ts_threads s)" using Cons.prems(4) by (auto simp: mem_ok_def)
  have r: "treach s1"
    by (rule treach.step [OF Cons.prems(2)]) (rule tstep.fork [OF s1(1) fresh few])
  obtain cur where cur: "curthread s = Ptr cur"
    using s1(1) by (cases "curthread s")
      (auto simp: thread_fork_def thread_create_def mem_ok_def upd_thr_def thr_def panic_simps)
  have d: "dom (ts_threads s1) \<subseteq> insert a (dom (ts_threads s))"
  proof (rule thread_fork_cases [OF inv few cur fresh, of "''t''"])
    fix c t assume "thread_fork (mem_ok a) ''t'' s = Some (Inr (m_addr (mem_ok a)), t)"
      "fork_done (m_addr (mem_ok a)) c ''t'' s t"
    with s1(1) show ?thesis by (auto simp: fork_done_def mem_ok_def split: if_splits)
  next
    fix t assume "thread_fork (mem_ok a) ''t'' s = Some (Inl ENOMEM, t)" "resized s t"
    with s1(1) show ?thesis by (auto simp: resized_def)
  qed
  have "card (dom (ts_threads s1)) \<le> card (insert a (dom (ts_threads s)))"
    using d fin by (intro card_mono) auto
  also have "\<dots> \<le> Suc (card (dom (ts_threads s)))" by (simp add: card_insert_le_m1 fin card_insert_if)
  finally have "card (dom (ts_threads s1)) + length as < 268435454" using Cons.prems(5) by simp
  moreover have "set as \<inter> dom (ts_threads s1) = {}" using d Cons.prems(3,4) by auto
  ultimately show ?case using Cons.IH [OF s1(2) r] Cons.prems(3) by simp
qed

lemma booted_view: "dom (ts_threads booted) = {100}" "curthread booted = Ptr 100" "run_list booted = []"
    "sleep_list booted = []" "numthreads booted = 1"
  by (auto simp: booted_def cold_def scheduler_bootstrap_def q_create_def thread_bootstrap_def array_create_def
      thread_create_def mem_ok_def run_list_def sleep_list_def guy_list_def guys_def cells_def q_list_def q_count_def
      split: if_splits)

lemma fork_run_31: "map_option (\<lambda>s. (run_list s, run_room s)) (fork_run [0..<31] booted) = Some ([0..<31], 31)"
  by code_simp

lemma fork_run_31_yield: "(fork_run [0..<31] booted \<bind> thread_yield (\<lambda>_. False) []) = None"
  by code_simp

lemma few_booted: "few_threads booted"
  by (simp add: few_threads_def booted_view)

section \<open>Properties\<close>

text \<open>
  C11. In every state the thread system can reach, each thread structure is in exactly one place
  (current, run queue, \<open>sleepers\<close>, \<open>zombies\<close>) and no other structure is allocated, \<open>numthreads\<close>
  counts those that are not zombies, every stack guard is intact, every zombie has given up its
  directory and address space, and the three tables are well formed.
\<close>

theorem thread_system_inv:
  assumes "treach s"
  shows "threads_inv s"
  using assms by (rule treach_inv)

theorem thread_system_inv_witness: "threads_inv booted \<and> curthread booted = Ptr 100"
  using thread_system_inv [OF treach_booted] booted_view by simp

text \<open>
  C12. \<open>thread_wakeup\<close> with memory at hand returns, and moves exactly the sleepers on the address, in
  their order, to the end of the run queue; the others stay asleep in order, and afterwards
  \<open>thread_hassleepers\<close> finds nobody on that address.
\<close>

theorem thread_wakeup_all:
  assumes "threads_inv s" and "few_threads s" and "curspl s > 0" and "\<And>n. km n"
  shows "\<exists>s'. thread_wakeup km addr s = Some s'
    \<and> run_list s' = run_list s @ filter (\<lambda>t. sleepaddr s t = Ptr addr) (sleep_list s)
    \<and> sleep_list s' = filter (\<lambda>t. sleepaddr s t \<noteq> Ptr addr) (sleep_list s)
    \<and> curthread s' = curthread s \<and> ts_threads s' = ts_threads s
    \<and> thread_hassleepers addr s' = Some False"
proof -
  have but: "threads_but 0 s" using assms(1) by (simp add: threads_inv_but)
  note pre = threads_butD [OF but] and few = few_threads_lists [OF but assms(2)]
  from thread_wakeup_spec [OF pre(1) assms(3) pre(2), of km addr] few assms(4) obtain s' where
    s': "thread_wakeup km addr s = Some s'"
      "moved s (stays s addr (sleep_list s)) (run_list s @ wakes s addr (sleep_list s)) s'"
    by auto
  note f = moved_frame [OF s'(2)]
  have "thread_hassleepers addr s' = Some (wakes s' addr (sleep_list s') \<noteq> [])"
    using f assms(3) pre(2) by (intro thread_hassleepers_spec) (auto simp: stays_def)
  also have "wakes s' addr (sleep_list s') = []"
    using f by (simp add: wakes_def stays_def)
  finally show ?thesis
    using s' f by (simp add: wakes_def stays_def)
qed

theorem thread_wakeup_all_witness:
  "\<exists>s'. thread_wakeup (\<lambda>_. True) 7 booted = Some s' \<and> run_list s' = [] \<and> thread_hassleepers 7 s' = Some False"
proof -
  have "curspl booted > 0" by code_simp
  from thread_wakeup_all [OF treach_inv [OF treach_booted] few_booted this, of "\<lambda>_. True" 7] show ?thesis
    by (auto simp: booted_view)
qed

text \<open>
  C14. \<open>thread_yield\<close> is round robin: when the run queue has room or memory is at hand it returns, the
  thread at the head of the run queue runs next (the caller itself when it is empty), the caller is
  at the tail, and nobody falls asleep.
\<close>

theorem thread_yield_round_robin:
  assumes "threads_inv s" and "few_threads s" and "curthread s = Ptr cur"
    and "(\<forall>n. km n) \<or> length (run_list s) < run_room s"
  shows "\<exists>s'. thread_yield km idle s = Some s' \<and> cur_list s' @ run_list s' = run_list s @ [cur]
    \<and> sleep_list s' = sleep_list s \<and> numthreads s' = numthreads s \<and> threads_inv s'"
proof -
  have but: "threads_but 0 s" "room_for km s" using assms(1,4) by (simp_all add: threads_inv_but room_for_def)
  obtain s' where s': "thread_yield km idle s = Some s'" "cur_list s' @ run_list s' = run_list s @ [cur]"
      "sleep_list s' = sleep_list s" "threads_but 0 s'"
    by (rule thread_yield_rotates [OF but(1) assms(2,3) but(2)])
  have "length (live_list s') = length (live_list s)"
    using arg_cong [OF s'(2), of length] s'(3) assms(3) by (simp add: live_list_def cur_list_def)
  then have "numthreads s' = numthreads s"
    using s'(4) but(1) by (simp add: threads_but_def)
  with s' show ?thesis by (auto simp: threads_inv_but)
qed

theorem thread_yield_round_robin_witness:
  "\<exists>s'. thread_yield (\<lambda>_. False) [] booted = Some s' \<and> cur_list s' @ run_list s' = [100]"
proof -
  have "run_room booted = 31" by code_simp
  then show ?thesis
    using thread_yield_round_robin [OF treach_inv [OF treach_booted] few_booted booted_view(2), of "\<lambda>_. False" "[]"]
    by (auto simp: booted_view)
qed

text \<open>
  C15. \<open>thread_fork\<close> is all or nothing: either the new thread is at the end of the run queue, with a
  fresh stack and the caller's directory, and the count is one higher; or memory ran out and the
  threads, their places, the count and every directory's reference count are as before. Either way
  the interrupt level is restored and the invariant holds.
\<close>

theorem thread_fork_all_or_nothing:
  assumes "threads_inv s" and "few_threads s" and "curthread s = Ptr cur" and "m_addr m \<notin> dom (ts_threads s)"
  shows "\<exists>r s'. thread_fork m name s = Some (r, s') \<and> threads_inv s' \<and> curspl s' = curspl s
    \<and> curthread s' = curthread s \<and> sleep_list s' = sleep_list s
    \<and> (r = Inr (m_addr m) \<and> run_list s' = run_list s @ [m_addr m] \<and> numthreads s' = numthreads s + 1
       \<or> r = Inl ENOMEM \<and> run_list s' = run_list s \<and> numthreads s' = numthreads s
          \<and> ts_threads s' = ts_threads s \<and> vn_refs s' = vn_refs s)"
proof -
  have but: "threads_but 0 s" using assms(1) by (simp add: threads_inv_but)
  show ?thesis
  proof (rule thread_fork_cases [OF but assms(2-4), of name])
    fix c s' assume s': "thread_fork m name s = Some (Inr (m_addr m), s')" "fork_done (m_addr m) c name s s'"
    with fork_done_but [OF but assms(4) s'(2)] show ?thesis
      by (auto simp: fork_done_def threads_inv_but)
  next
    fix s' assume s': "thread_fork m name s = Some (Inl ENOMEM, s')" "resized s s'"
    with resized_but [OF but s'(2)] show ?thesis
      by (auto simp: resized_def threads_inv_but)
  qed
qed

theorem thread_fork_all_or_nothing_witness:
  "\<exists>r s'. thread_fork (mem_ok 5) ''menu'' booted = Some (r, s') \<and> threads_inv s' \<and> m_addr (mem_ok 5) = 5"
  using thread_fork_all_or_nothing [OF treach_inv [OF treach_booted] few_booted booted_view(2), of "mem_ok 5" "''menu''"]
  by (auto simp: booted_view mem_ok_def)

text \<open>
  C16. The room that \<open>thread_fork\<close> preallocates is one entry short: with 32 threads the run queue of
  32 slots holds only 31, so there is a reachable state in which \<open>thread_yield\<close> needs memory, and
  stops the kernel when there is none.
\<close>

theorem preallocation_one_short:
  "\<exists>s. treach s \<and> run_list s = [0..<31] \<and> run_room s = 31 \<and> thread_yield (\<lambda>_. False) [] s = None"
proof -
  from fork_run_31 obtain s where s: "fork_run [0..<31] booted = Some s" "run_list s = [0..<31]" "run_room s = 31"
    by auto
  have "treach s"
    by (rule treach_fork_run [OF s(1) treach_booted]) (auto simp: booted_view)
  with s fork_run_31_yield show ?thesis by auto
qed

end
