(* ===== verification/Ksynch.thy ===== *)
theory Ksynch
  imports Kthread_Inv
begin

text \<open>
  Semaphores, locks and condition variables: \<open>kern/thread/synch.c\<close> over the thread system. The state
  is the thread system with the stores of the three kinds of objects, keyed by address. An operation
  that blocks goes to sleep inside its loop; \<open>pcs\<close> records, for each thread, the loop it is in, with
  the saved interrupt level. \<open>P_loop\<close> and \<open>acquire_loop\<close> are those loops up to the next sleep: the
  flag of the result says whether the caller got through (\<open>False\<close>: it is asleep, and runs the loop
  again when it is picked). The condition variables of the source are unwritten stubs, and so they
  are here.
\<close>

section \<open>The operations\<close>

record semaphore =
  sem_name :: string
  sem_count :: int

record lock =
  lock_name :: string
  lock_val :: int
  owner :: "nat nullable"

record cv =
  cv_name :: string

datatype kpc = RUNNING | IN_P nat int | IN_ACQUIRE nat int

record ksync =
  tsy :: tsys
  sems :: "nat \<rightharpoonup> semaphore"
  lcks :: "nat \<rightharpoonup> lock"
  cvs :: "nat \<rightharpoonup> cv"
  pcs :: "nat \<Rightarrow> kpc"

text \<open>The allocator's answers for an object and the copy of its name.\<close>

record obj_mem =
  o_addr :: nat
  o_obj :: bool
  o_name :: bool

definition sem_create :: "obj_mem \<Rightarrow> string \<Rightarrow> int \<Rightarrow> ksync \<Rightarrow> (nat nullable \<times> ksync) option" where
  "sem_create m namearg initial_count s = do {
     kassert (initial_count \<ge> 0);
     if \<not> o_obj m then Some (NULL, s)
     else if \<not> o_name m then Some (NULL, s)
     else Some (Ptr (o_addr m),
       s\<lparr>sems := (sems s)(o_addr m \<mapsto> \<lparr>sem_name = namearg, sem_count = initial_count\<rparr>)\<rparr>)
   }"

definition sem_destroy :: "nat \<Rightarrow> ksync \<Rightarrow> ksync option" where
  "sem_destroy sem s = do {
     let (spl, t1) = splhigh (tsy s);
     h \<leftarrow> thread_hassleepers sem t1;
     kassert (\<not> h);
     let t2 = snd (splx spl t1);
     _ \<leftarrow> sems s sem;
     Some (s\<lparr>tsy := t2, sems := (sems s)(sem := None)\<rparr>)
   }"

definition P_loop ::
  "kmalloc_outcome \<Rightarrow> nat nullable list \<Rightarrow> nat \<Rightarrow> int \<Rightarrow> ksync \<Rightarrow> (bool \<times> ksync) option" where
  "P_loop km idle sem spl s = do {
     cur \<leftarrow> deref (curthread (tsy s));
     sm \<leftarrow> sems s sem;
     if sem_count sm = 0 then do {
       t' \<leftarrow> thread_sleep km idle sem (tsy s);
       Some (False, s\<lparr>tsy := t', pcs := (pcs s)(cur := IN_P sem spl)\<rparr>)
     }
     else do {
       kassert (sem_count sm > 0);
       Some (True, s\<lparr>sems := (sems s)(sem \<mapsto> sm\<lparr>sem_count := sem_count sm - 1\<rparr>),
         tsy := snd (splx spl (tsy s)), pcs := (pcs s)(cur := RUNNING)\<rparr>)
     }
   }"

definition P :: "kmalloc_outcome \<Rightarrow> nat nullable list \<Rightarrow> nat \<Rightarrow> ksync \<Rightarrow> (bool \<times> ksync) option" where
  "P km idle sem s = do {
     kassert (in_interrupt (tsy s) = 0);
     let (spl, t1) = splhigh (tsy s);
     P_loop km idle sem spl (s\<lparr>tsy := t1\<rparr>)
   }"

definition V :: "kmalloc_outcome \<Rightarrow> nat \<Rightarrow> ksync \<Rightarrow> ksync option" where
  "V km sem s = do {
     let (spl, t1) = splhigh (tsy s);
     sm \<leftarrow> sems s sem;
     let n = s32 (sem_count sm + 1);
     kassert (n > 0);
     t2 \<leftarrow> thread_wakeup km sem t1;
     Some (s\<lparr>sems := (sems s)(sem \<mapsto> sm\<lparr>sem_count := n\<rparr>), tsy := snd (splx spl t2)\<rparr>)
   }"

definition lock_create :: "obj_mem \<Rightarrow> string \<Rightarrow> ksync \<Rightarrow> nat nullable \<times> ksync" where
  "lock_create m name s =
     (if \<not> o_obj m then (NULL, s)
      else if \<not> o_name m then (NULL, s)
      else (Ptr (o_addr m), s\<lparr>lcks := (lcks s)(o_addr m \<mapsto> \<lparr>lock_name = name, lock_val = 1, owner = NULL\<rparr>)\<rparr>))"

definition lock_destroy :: "nat \<Rightarrow> ksync \<Rightarrow> ksync option" where
  "lock_destroy l s = do {
     lk \<leftarrow> lcks s l;
     kassert (lock_val lk = 1);
     Some (s\<lparr>lcks := (lcks s)(l := None)\<rparr>)
   }"

definition acquire_loop ::
  "kmalloc_outcome \<Rightarrow> nat nullable list \<Rightarrow> nat \<Rightarrow> int \<Rightarrow> ksync \<Rightarrow> (bool \<times> ksync) option" where
  "acquire_loop km idle l spl s = do {
     cur \<leftarrow> deref (curthread (tsy s));
     lk \<leftarrow> lcks s l;
     if lock_val lk = 0 then do {
       t' \<leftarrow> thread_sleep km idle l (tsy s);
       Some (False, s\<lparr>tsy := t', pcs := (pcs s)(cur := IN_ACQUIRE l spl)\<rparr>)
     }
     else do {
       kassert (lock_val lk = 1);
       Some (True, s\<lparr>lcks := (lcks s)(l \<mapsto> lk\<lparr>lock_val := 0, owner := Ptr cur\<rparr>),
         tsy := snd (splx spl (tsy s)), pcs := (pcs s)(cur := RUNNING)\<rparr>)
     }
   }"

definition lock_acquire :: "kmalloc_outcome \<Rightarrow> nat nullable list \<Rightarrow> nat \<Rightarrow> ksync \<Rightarrow> (bool \<times> ksync) option" where
  "lock_acquire km idle l s = do {
     let (spl, t1) = splhigh (tsy s);
     lk \<leftarrow> lcks s l;
     kassert (owner lk \<noteq> curthread t1);
     acquire_loop km idle l spl (s\<lparr>tsy := t1\<rparr>)
   }"

text \<open>
  The assertion in \<open>lock_release\<close> assigns (\<open>lock->owner = curthread\<close>): it only checks that there is a
  current thread.
\<close>

definition lock_release :: "kmalloc_outcome \<Rightarrow> nat \<Rightarrow> ksync \<Rightarrow> ksync option" where
  "lock_release km l s = do {
     let (spl, t1) = splhigh (tsy s);
     lk \<leftarrow> lcks s l;
     let lk1 = lk\<lparr>owner := curthread t1\<rparr>;
     kassert (owner lk1 \<noteq> NULL);
     let lk2 = lk1\<lparr>lock_val := 1\<rparr>;
     kassert (lock_val lk2 = 1);
     let lk3 = lk2\<lparr>owner := NULL\<rparr>;
     t2 \<leftarrow> thread_wakeup km l t1;
     Some (s\<lparr>lcks := (lcks s)(l \<mapsto> lk3), tsy := snd (splx spl t2)\<rparr>)
   }"

definition lock_do_i_hold :: "nat \<Rightarrow> ksync \<Rightarrow> (bool \<times> ksync) option" where
  "lock_do_i_hold l s = do {
     let (spl, t1) = splhigh (tsy s);
     lk \<leftarrow> lcks s l;
     Some (owner lk = curthread t1, s\<lparr>tsy := snd (splx spl t1)\<rparr>)
   }"

definition cv_create :: "obj_mem \<Rightarrow> string \<Rightarrow> ksync \<Rightarrow> nat nullable \<times> ksync" where
  "cv_create m name s =
     (if \<not> o_obj m then (NULL, s)
      else if \<not> o_name m then (NULL, s)
      else (Ptr (o_addr m), s\<lparr>cvs := (cvs s)(o_addr m \<mapsto> \<lparr>cv_name = name\<rparr>)\<rparr>))"

definition cv_destroy :: "nat \<Rightarrow> ksync \<Rightarrow> ksync option" where
  "cv_destroy c s = do { _ \<leftarrow> cvs s c; Some (s\<lparr>cvs := (cvs s)(c := None)\<rparr>) }"

definition cv_wait :: "nat \<Rightarrow> nat \<Rightarrow> ksync \<Rightarrow> ksync" where
  "cv_wait c l s = s"

definition cv_signal :: "nat \<Rightarrow> nat \<Rightarrow> ksync \<Rightarrow> ksync" where
  "cv_signal c l s = s"

definition cv_broadcast :: "nat \<Rightarrow> nat \<Rightarrow> ksync \<Rightarrow> ksync" where
  "cv_broadcast c l s = s"

section \<open>Runs\<close>

text \<open>
  A step is one call, or one more round of a blocked loop, of the current thread. What else the
  kernel does with threads is \<open>tstep\<close>; no other code sleeps on the address of a semaphore or lock.
  The events record who got through which operation.
\<close>

datatype kevent = P_done nat | V_done nat | Sem_destroyed nat | Acquired nat nat | Released nat nat | Other

definition idle_pc :: "ksync \<Rightarrow> bool" where
  "idle_pc s \<longleftrightarrow> (\<forall>t. curthread (tsy s) = Ptr t \<longrightarrow> pcs s t = RUNNING)"

definition objs :: "ksync \<Rightarrow> nat set" where
  "objs s = dom (sems s) \<union> dom (lcks s)"

inductive kstep :: "ksync \<Rightarrow> kevent \<Rightarrow> ksync \<Rightarrow> bool" where
  threads: "idle_pc s \<Longrightarrow> tstep (tsy s) t' \<Longrightarrow> (\<forall>x \<in> asleep t' - asleep (tsy s). snd x \<notin> Ptr ` objs s) \<Longrightarrow>
    kstep s Other (s\<lparr>tsy := t'\<rparr>)"
| sem_create: "idle_pc s \<Longrightarrow> o_addr m \<notin> objs s \<Longrightarrow> Ptr (o_addr m) \<notin> snd ` asleep (tsy s) \<Longrightarrow>
    n \<le> INT_MAX \<Longrightarrow> sem_create m name n s = Some (r, s') \<Longrightarrow> kstep s Other s'"
| sem_destroy: "idle_pc s \<Longrightarrow> sem_destroy sem s = Some s' \<Longrightarrow> kstep s (Sem_destroyed sem) s'"
| P: "idle_pc s \<Longrightarrow> few_threads (tsy s) \<Longrightarrow> P km idle sem s = Some (b, s') \<Longrightarrow>
    kstep s (if b then P_done sem else Other) s'"
| P_again: "curthread (tsy s) = Ptr t \<Longrightarrow> pcs s t = IN_P sem spl \<Longrightarrow> few_threads (tsy s) \<Longrightarrow>
    P_loop km idle sem spl s = Some (b, s') \<Longrightarrow> kstep s (if b then P_done sem else Other) s'"
| V: "idle_pc s \<Longrightarrow> few_threads (tsy s) \<Longrightarrow> V km sem s = Some s' \<Longrightarrow> kstep s (V_done sem) s'"
| lock_create: "idle_pc s \<Longrightarrow> o_addr m \<notin> objs s \<Longrightarrow> Ptr (o_addr m) \<notin> snd ` asleep (tsy s) \<Longrightarrow>
    lock_create m name s = (r, s') \<Longrightarrow> kstep s Other s'"
| lock_destroy: "idle_pc s \<Longrightarrow> lock_destroy l s = Some s' \<Longrightarrow> kstep s Other s'"
| acquire: "curthread (tsy s) = Ptr t \<Longrightarrow> pcs s t = RUNNING \<Longrightarrow> few_threads (tsy s) \<Longrightarrow>
    lock_acquire km idle l s = Some (b, s') \<Longrightarrow> kstep s (if b then Acquired l t else Other) s'"
| acquire_again: "curthread (tsy s) = Ptr t \<Longrightarrow> pcs s t = IN_ACQUIRE l spl \<Longrightarrow> few_threads (tsy s) \<Longrightarrow>
    acquire_loop km idle l spl s = Some (b, s') \<Longrightarrow> kstep s (if b then Acquired l t else Other) s'"
| release: "curthread (tsy s) = Ptr t \<Longrightarrow> pcs s t = RUNNING \<Longrightarrow> few_threads (tsy s) \<Longrightarrow>
    lock_release km l s = Some s' \<Longrightarrow> kstep s (Released l t) s'"

inductive krun :: "ksync \<Rightarrow> kevent list \<Rightarrow> ksync \<Rightarrow> bool" where
  nil: "krun s [] s"
| snoc: "krun s evs s' \<Longrightarrow> kstep s' e s'' \<Longrightarrow> krun s (evs @ [e]) s''"

section \<open>The invariant\<close>

definition waited :: "ksync \<Rightarrow> nat \<Rightarrow> bool" where
  "waited s a \<longleftrightarrow> Ptr a \<in> snd ` asleep (tsy s)"

definition sem_ok :: "ksync \<Rightarrow> nat \<Rightarrow> semaphore \<Rightarrow> bool" where
  "sem_ok s a sm \<longleftrightarrow> 0 \<le> sem_count sm \<and> sem_count sm \<le> INT_MAX \<and> (sem_count sm > 0 \<longrightarrow> \<not> waited s a)"

definition lock_ok :: "ksync \<Rightarrow> nat \<Rightarrow> lock \<Rightarrow> bool" where
  "lock_ok s l lk \<longleftrightarrow> (if owner lk = NULL then lock_val lk = 1 \<and> \<not> waited s l else lock_val lk = 0)"

definition sync_inv :: "ksync \<Rightarrow> bool" where
  "sync_inv s \<longleftrightarrow> threads_inv (tsy s) \<and> dom (sems s) \<inter> dom (lcks s) = {}
     \<and> (\<forall>a sm. sems s a = Some sm \<longrightarrow> sem_ok s a sm)
     \<and> (\<forall>l lk. lcks s l = Some lk \<longrightarrow> lock_ok s l lk)"

lemma asleep_curspl [simp]: "asleep (t\<lparr>curspl := c\<rparr>) = asleep t"
  by (simp add: asleep_def)

lemma threads_inv_curspl [simp]: "threads_inv (t\<lparr>curspl := c\<rparr>) = threads_inv t"
  by (simp add: threads_inv_but)

text \<open>
  A step that leaves the objects alone and whose new sleepers are not on the address of one, and a
  step that writes one object.
\<close>

lemma sync_inv_mono:
  assumes "sync_inv s" and "threads_inv (tsy s')" and "sems s' = sems s" and "lcks s' = lcks s"
    and "\<And>a. a \<in> objs s \<Longrightarrow> waited s' a \<Longrightarrow> waited s a
      \<or> (\<exists>sm. sems s a = Some sm \<and> sem_count sm = 0) \<or> (\<exists>lk. lcks s a = Some lk \<and> owner lk \<noteq> NULL)"
  shows "sync_inv s'"
proof -
  have d: "dom (sems s) \<inter> dom (lcks s) = {}" using assms(1) by (simp add: sync_inv_def)
  have "sem_ok s' a sm" if sm: "sems s a = Some sm" for a sm
  proof -
    have "lcks s a = None" using d sm by blast
    moreover have "sem_ok s a sm" "a \<in> objs s" using sm assms(1) by (auto simp: sync_inv_def objs_def)
    ultimately show ?thesis using assms(5) [of a] sm by (auto simp: sem_ok_def)
  qed
  moreover have "lock_ok s' l lk" if lk: "lcks s l = Some lk" for l lk
  proof -
    have "sems s l = None" using d lk by blast
    moreover have "lock_ok s l lk" "l \<in> objs s" using lk assms(1) by (auto simp: sync_inv_def objs_def)
    ultimately show ?thesis using assms(5) [of l] lk by (auto simp: lock_ok_def split: if_splits)
  qed
  ultimately show ?thesis
    using assms(2-4) d by (simp add: sync_inv_def)
qed

lemma sem_ok_mono: "sem_ok s a sm \<Longrightarrow> (waited s' a \<Longrightarrow> waited s a) \<Longrightarrow> sem_ok s' a sm"
  by (auto simp: sem_ok_def)

lemma lock_ok_mono: "lock_ok s a lk \<Longrightarrow> (waited s' a \<Longrightarrow> waited s a) \<Longrightarrow> lock_ok s' a lk"
  by (auto simp: lock_ok_def)

lemma sync_inv_sem:
  assumes "sync_inv s" and "threads_inv (tsy s')" and "sems s' = (sems s)(a \<mapsto> sm)" and "lcks s' = lcks s"
    and "a \<notin> dom (lcks s)" and w: "\<And>b. waited s' b \<Longrightarrow> waited s b" and "sem_ok s' a sm"
  shows "sync_inv s'"
proof -
  have "dom (sems s') \<inter> dom (lcks s') = {}" using assms(1,3-5) by (auto simp: sync_inv_def)
  moreover have "sem_ok s' b x" if "sems s' b = Some x" for b x
  proof (cases "b = a")
    case True
    with that assms(3,7) show ?thesis by simp
  next
    case False
    with that assms(1,3) have "sem_ok s b x" by (simp add: sync_inv_def)
    then show ?thesis using w by (rule sem_ok_mono)
  qed
  moreover have "lock_ok s' l lk" if "lcks s' l = Some lk" for l lk
  proof -
    have "lock_ok s l lk" using that assms(1,4) by (simp add: sync_inv_def)
    then show ?thesis using w by (rule lock_ok_mono)
  qed
  ultimately show ?thesis using assms(2) by (simp add: sync_inv_def)
qed

lemma sync_inv_lock:
  assumes "sync_inv s" and "threads_inv (tsy s')" and "lcks s' = (lcks s)(a \<mapsto> lk)" and "sems s' = sems s"
    and "a \<notin> dom (sems s)" and w: "\<And>b. waited s' b \<Longrightarrow> waited s b" and "lock_ok s' a lk"
  shows "sync_inv s'"
proof -
  have "dom (sems s') \<inter> dom (lcks s') = {}" using assms(1,3-5) by (auto simp: sync_inv_def)
  moreover have "lock_ok s' b x" if "lcks s' b = Some x" for b x
  proof (cases "b = a")
    case True
    with that assms(3,7) show ?thesis by simp
  next
    case False
    with that assms(1,3) have "lock_ok s b x" by (simp add: sync_inv_def)
    then show ?thesis using w by (rule lock_ok_mono)
  qed
  moreover have "sem_ok s' l sm" if "sems s' l = Some sm" for l sm
  proof -
    have "sem_ok s l sm" using that assms(1,4) by (simp add: sync_inv_def)
    then show ?thesis using w by (rule sem_ok_mono)
  qed
  ultimately show ?thesis using assms(2) by (simp add: sync_inv_def)
qed

lemma sync_inv_locks:
  assumes "sync_inv s"
  shows "sems s a = Some sm \<Longrightarrow> a \<notin> dom (lcks s)" "lcks s a = Some lk \<Longrightarrow> a \<notin> dom (sems s)"
    "sems s a = Some sm \<Longrightarrow> sem_ok s a sm" "lcks s a = Some lk \<Longrightarrow> lock_ok s a lk" "threads_but 0 (tsy s)"
proof -
  show "sems s a = Some sm \<Longrightarrow> a \<notin> dom (lcks s)" "lcks s a = Some lk \<Longrightarrow> a \<notin> dom (sems s)"
    using assms unfolding sync_inv_def by blast+
qed (use assms in \<open>simp_all add: sync_inv_def threads_inv_but\<close>)

lemma waited_insert:
  "asleep (tsy s') \<subseteq> insert (t, Ptr a) (asleep (tsy s)) \<Longrightarrow> waited s' b \<Longrightarrow> waited s b \<or> b = a"
  unfolding waited_def by force

lemma waited_minus:
  "asleep (tsy s') = asleep (tsy s) - UNIV \<times> {Ptr a} \<Longrightarrow> waited s' b \<longleftrightarrow> waited s b \<and> b \<noteq> a"
  unfolding waited_def by force

lemma sleep_waited:
  assumes "sync_inv s" and "few_threads (tsy s)" and "thread_sleep km idle a (tsy s) = Some (tsy s')"
  shows "waited s' b \<Longrightarrow> waited s b \<or> b = a" and "threads_inv (tsy s')"
proof -
  note sl = thread_sleep_but [OF sync_inv_locks(5) [OF assms(1)] assms(2,3)]
  then show "threads_inv (tsy s')" by (simp add: threads_inv_but)
  from sl show "waited s' b \<Longrightarrow> waited s b \<or> b = a" using waited_insert by blast
qed

lemma P_loop_inv:
  assumes "sync_inv s" and "few_threads (tsy s)" and "P_loop km idle sem spl s = Some (b, s')"
  shows "sync_inv s'"
proof -
  from assms(3) obtain cur sm where c: "curthread (tsy s) = Ptr cur" "sems s sem = Some sm"
    by (cases "curthread (tsy s)") (auto simp: P_loop_def panic_simps)
  note o = sync_inv_locks [OF assms(1)]
  show ?thesis
  proof (cases "sem_count sm = 0")
    case True
    with assms(3) c obtain t' where t': "thread_sleep km idle sem (tsy s) = Some t'"
        "s' = s\<lparr>tsy := t', pcs := (pcs s)(cur := IN_P sem spl)\<rparr>"
      by (auto simp: P_loop_def panic_simps)
    then have "thread_sleep km idle sem (tsy s) = Some (tsy s')" by simp
    note sl = sleep_waited [OF assms(1,2) this]
    show ?thesis
      by (rule sync_inv_mono [OF assms(1)])
        (use t' sl c(2) True in auto)
  next
    case False
    with assms(3) c have s': "s' = s\<lparr>sems := (sems s)(sem \<mapsto> sm\<lparr>sem_count := sem_count sm - 1\<rparr>),
         tsy := snd (splx spl (tsy s)), pcs := (pcs s)(cur := RUNNING)\<rparr>"
      by (auto simp: P_loop_def panic_simps)
    have w: "waited s' = waited s" by (simp add: s' splx_def waited_def fun_eq_iff)
    show ?thesis
      by (rule sync_inv_sem [OF assms(1), of s' sem "sm\<lparr>sem_count := sem_count sm - 1\<rparr>"])
        (use s' w o(1,3) [OF c(2)] False assms(1) in \<open>auto simp: sem_ok_def splx_def sync_inv_def\<close>)
  qed
qed

lemma acquire_loop_inv:
  assumes "sync_inv s" and "few_threads (tsy s)" and "acquire_loop km idle l spl s = Some (b, s')"
  shows "sync_inv s'"
proof -
  from assms(3) obtain cur lk where c: "curthread (tsy s) = Ptr cur" "lcks s l = Some lk"
    by (cases "curthread (tsy s)") (auto simp: acquire_loop_def panic_simps)
  note o = sync_inv_locks [OF assms(1)]
  show ?thesis
  proof (cases "lock_val lk = 0")
    case True
    with assms(3) c obtain t' where t': "thread_sleep km idle l (tsy s) = Some t'"
        "s' = s\<lparr>tsy := t', pcs := (pcs s)(cur := IN_ACQUIRE l spl)\<rparr>"
      by (auto simp: acquire_loop_def panic_simps)
    then have "thread_sleep km idle l (tsy s) = Some (tsy s')" by simp
    note sl = sleep_waited [OF assms(1,2) this]
    have "owner lk \<noteq> NULL" using o(4) [OF c(2)] True by (auto simp: lock_ok_def)
    then show ?thesis
      by (intro sync_inv_mono [OF assms(1)])
        (use t' sl c(2) in auto)
  next
    case False
    with assms(3) c have s': "s' = s\<lparr>lcks := (lcks s)(l \<mapsto> lk\<lparr>lock_val := 0, owner := Ptr cur\<rparr>),
         tsy := snd (splx spl (tsy s)), pcs := (pcs s)(cur := RUNNING)\<rparr>"
      by (auto simp: acquire_loop_def panic_simps)
    have w: "waited s' = waited s" by (simp add: s' splx_def waited_def fun_eq_iff)
    show ?thesis
      by (rule sync_inv_lock [OF assms(1), of s' l "lk\<lparr>lock_val := 0, owner := Ptr cur\<rparr>"])
        (use s' w o(2,4) [OF c(2)] assms(1) in \<open>auto simp: lock_ok_def splx_def sync_inv_def\<close>)
  qed
qed

lemma spl_inv:
  assumes "sync_inv s"
  shows "sync_inv (s\<lparr>tsy := (tsy s)\<lparr>curspl := c\<rparr>\<rparr>)"
  by (rule sync_inv_mono [OF assms]) (use assms in \<open>auto simp: sync_inv_def waited_def\<close>)

lemma V_inv:
  assumes "sync_inv s" and "few_threads (tsy s)" and "V km sem s = Some s'"
  shows "sync_inv s'"
proof -
  let ?s = "s\<lparr>tsy := (tsy s)\<lparr>curspl := SPL_HIGH\<rparr>\<rparr>"
  from assms(3) obtain sm t2 where t2: "sems s sem = Some sm" "0 < s32 (sem_count sm + 1)"
      "thread_wakeup km sem (tsy ?s) = Some t2"
      "s' = s\<lparr>sems := (sems s)(sem \<mapsto> sm\<lparr>sem_count := s32 (sem_count sm + 1)\<rparr>), tsy := t2\<lparr>curspl := curspl (tsy s)\<rparr>\<rparr>"
    by (auto simp: V_def splhigh_def splx_def panic_simps Let_def)
  note o = sync_inv_locks [OF assms(1)]
  have pre: "threads_but 0 (tsy ?s)" "few_threads (tsy ?s)" using o(5) assms(2) by simp_all
  have w: "waited s' b \<longleftrightarrow> waited s b \<and> b \<noteq> sem" "threads_inv t2" for b
    using thread_wakeup_but [OF pre t2(3)] waited_minus [of s' s sem b] t2(4) by (simp_all add: threads_inv_but)
  show ?thesis
    by (rule sync_inv_sem [OF assms(1), of s' sem "sm\<lparr>sem_count := s32 (sem_count sm + 1)\<rparr>"])
      (use t2 w o(1) [OF t2(1)] s32_range(2) in \<open>auto simp: sem_ok_def\<close>)
qed

lemma lock_release_inv:
  assumes "sync_inv s" and "few_threads (tsy s)" and "lock_release km l s = Some s'"
  shows "sync_inv s'"
proof -
  let ?s = "s\<lparr>tsy := (tsy s)\<lparr>curspl := SPL_HIGH\<rparr>\<rparr>"
  from assms(3) obtain lk t2 where t2: "lcks s l = Some lk" "thread_wakeup km l (tsy ?s) = Some t2"
      "s' = s\<lparr>lcks := (lcks s)(l \<mapsto> lk\<lparr>lock_val := 1, owner := NULL\<rparr>), tsy := t2\<lparr>curspl := curspl (tsy s)\<rparr>\<rparr>"
    by (auto simp: lock_release_def splhigh_def splx_def panic_simps Let_def)
  note o = sync_inv_locks [OF assms(1)]
  have pre: "threads_but 0 (tsy ?s)" "few_threads (tsy ?s)" using o(5) assms(2) by simp_all
  have w: "waited s' b \<longleftrightarrow> waited s b \<and> b \<noteq> l" "threads_inv t2" for b
    using thread_wakeup_but [OF pre t2(2)] waited_minus [of s' s l b] t2(3) by (simp_all add: threads_inv_but)
  show ?thesis
    by (rule sync_inv_lock [OF assms(1), of s' l "lk\<lparr>lock_val := 1, owner := NULL\<rparr>"])
      (use t2 w o(2) [OF t2(1)] in \<open>auto simp: lock_ok_def\<close>)
qed

lemma sync_inv_removed:
  assumes "sync_inv s" and "dom (sems s') \<subseteq> dom (sems s)" and "dom (lcks s') \<subseteq> dom (lcks s)"
    and "\<And>a sm. sems s' a = Some sm \<Longrightarrow> sems s a = Some sm" and "\<And>a lk. lcks s' a = Some lk \<Longrightarrow> lcks s a = Some lk"
    and "asleep (tsy s') = asleep (tsy s)" and "threads_inv (tsy s')"
  shows "sync_inv s'"
proof -
  have "waited s' = waited s" using assms(6) by (simp add: waited_def fun_eq_iff)
  then have "sem_ok s' = sem_ok s" "lock_ok s' = lock_ok s"
    by (simp_all add: sem_ok_def lock_ok_def fun_eq_iff)
  moreover have "dom (sems s') \<inter> dom (lcks s') = {}"
    using assms(1-3) unfolding sync_inv_def by blast
  ultimately show ?thesis
    using assms(1,4,5,7) by (simp add: sync_inv_def)
qed

lemma kstep_inv:
  assumes "kstep s e s'" and "sync_inv s"
  shows "sync_inv s'"
  using assms
proof (induction rule: kstep.induct)
  case (threads s t')
  have inv: "threads_inv t'" using threads(2,4) tstep_inv by (auto simp: sync_inv_def)
  have "waited s a" if "a \<in> objs s" "waited (s\<lparr>tsy := t'\<rparr>) a" for a
    using that threads(3) unfolding waited_def by force
  with inv show ?case by (intro sync_inv_mono [OF threads(4)]) auto
next
  case (sem_create s m n name r s')
  let ?sm = "\<lparr>sem_name = name, sem_count = n\<rparr>"
  have s': "s' = s \<or> s' = s\<lparr>sems := (sems s)(o_addr m \<mapsto> ?sm)\<rparr>" "n \<ge> 0"
    using sem_create(5) by (auto simp: sem_create_def panic_simps split: if_splits)
  have "sync_inv (s\<lparr>sems := (sems s)(o_addr m \<mapsto> ?sm)\<rparr>)"
    by (rule sync_inv_sem [OF sem_create(6), of _ "o_addr m" ?sm])
      (use sem_create(2,3,4,6) s'(2) in \<open>simp_all add: sync_inv_def objs_def waited_def sem_ok_def domIff\<close>)
  with s'(1) sem_create(6) show ?case by auto
next
  case (sem_destroy s sem s')
  then have "s' = s\<lparr>sems := (sems s)(sem := None)\<rparr>"
    by (auto simp: sem_destroy_def splhigh_def splx_def panic_simps Let_def)
  then show ?case
    by (intro sync_inv_removed [OF sem_destroy(3)]) (use sem_destroy(3) in \<open>auto simp: sync_inv_def split: if_splits\<close>)
next
  case (P s km idle sem b s')
  then have "P_loop km idle sem (curspl (tsy s)) (s\<lparr>tsy := (tsy s)\<lparr>curspl := SPL_HIGH\<rparr>\<rparr>) = Some (b, s')"
    by (auto simp: P_def splhigh_def splx_def panic_simps Let_def)
  then show ?case
    by (rule P_loop_inv [rotated 2]) (use spl_inv [OF P(4)] P(2) in simp_all)
next
  case (P_again s t sem spl km idle b s')
  then show ?case by (blast intro: P_loop_inv)
next
  case (V s km sem s')
  then show ?case by (blast intro: V_inv)
next
  case (lock_create s m name r s')
  let ?lk = "\<lparr>lock_name = name, lock_val = 1, owner = NULL\<rparr>"
  have s': "s' = s \<or> s' = s\<lparr>lcks := (lcks s)(o_addr m \<mapsto> ?lk)\<rparr>"
    using lock_create(4) by (auto simp: lock_create_def split: if_splits)
  have "sync_inv (s\<lparr>lcks := (lcks s)(o_addr m \<mapsto> ?lk)\<rparr>)"
    by (rule sync_inv_lock [OF lock_create(5), of _ "o_addr m" ?lk])
      (use lock_create(2,3,5) in \<open>simp_all add: sync_inv_def objs_def waited_def lock_ok_def domIff\<close>)
  with s' lock_create(5) show ?case by auto
next
  case (lock_destroy s l s')
  then have "s' = s\<lparr>lcks := (lcks s)(l := None)\<rparr>"
    by (auto simp: lock_destroy_def panic_simps)
  then show ?case
    by (intro sync_inv_removed [OF lock_destroy(3)]) (use lock_destroy(3) in \<open>auto simp: sync_inv_def split: if_splits\<close>)
next
  case (acquire s t km idle l b s')
  then have "acquire_loop km idle l (curspl (tsy s)) (s\<lparr>tsy := (tsy s)\<lparr>curspl := SPL_HIGH\<rparr>\<rparr>) = Some (b, s')"
    by (auto simp: lock_acquire_def splhigh_def splx_def panic_simps Let_def)
  then show ?case
    by (rule acquire_loop_inv [rotated 2]) (use spl_inv [OF acquire(5)] acquire(3) in simp_all)
next
  case (acquire_again s t l spl km idle b s')
  then show ?case by (blast intro: acquire_loop_inv)
next
  case (release s t km l s')
  then show ?case by (blast intro: lock_release_inv)
qed

lemma krun_inv: "krun s evs s' \<Longrightarrow> sync_inv s \<Longrightarrow> sync_inv s'"
proof (induction rule: krun.induct)
  case (snoc s evs s' e s'')
  show ?case by (rule kstep_inv [OF snoc(2) snoc.IH [OF snoc.prems]])
qed

section \<open>Who holds a lock, and what a semaphore counts\<close>

definition owners :: "ksync \<Rightarrow> nat \<Rightarrow> nat set" where
  "owners s l = (case lcks s l of None \<Rightarrow> {} | Some lk \<Rightarrow> (case owner lk of NULL \<Rightarrow> {} | Ptr t \<Rightarrow> {t}))"

text \<open>The threads between a completed \<open>lock_acquire\<close> and their own \<open>lock_release\<close>, from the events alone.\<close>

fun hold :: "nat \<Rightarrow> nat set \<Rightarrow> kevent \<Rightarrow> nat set" where
  "hold l X (Acquired l' t) = (if l' = l then insert t X else X)"
| "hold l X (Released l' t) = (if l' = l then X - {t} else X)"
| "hold l X e = X"

definition inside :: "nat \<Rightarrow> kevent list \<Rightarrow> nat set" where
  "inside l evs = foldl (hold l) {} evs"

text \<open>Only a thread that is inside releases the lock, as \<open>synch.h\<close> demands.\<close>

fun may :: "nat \<Rightarrow> nat set \<Rightarrow> kevent \<Rightarrow> bool" where
  "may l X (Released l' t) = (l' = l \<longrightarrow> t \<in> X)"
| "may l X e = True"

fun disciplined :: "nat \<Rightarrow> nat set \<Rightarrow> kevent list \<Rightarrow> bool" where
  "disciplined l X [] = True"
| "disciplined l X (e # es) = (may l X e \<and> disciplined l (hold l X e) es)"

lemma disciplined_append:
  "disciplined l X (es @ [e]) \<longleftrightarrow> disciplined l X es \<and> may l (foldl (hold l) X es) e"
  by (induction es arbitrary: X) simp_all

text \<open>The effect of each loop on owners and counts.\<close>

lemma P_loop_effect:
  assumes "P_loop km idle sem spl s = Some (b, s')"
  shows "lcks s' = lcks s" "\<exists>sm. sems s sem = Some sm
    \<and> (if b then sems s' = (sems s)(sem \<mapsto> sm\<lparr>sem_count := sem_count sm - 1\<rparr>) else sems s' = sems s)"
  using assms by (auto simp: P_loop_def panic_simps split: if_splits)

lemma acquire_loop_effect:
  assumes "acquire_loop km idle l spl s = Some (b, s')" and "curthread (tsy s) = Ptr t"
  shows "sems s' = sems s" "\<exists>lk. lcks s l = Some lk
    \<and> (if b then lock_val lk = 1 \<and> lcks s' = (lcks s)(l \<mapsto> lk\<lparr>lock_val := 0, owner := Ptr t\<rparr>) else lcks s' = lcks s)"
  using assms by (auto simp: acquire_loop_def panic_simps split: if_splits)

lemma free_owners: "sync_inv s \<Longrightarrow> lcks s l = Some lk \<Longrightarrow> lock_val lk = 1 \<Longrightarrow> owners s l = {}"
  using sync_inv_locks(4) [of s l lk] by (auto simp: owners_def lock_ok_def split: nullable.splits if_splits)

lemma kstep_owners:
  assumes "kstep s e s'" and "sync_inv s"
  shows "case e of
      Acquired l' t \<Rightarrow> owners s l' = {} \<and> owners s' l = (if l = l' then {t} else owners s l)
    | Released l' t \<Rightarrow> owners s' l = (if l = l' then {} else owners s l)
    | _ \<Rightarrow> owners s' l = owners s l"
  using assms
proof (induction rule: kstep.induct)
  case (threads s t')
  then show ?case by (simp add: owners_def)
next
  case (sem_create s m n name r s')
  then show ?case by (auto simp: sem_create_def panic_simps owners_def split: if_splits)
next
  case (sem_destroy s sem s')
  then show ?case by (auto simp: sem_destroy_def panic_simps owners_def Let_def split: prod.splits)
next
  case (P s km idle sem b s')
  then have "P_loop km idle sem (curspl (tsy s)) (s\<lparr>tsy := (tsy s)\<lparr>curspl := SPL_HIGH\<rparr>\<rparr>) = Some (b, s')"
    by (auto simp: P_def splhigh_def splx_def panic_simps Let_def)
  from P_loop_effect(1) [OF this] show ?case by (simp add: owners_def)
next
  case (P_again s t sem spl km idle b s')
  from P_loop_effect(1) [OF P_again(4)] show ?case by (simp add: owners_def)
next
  case (V s km sem s')
  then show ?case by (auto simp: V_def panic_simps owners_def Let_def split: prod.splits)
next
  case (lock_create s m name r s')
  then show ?case by (auto simp: lock_create_def owners_def objs_def split: if_splits option.splits)
next
  case (lock_destroy s m s')
  then obtain lk where lk: "lcks s m = Some lk" "lock_val lk = 1" "s' = s\<lparr>lcks := (lcks s)(m := None)\<rparr>"
    by (auto simp: lock_destroy_def panic_simps)
  with free_owners [OF lock_destroy(3) lk(1,2)] show ?case by (auto simp: owners_def)
next
  case (acquire s t km idle m b s')
  let ?s = "s\<lparr>tsy := (tsy s)\<lparr>curspl := SPL_HIGH\<rparr>\<rparr>"
  have r: "acquire_loop km idle m (curspl (tsy s)) ?s = Some (b, s')" "curthread (tsy ?s) = Ptr t"
    using acquire by (auto simp: lock_acquire_def splhigh_def splx_def panic_simps Let_def)
  from acquire_loop_effect(2) [OF r] free_owners [OF acquire(5), of m] show ?case by (auto simp: owners_def)
next
  case (acquire_again s t m spl km idle b s')
  from acquire_loop_effect(2) [OF acquire_again(4,1)] free_owners [OF acquire_again(5), of m] show ?case
    by (auto simp: owners_def)
next
  case (release s t km m s')
  then show ?case by (auto simp: lock_release_def panic_simps owners_def Let_def split: prod.splits)
qed

lemma krun_inside:
  assumes "krun s evs s'" and "sync_inv s" and "owners s l = {}" and "disciplined l {} evs"
  shows "inside l evs = owners s' l"
  using assms
proof (induction rule: krun.induct)
  case (nil s)
  then show ?case by (simp add: inside_def)
next
  case (snoc s evs s' e s'')
  then have d: "disciplined l {} evs" "may l (foldl (hold l) {} evs) e"
    by (simp_all only: disciplined_append)
  have IH: "foldl (hold l) {} evs = owners s' l"
    using snoc.IH [OF snoc.prems(1,2) d(1)] by (simp add: inside_def)
  have "sync_inv s'" using krun_inv [OF snoc(1) snoc.prems(1)] .
  note st = kstep_owners [OF snoc(2) this, of l]
  have one: "t \<in> owners s' l \<Longrightarrow> owners s' l = {t}" for t
    by (auto simp: owners_def split: option.splits nullable.splits)
  show ?case
    using st d(2) IH one by (cases e) (auto simp: inside_def split: if_splits)
qed

text \<open>How a step changes the count of a semaphore that it does not destroy.\<close>

fun delta :: "nat \<Rightarrow> kevent \<Rightarrow> int" where
  "delta a (P_done b) = (if a = b then - 1 else 0)"
| "delta a (V_done b) = (if a = b then 1 else 0)"
| "delta a e = 0"

lemma s32_incr: "0 \<le> n \<Longrightarrow> n \<le> INT_MAX \<Longrightarrow> 0 < s32 (n + 1) \<Longrightarrow> s32 (n + 1) = n + 1"
proof -
  assume n: "0 \<le> n" "n \<le> INT_MAX" and pos: "0 < s32 (n + 1)"
  have "n \<noteq> INT_MAX"
  proof
    assume "n = INT_MAX"
    with pos show False by (simp add: INT_MAX_def s32_def)
  qed
  with n show "s32 (n + 1) = n + 1" by (intro s32_id) auto
qed

lemma kstep_count:
  assumes "kstep s e s'" and "sync_inv s" and "sems s a = Some sm" and "e \<noteq> Sem_destroyed a"
  shows "\<exists>sm'. sems s' a = Some sm' \<and> sem_count sm' = sem_count sm + delta a e"
  using assms
proof (induction rule: kstep.induct)
  case (threads s t')
  then show ?case by simp
next
  case (sem_create s m n name r s')
  then show ?case by (auto simp: sem_create_def panic_simps objs_def split: if_splits)
next
  case (sem_destroy s sem s')
  then show ?case by (auto simp: sem_destroy_def panic_simps Let_def split: prod.splits)
next
  case (P s km idle sem b s')
  then have "P_loop km idle sem (curspl (tsy s)) (s\<lparr>tsy := (tsy s)\<lparr>curspl := SPL_HIGH\<rparr>\<rparr>) = Some (b, s')"
    by (auto simp: P_def splhigh_def splx_def panic_simps Let_def)
  from P_loop_effect(2) [OF this] P(5) show ?case by (auto split: if_splits)
next
  case (P_again s t sem spl km idle b s')
  from P_loop_effect(2) [OF P_again(4)] P_again(6) show ?case by (auto split: if_splits)
next
  case (V s km sem s')
  from V(4) V(5) have "sem_ok s a sm" by (rule sync_inv_locks(3))
  with V(3,5) s32_incr [of "sem_count sm"] show ?case
    by (auto simp: V_def panic_simps Let_def sem_ok_def split: prod.splits)
next
  case (lock_create s m name r s')
  then show ?case by (auto simp: lock_create_def split: if_splits)
next
  case (lock_destroy s l s')
  then show ?case by (auto simp: lock_destroy_def panic_simps)
next
  case (acquire s t km idle l b s')
  let ?s = "s\<lparr>tsy := (tsy s)\<lparr>curspl := SPL_HIGH\<rparr>\<rparr>"
  have r: "acquire_loop km idle l (curspl (tsy s)) ?s = Some (b, s')" "curthread (tsy ?s) = Ptr t"
    using acquire by (auto simp: lock_acquire_def splhigh_def splx_def panic_simps Let_def)
  from acquire_loop_effect(1) [OF r] acquire(6) show ?case by simp
next
  case (acquire_again s t l spl km idle b s')
  from acquire_loop_effect(1) [OF acquire_again(4,1)] acquire_again(6) show ?case by simp
next
  case (release s t km l s')
  then show ?case by (auto simp: lock_release_def panic_simps Let_def split: prod.splits)
qed

lemma krun_count:
  assumes "krun s evs s'" and "sync_inv s" and "sems s a = Some sm" and "Sem_destroyed a \<notin> set evs"
  shows "\<exists>sm'. sems s' a = Some sm' \<and> sem_count sm' = sem_count sm + sum_list (map (delta a) evs)"
  using assms
proof (induction rule: krun.induct)
  case (nil s)
  then show ?case by simp
next
  case (snoc s evs s' e s'')
  then obtain sm1 where sm1: "sems s' a = Some sm1" "sem_count sm1 = sem_count sm + sum_list (map (delta a) evs)"
    by auto
  have "e \<noteq> Sem_destroyed a" using snoc.prems(3) by auto
  from kstep_count [OF snoc(2) krun_inv [OF snoc(1) snoc.prems(1)] sm1(1) this] sm1(2) show ?case by auto
qed

section \<open>Concrete runs\<close>

definition sync0 :: ksync where
  "sync0 = \<lparr>tsy = booted, sems = [200 \<mapsto> \<lparr>sem_name = ''sem'', sem_count = 1\<rparr>],
     lcks = [300 \<mapsto> \<lparr>lock_name = ''lock'', lock_val = 1, owner = NULL\<rparr>], cvs = Map.empty, pcs = (\<lambda>_. RUNNING)\<rparr>"

lemma sync0_view:
  "tsy sync0 = booted" "sems sync0 200 = Some \<lparr>sem_name = ''sem'', sem_count = 1\<rparr>" "owners sync0 300 = {}"
  "lcks sync0 300 = Some \<lparr>lock_name = ''lock'', lock_val = 1, owner = NULL\<rparr>" "pcs sync0 t = RUNNING"
  "idle_pc sync0" "few_threads (tsy sync0)" "curthread (tsy sync0) = Ptr 100"
  by (simp_all add: sync0_def owners_def idle_pc_def few_booted booted_view)

lemma sync0_inv: "sync_inv sync0"
  using treach_inv [OF treach_booted] booted_view(4)
  by (auto simp: sync0_def sync_inv_def sem_ok_def lock_ok_def waited_def asleep_def INT_MAX_def split: if_splits)

lemma sync0_acquire: "\<exists>s'. lock_acquire (\<lambda>_. True) [] 300 sync0 = Some (True, s')
    \<and> lcks s' 300 = Some \<lparr>lock_name = ''lock'', lock_val = 0, owner = Ptr 100\<rparr>"
  using sync0_view by (simp add: lock_acquire_def acquire_loop_def splhigh_def splx_def Let_def)

lemma sync0_P: "\<exists>s'. P (\<lambda>_. True) [] 200 sync0 = Some (True, s')"
proof -
  have "in_interrupt booted = 0" by code_simp
  then show ?thesis using sync0_view by (simp add: P_def P_loop_def splhigh_def splx_def Let_def)
qed

lemma krun_one: "kstep s e s' \<Longrightarrow> krun s [e] s'"
  using krun.snoc [OF krun.nil, of s e s'] by simp

lemma sync0_run_acquire: "\<exists>s'. krun sync0 [Acquired 300 100] s' \<and> lcks s' 300 = Some \<lparr>lock_name = ''lock'', lock_val = 0, owner = Ptr 100\<rparr>"
  using sync0_acquire kstep.acquire [OF sync0_view(8,5,7), of "\<lambda>_. True" "[]" 300 True] krun_one by fastforce

lemma sync0_run_P: "\<exists>s'. krun sync0 [P_done 200] s'"
  using sync0_P kstep.P [OF sync0_view(6,7), of "\<lambda>_. True" "[]" 200 True] krun_one by fastforce

section \<open>Properties\<close>



text \<open>
  C20. Mutual exclusion: in a run in which only threads inside release the lock (what \<open>synch.h\<close>
  demands), at most one thread is inside at any time, and the lock's \<open>owner\<close> field is that thread.
\<close>

theorem lock_mutual_exclusion:
  assumes "krun s evs s'" and "sync_inv s" and "owners s l = {}" and "disciplined l {} evs"
    and "t \<in> inside l evs"
  shows "inside l evs = {t} \<and> (\<exists>lk. lcks s' l = Some lk \<and> owner lk = Ptr t \<and> lock_val lk = 0)"
proof -
  have o: "inside l evs = owners s' l" by (rule krun_inside [OF assms(1-4)])
  with assms(5) obtain lk where lk: "lcks s' l = Some lk" "owner lk = Ptr t" "owners s' l = {t}"
    by (auto simp: owners_def split: option.splits nullable.splits)
  with sync_inv_locks(4) [OF krun_inv [OF assms(1,2)] lk(1)] o show ?thesis
    by (simp add: lock_ok_def)
qed

theorem lock_mutual_exclusion_witness:
  "\<exists>s' lk. krun sync0 [Acquired 300 100] s' \<and> lcks s' 300 = Some lk \<and> owner lk = Ptr 100"
  using sync0_run_acquire lock_mutual_exclusion [OF _ sync0_inv sync0_view(3), of "[Acquired 300 100]" _ 100]
  by (fastforce simp: inside_def)

text \<open>
  C22. \<open>lock_release\<close> does not check who holds the lock: whatever thread is current, a lock held by
  another thread is set free (its assertion assigns the owner instead of comparing it).
\<close>

theorem lock_release_unchecked:
  assumes "sync_inv s" and "few_threads (tsy s)" and "curthread (tsy s) = Ptr t" and "\<And>n. km n"
    and "lcks s l = Some lk" and "owner lk = Ptr u" and "u \<noteq> t"
  shows "\<exists>s' lk'. lock_release km l s = Some s' \<and> lcks s' l = Some lk' \<and> lock_val lk' = 1 \<and> owner lk' = NULL"
proof -
  let ?t = "(tsy s)\<lparr>curspl := SPL_HIGH\<rparr>"
  have but: "threads_but 0 ?t" "few_threads ?t" "curspl ?t > 0"
    using sync_inv_locks(5) [OF assms(1)] assms(2) by (simp_all add: SPL_HIGH_def)
  from thread_wakeup_spec [OF threads_butD(1) [OF but(1)] but(3) threads_butD(2) [OF but(1)], of km l]
    few_threads_lists [OF but(1,2)] assms(4) obtain t2 where "thread_wakeup km l ?t = Some t2"
    by auto
  with assms(3,5) show ?thesis
    by (simp add: lock_release_def splhigh_def splx_def Let_def)
qed

definition sync1 :: ksync where
  "sync1 = sync0\<lparr>lcks := [300 \<mapsto> \<lparr>lock_name = ''lock'', lock_val = 0, owner = Ptr 7\<rparr>]\<rparr>"

lemma sync1_inv: "sync_inv sync1"
  using sync0_inv by (auto simp: sync1_def sync0_def sync_inv_def sem_ok_def lock_ok_def waited_def split: if_splits)

theorem lock_release_unchecked_witness:
  "\<exists>s' lk'. lock_release (\<lambda>_. True) 300 sync1 = Some s' \<and> lcks s' 300 = Some lk' \<and> lock_val lk' = 1"
  using lock_release_unchecked [OF sync1_inv, of 100 "\<lambda>_. True" 300 "\<lparr>lock_name = ''lock'', lock_val = 0, owner = Ptr 7\<rparr>" 7]
    sync0_view(7,8) by (auto simp: sync1_def)

text \<open>
  C21. Semaphore accounting: as long as the semaphore is not destroyed, its count is the initial one
  plus the completed \<open>V\<close>s minus the completed \<open>P\<close>s, and never negative; so no more \<open>P\<close>s complete than
  the initial count and the \<open>V\<close>s allow.
\<close>

theorem semaphore_accounting:
  assumes "krun s evs s'" and "sync_inv s" and "sems s a = Some sm" and "Sem_destroyed a \<notin> set evs"
  shows "\<exists>sm'. sems s' a = Some sm' \<and> 0 \<le> sem_count sm'
    \<and> sem_count sm' = sem_count sm + int (count_list evs (V_done a)) - int (count_list evs (P_done a))"
proof -
  have d: "sum_list (map (delta a) es) = int (count_list es (V_done a)) - int (count_list es (P_done a))" for es
  proof (induction es)
    case (Cons e es)
    then show ?case by (cases e) auto
  qed simp
  from krun_count [OF assms] obtain sm' where sm': "sems s' a = Some sm'"
      "sem_count sm' = sem_count sm + sum_list (map (delta a) evs)" by auto
  moreover have "0 \<le> sem_count sm'"
    using sync_inv_locks(3) [OF krun_inv [OF assms(1,2)] sm'(1)] by (simp add: sem_ok_def)
  ultimately show ?thesis using d [of evs] by auto
qed

theorem semaphore_accounting_witness:
  "\<exists>s' sm'. krun sync0 [P_done 200] s' \<and> sems s' 200 = Some sm' \<and> sem_count sm' = 0"
  using sync0_run_P semaphore_accounting [OF _ sync0_inv sync0_view(2), of "[P_done 200]"] by fastforce

end
