(* ===== verification/Klibc.thy ===== *)
theory Klibc
  imports Kprelude
begin

text \<open>
  The memory and string functions of \<open>lib/libc\<close> that the kernel shares with user programs
  (\<open>memcpy\<close>, \<open>memmove\<close>, \<open>memset\<close>, \<open>bzero\<close>, \<open>memcmp\<close>, \<open>strlen\<close>, \<open>strcpy\<close>, \<open>strcat\<close>, \<open>strcmp\<close>, \<open>strchr\<close>,
  \<open>strrchr\<close>, \<open>strtok_r\<close>, \<open>atoi\<close>), on a byte memory with unmapped addresses. A loop that may run away
  (a string with no terminator) is a \<open>partial_function\<close>: not returning is \<open>None\<close>, as is an access to
  an unmapped address. \<open>memcpy\<close> also runs under the fault handler of \<open>copyin\<close> and \<open>copyout\<close>, so its
  result keeps the memory reached before a fault.
\<close>

section \<open>Blocks of memory\<close>

fun rdbytes :: "mem \<Rightarrow> nat \<Rightarrow> nat \<Rightarrow> byte list option" where
  "rdbytes m a 0 = Some []"
| "rdbytes m a (Suc n) = do { b \<leftarrow> m a; bs \<leftarrow> rdbytes m (Suc a) n; Some (b # bs) }"

fun wrbytes :: "mem \<Rightarrow> nat \<Rightarrow> byte list \<Rightarrow> mem option" where
  "wrbytes m a [] = Some m"
| "wrbytes m a (b # bs) = (if m a = None then None else wrbytes (m(a \<mapsto> b)) (Suc a) bs)"

definition put :: "mem \<Rightarrow> nat \<Rightarrow> byte list \<Rightarrow> mem" where
  "put m a bs = (\<lambda>x. if a \<le> x \<and> x < a + length bs then Some (bs ! (x - a)) else m x)"

definition mapped :: "mem \<Rightarrow> nat \<Rightarrow> nat \<Rightarrow> bool" where
  "mapped m a n \<longleftrightarrow> (\<forall>i < n. m (a + i) \<noteq> None)"

definition block :: "mem \<Rightarrow> nat \<Rightarrow> nat \<Rightarrow> byte list" where
  "block m a n = map (\<lambda>i. the (m (a + i))) [0..<n]"

lemma length_block [simp]: "length (block m a n) = n"
  by (simp add: block_def)

lemma block_nth [simp]: "i < n \<Longrightarrow> block m a n ! i = the (m (a + i))"
  by (simp add: block_def)

lemma mapped_Suc: "mapped m a (Suc n) \<longleftrightarrow> m a \<noteq> None \<and> mapped m (Suc a) n"
  unfolding mapped_def by (metis Suc_less_eq add_Suc_right add_Suc add_0_right less_Suc_eq_0_disj)

lemma block_Suc: "block m a (Suc n) = the (m a) # block m (Suc a) n"
  by (simp add: block_def upt_conv_Cons map_Suc_upt [symmetric] comp_def del: upt_Suc)

lemma rdbytes_eq: "rdbytes m a n = (if mapped m a n then Some (block m a n) else None)"
proof (induction n arbitrary: a)
  case 0
  then show ?case by (simp add: mapped_def block_def)
next
  case (Suc n)
  then show ?case by (cases "m a") (auto simp: mapped_Suc block_Suc)
qed

lemma put_Cons: "put (m(a \<mapsto> b)) (Suc a) bs = put m a (b # bs)"
  by (auto simp: put_def fun_eq_iff nth_Cons')

lemma put_append: "put (put m a xs) (a + length xs) ys = put m a (xs @ ys)"
  by (auto simp: put_def fun_eq_iff nth_append)

lemma wrbytes_eq: "wrbytes m a bs = (if mapped m a (length bs) then Some (put m a bs) else None)"
proof (induction bs arbitrary: m a)
  case Nil
  then show ?case by (auto simp: mapped_def put_def fun_eq_iff)
next
  case (Cons b bs)
  have "mapped (m(a \<mapsto> b)) (Suc a) n = mapped m (Suc a) n" for n
    by (simp add: mapped_def)
  with Cons [of "m(a \<mapsto> b)" "Suc a"]
  have "wrbytes (m(a \<mapsto> b)) (Suc a) bs = (if mapped m (Suc a) (length bs) then Some (put m a (b # bs)) else None)"
    by (simp only: put_Cons)
  then show ?case by (simp add: mapped_Suc)
qed

lemma mapped_put [simp]: "mapped m a n \<Longrightarrow> mapped (put m b bs) a n"
  by (simp add: mapped_def put_def)

lemma mapped_sub: "mapped m a n \<Longrightarrow> i + k \<le> n \<Longrightarrow> mapped m (a + i) k"
  by (auto simp: mapped_def add.assoc)

section \<open>Copying\<close>

text \<open>One assignment \<open>d[i] = s[i]\<close> of \<open>w\<close> bytes, and the two loops over \<open>n\<close> such units.\<close>

definition move :: "nat \<Rightarrow> nat \<Rightarrow> nat \<Rightarrow> mem \<Rightarrow> mem option" where
  "move w d s m = do { bs \<leftarrow> rdbytes m s w; wrbytes m d bs }"

fun cpy_up :: "nat \<Rightarrow> nat \<Rightarrow> nat \<Rightarrow> nat \<Rightarrow> nat \<Rightarrow> mem \<Rightarrow> bool \<times> mem" where
  "cpy_up w d s i 0 m = (True, m)"
| "cpy_up w d s i (Suc n) m =
     (case move w (d + w * i) (s + w * i) m of
        None \<Rightarrow> (False, m)
      | Some m' \<Rightarrow> cpy_up w d s (Suc i) n m')"

fun cpy_down :: "nat \<Rightarrow> nat \<Rightarrow> nat \<Rightarrow> nat \<Rightarrow> mem \<Rightarrow> bool \<times> mem" where
  "cpy_down w d s 0 m = (True, m)"
| "cpy_down w d s (Suc i) m =
     (case move w (d + w * i) (s + w * i) m of
        None \<Rightarrow> (False, m)
      | Some m' \<Rightarrow> cpy_down w d s i m')"

definition aligned :: "nat \<Rightarrow> bool" where
  "aligned n \<longleftrightarrow> n mod 4 = 0"

definition memcpy :: "nat \<Rightarrow> nat \<Rightarrow> nat \<Rightarrow> mem \<Rightarrow> bool \<times> mem" where
  "memcpy dst src len m =
     (if aligned dst \<and> aligned src \<and> aligned len then cpy_up 4 dst src 0 (len div 4) m
      else cpy_up 1 dst src 0 len m)"

definition memmove :: "nat \<Rightarrow> nat \<Rightarrow> nat \<Rightarrow> mem \<Rightarrow> bool \<times> mem" where
  "memmove dst src len m =
     (if dst < src then memcpy dst src len m
      else if aligned dst \<and> aligned src \<and> aligned len then cpy_down 4 dst src (len div 4) m
      else cpy_down 1 dst src len m)"

lemma move_eq:
  "mapped m s w \<Longrightarrow> mapped m d w \<Longrightarrow> move w d s m = Some (put m d (block m s w))"
  by (simp add: move_def rdbytes_eq wrbytes_eq)

text \<open>The memory in which the units \<open>i\<close> to \<open>j - 1\<close> have been copied from \<open>m\<close>.\<close>

definition copied :: "nat \<Rightarrow> nat \<Rightarrow> nat \<Rightarrow> nat \<Rightarrow> mem \<Rightarrow> mem" where
  "copied d s lo hi m = (\<lambda>x. if d + lo \<le> x \<and> x < d + hi then m (s + (x - d)) else m x)"

lemma mapped_copied:
  assumes "mapped m s len" and "hi \<le> len" and "mapped m a k"
  shows "mapped (copied d s lo hi m) a k"
  unfolding mapped_def
proof (intro allI impI)
  fix i assume i: "i < k"
  show "copied d s lo hi m (a + i) \<noteq> None"
  proof (cases "d + lo \<le> a + i \<and> a + i < d + hi")
    case True
    then have "a + i - d < len" using assms(2) by linarith
    with assms(1) have "m (s + (a + i - d)) \<noteq> None" unfolding mapped_def by blast
    with True show ?thesis by (simp only: copied_def) simp
  next
    case False
    then have "copied d s lo hi m (a + i) = m (a + i)" by (auto simp: copied_def)
    with assms(3) i show ?thesis by (simp add: mapped_def)
  qed
qed

lemma copied_extend_up:
  assumes "mapped m s len" and "lo \<le> hi" and "hi + w \<le> len" and "d < s \<or> s + len \<le> d"
  shows "put (copied d s lo hi m) (d + hi) (block (copied d s lo hi m) (s + hi) w) = copied d s lo (hi + w) m"
proof
  fix x
  have same: "copied d s lo hi m (s + hi + i) = m (s + hi + i)" if "i < w" for i
    using that assms by (auto simp: copied_def)
  show "put (copied d s lo hi m) (d + hi) (block (copied d s lo hi m) (s + hi) w) x = copied d s lo (hi + w) m x"
  proof (cases "d + hi \<le> x \<and> x < d + hi + w")
    case True
    then have i: "x - (d + hi) < w" "s + hi + (x - (d + hi)) = s + (x - d)" by auto
    have "x - d < len" using assms(3) True by linarith
    then have "m (s + (x - d)) \<noteq> None" using assms(1) by (simp add: mapped_def)
    with True i same [OF i(1)] assms(2) show ?thesis
      by (auto simp: put_def copied_def)
  next
    case False
    then show ?thesis using assms(2) by (auto simp: put_def copied_def)
  qed
qed

lemma copied_extend_down:
  assumes "mapped m s len" and "lo + w \<le> hi" and "hi \<le> len" and "s \<le> d"
  shows "put (copied d s (lo + w) hi m) (d + lo) (block (copied d s (lo + w) hi m) (s + lo) w) = copied d s lo hi m"
proof
  fix x
  have same: "copied d s (lo + w) hi m (s + lo + i) = m (s + lo + i)" if "i < w" for i
    using that assms by (auto simp: copied_def)
  show "put (copied d s (lo + w) hi m) (d + lo) (block (copied d s (lo + w) hi m) (s + lo) w) x = copied d s lo hi m x"
  proof (cases "d + lo \<le> x \<and> x < d + lo + w")
    case True
    then have i: "x - (d + lo) < w" "s + lo + (x - (d + lo)) = s + (x - d)" by auto
    have "x - d < len" using assms(2,3) True by linarith
    then have "m (s + (x - d)) \<noteq> None" using assms(1) by (simp add: mapped_def)
    with True i same [OF i(1)] assms(2) show ?thesis
      by (auto simp: put_def copied_def)
  next
    case False
    then show ?thesis using assms(2) by (auto simp: put_def copied_def)
  qed
qed

lemma cpy_up_correct:
  assumes "mapped m s (w * (i + n))" and "mapped m d (w * (i + n))" and "d < s \<or> s + w * (i + n) \<le> d"
  shows "cpy_up w d s i n (copied d s 0 (w * i) m) = (True, copied d s 0 (w * (i + n)) m)"
  using assms
proof (induction n arbitrary: i)
  case 0
  then show ?case by simp
next
  case (Suc n)
  let ?c = "copied d s 0 (w * i) m" and ?len = "w * (i + Suc n)"
  have fit: "w * i + w \<le> ?len" by simp
  have "mapped ?c (s + w * i) w" "mapped ?c (d + w * i) w"
    using mapped_copied [OF Suc.prems(1)] mapped_sub [OF Suc.prems(1) fit] mapped_sub [OF Suc.prems(2) fit] fit
    by (simp_all add: add_mult_distrib2)
  then have mv: "move w (d + w * i) (s + w * i) ?c = Some (copied d s 0 (w * i + w) m)"
    using copied_extend_up [OF Suc.prems(1) _ fit Suc.prems(3), of 0] by (simp add: move_eq)
  have "w * i + w = w * Suc i" "?len = w * (Suc i + n)" by simp_all
  with mv Suc.IH [of "Suc i"] Suc.prems show ?case by simp
qed

lemma cpy_down_correct:
  assumes "mapped m s (w * n)" and "mapped m d (w * n)" and "s \<le> d" and "i \<le> n"
  shows "cpy_down w d s i (copied d s (w * i) (w * n) m) = (True, copied d s 0 (w * n) m)"
  using assms(4)
proof (induction i)
  case 0
  then show ?case by simp
next
  case (Suc i)
  let ?c = "copied d s (w * Suc i) (w * n) m"
  have fit: "w * i + w \<le> w * n" using Suc.prems by (metis mult_Suc_right mult_le_mono2 add.commute)
  have "mapped ?c (s + w * i) w" "mapped ?c (d + w * i) w"
    using assms(1,2) fit by (auto intro!: mapped_copied [OF assms(1)] mapped_sub)
  then have "move w (d + w * i) (s + w * i) ?c = Some (copied d s (w * i) (w * n) m)"
    using copied_extend_down [OF assms(1) fit order_refl assms(3)] by (simp add: move_eq add.commute)
  with Suc show ?case by simp
qed

lemma copied_none: "copied d s a a m = m"
  by (auto simp: copied_def fun_eq_iff)

lemma memcpy_correct:
  assumes "mapped m src len" and "mapped m dst len" and "dst < src \<or> src + len \<le> dst"
  shows "memcpy dst src len m = (True, copied dst src 0 len m)"
proof (cases "aligned dst \<and> aligned src \<and> aligned len")
  case True
  then have "4 * (len div 4) = len" by (auto simp: aligned_def)
  with True cpy_up_correct [of m src 4 0 "len div 4" dst] assms show ?thesis
    by (simp add: memcpy_def copied_none)
next
  case False
  with cpy_up_correct [of m src 1 0 len dst] assms show ?thesis
    by (auto simp: memcpy_def copied_none)
qed

lemma memmove_correct:
  assumes "mapped m src len" and "mapped m dst len"
  shows "memmove dst src len m = (True, copied dst src 0 len m)"
proof (cases "dst < src")
  case True
  with memcpy_correct [OF assms] show ?thesis by (simp add: memmove_def)
next
  case False
  then have ge: "src \<le> dst" by simp
  show ?thesis
  proof (cases "aligned dst \<and> aligned src \<and> aligned len")
    case True
    then have "4 * (len div 4) = len" by (auto simp: aligned_def)
    with True False cpy_down_correct [of m src 4 "len div 4" dst "len div 4"] assms ge show ?thesis
      by (simp add: memmove_def copied_none)
  next
    case unaligned: False
    with False cpy_down_correct [of m src 1 len dst len] assms ge show ?thesis
      by (auto simp: memmove_def copied_none)
  qed
qed

section \<open>Filling and comparing\<close>

fun fill_loop :: "nat \<Rightarrow> byte \<Rightarrow> nat \<Rightarrow> nat \<Rightarrow> nat \<Rightarrow> mem \<Rightarrow> mem option" where
  "fill_loop w ch p i 0 m = Some m"
| "fill_loop w ch p i (Suc n) m = do {
     m' \<leftarrow> wrbytes m (p + w * i) (replicate w ch);
     fill_loop w ch p (Suc i) n m'
   }"

definition memset :: "nat \<Rightarrow> byte \<Rightarrow> nat \<Rightarrow> mem \<Rightarrow> mem option" where
  "memset p ch len m = fill_loop 1 ch p 0 len m"

definition bzero :: "nat \<Rightarrow> nat \<Rightarrow> mem \<Rightarrow> mem option" where
  "bzero p len m =
     (if aligned p \<and> aligned len then fill_loop 4 0 p 0 (len div 4) m
      else fill_loop 1 0 p 0 len m)"

fun memcmp_loop :: "nat \<Rightarrow> nat \<Rightarrow> nat \<Rightarrow> mem \<Rightarrow> int option" where
  "memcmp_loop a b 0 m = Some 0"
| "memcmp_loop a b (Suc n) m = do {
     x \<leftarrow> m a;
     y \<leftarrow> m b;
     if x \<noteq> y then Some (uint x - uint y) else memcmp_loop (Suc a) (Suc b) n m
   }"

definition memcmp :: "nat \<Rightarrow> nat \<Rightarrow> nat \<Rightarrow> mem \<Rightarrow> int option" where
  "memcmp av bv len m = memcmp_loop av bv len m"

lemma fill_loop_correct:
  assumes "mapped m p (w * (i + n))"
  shows "fill_loop w ch p i n (put m p (replicate (w * i) ch)) = Some (put m p (replicate (w * (i + n)) ch))"
  using assms
proof (induction n arbitrary: i)
  case 0
  then show ?case by simp
next
  case (Suc n)
  let ?m = "put m p (replicate (w * i) ch)"
  have "mapped ?m (p + w * i) w"
    using mapped_sub [OF Suc.prems, of "w * i" w] by simp
  moreover have "put ?m (p + w * i) (replicate w ch) = put m p (replicate (w * Suc i) ch)"
    by (auto simp: put_def fun_eq_iff)
  ultimately have "fill_loop w ch p i (Suc n) ?m = fill_loop w ch p (Suc i) n (put m p (replicate (w * Suc i) ch))"
    by (simp add: wrbytes_eq)
  also have "\<dots> = Some (put m p (replicate (w * (Suc i + n)) ch))"
    using Suc.prems by (intro Suc.IH) simp
  finally show ?case by simp
qed

lemma put_Nil [simp]: "put m a [] = m"
  by (auto simp: put_def fun_eq_iff)

lemma memset_correct: "mapped m p len \<Longrightarrow> memset p ch len m = Some (put m p (replicate len ch))"
  using fill_loop_correct [of m p 1 0 len ch] by (simp add: memset_def)

lemma bzero_correct:
  assumes "mapped m p len"
  shows "bzero p len m = Some (put m p (replicate len 0))"
proof (cases "aligned p \<and> aligned len")
  case True
  then have "4 * (len div 4) = len" by (auto simp: aligned_def)
  with True assms fill_loop_correct [of m p 4 0 "len div 4" 0] show ?thesis by (simp add: bzero_def)
next
  case False
  with assms fill_loop_correct [of m p 1 0 len 0] show ?thesis by (auto simp: bzero_def)
qed

lemma memcmp_zero_iff:
  assumes "mapped m a n" and "mapped m b n"
  shows "\<exists>r. memcmp a b n m = Some r \<and> (r = 0 \<longleftrightarrow> block m a n = block m b n)"
  using assms unfolding memcmp_def
proof (induction n arbitrary: a b)
  case 0
  then show ?case by (simp add: block_def)
next
  case (Suc n)
  then obtain x y where xy: "m a = Some x" "m b = Some y" "mapped m (Suc a) n" "mapped m (Suc b) n"
    by (auto simp: mapped_Suc)
  show ?case
  proof (cases "x = y")
    case True
    with Suc.IH [OF xy(3,4)] xy show ?thesis by (simp add: block_Suc)
  next
    case False
    then have "uint x - uint y \<noteq> 0" by (simp add: word_uint_eq_iff)
    with False xy show ?thesis by (simp add: block_Suc)
  qed
qed

section \<open>Strings\<close>

partial_function (option) strlen_from :: "mem \<Rightarrow> nat \<Rightarrow> nat \<Rightarrow> nat option" where
  "strlen_from m s ret = do {
     c \<leftarrow> m (s + ret);
     if c \<noteq> 0 then strlen_from m s (ret + 1) else Some ret
   }"

definition strlen :: "mem \<Rightarrow> nat \<Rightarrow> nat option" where
  "strlen m s = strlen_from m s 0"

partial_function (option) strcpy_from :: "nat \<Rightarrow> nat \<Rightarrow> nat \<Rightarrow> mem \<Rightarrow> mem option" where
  "strcpy_from dest src i m = do {
     c \<leftarrow> m (src + i);
     if c \<noteq> 0 then do { m' \<leftarrow> wrbytes m (dest + i) [c]; strcpy_from dest src (i + 1) m' }
     else wrbytes m (dest + i) [0]
   }"

definition strcpy :: "nat \<Rightarrow> nat \<Rightarrow> mem \<Rightarrow> mem option" where
  "strcpy dest src m = strcpy_from dest src 0 m"

definition strcat :: "nat \<Rightarrow> nat \<Rightarrow> mem \<Rightarrow> mem option" where
  "strcat dest src m = do { offset \<leftarrow> strlen m dest; strcpy (dest + offset) src m }"

text \<open>\<open>char\<close> is signed on this machine.\<close>

partial_function (option) strcmp_from :: "mem \<Rightarrow> nat \<Rightarrow> nat \<Rightarrow> nat \<Rightarrow> int option" where
  "strcmp_from m a b i = do {
     x \<leftarrow> m (a + i);
     y \<leftarrow> m (b + i);
     if x \<noteq> 0 \<and> x = y then strcmp_from m a b (i + 1)
     else Some (if sint x > sint y then 1 else if x = y then 0 else - 1)
   }"

definition strcmp :: "mem \<Rightarrow> nat \<Rightarrow> nat \<Rightarrow> int option" where
  "strcmp m a b = strcmp_from m a b 0"

partial_function (option) strchr_from :: "mem \<Rightarrow> byte \<Rightarrow> nat \<Rightarrow> nat nullable option" where
  "strchr_from m ch s = do {
     c \<leftarrow> m s;
     if c \<noteq> 0 then (if c = ch then Some (Ptr s) else strchr_from m ch (s + 1))
     else if c = ch then Some (Ptr s)
     else Some NULL
   }"

definition strchr :: "mem \<Rightarrow> nat \<Rightarrow> byte \<Rightarrow> nat nullable option" where
  "strchr m s ch = strchr_from m ch s"

fun strrchr_down :: "mem \<Rightarrow> nat \<Rightarrow> byte \<Rightarrow> nat \<Rightarrow> nat nullable option" where
  "strrchr_down m s ch 0 = Some NULL"
| "strrchr_down m s ch (Suc i) = do {
     c \<leftarrow> m (s + i);
     if c = ch then Some (Ptr (s + i)) else strrchr_down m s ch i
   }"

definition strrchr :: "mem \<Rightarrow> nat \<Rightarrow> byte \<Rightarrow> nat nullable option" where
  "strrchr m s ch = do { n \<leftarrow> strlen m s; strrchr_down m s ch (n + 1) }"

text \<open>The bytes \<open>xs\<close>, none of them null, stand at \<open>s\<close> and are followed by a null byte.\<close>

definition cstr :: "mem \<Rightarrow> nat \<Rightarrow> byte list \<Rightarrow> bool" where
  "cstr m s xs \<longleftrightarrow> 0 \<notin> set xs \<and> (\<forall>i < length xs. m (s + i) = Some (xs ! i)) \<and> m (s + length xs) = Some 0"

lemma cstr_at:
  assumes "cstr m s xs"
  shows "i < length xs \<Longrightarrow> m (s + i) = Some (xs ! i) \<and> xs ! i \<noteq> 0" "m (s + length xs) = Some 0"
proof -
  show "m (s + length xs) = Some 0" using assms by (simp add: cstr_def)
  assume i: "i < length xs"
  then have "xs ! i \<in> set xs" by simp
  with assms have "xs ! i \<noteq> 0" unfolding cstr_def by metis
  with assms i show "m (s + i) = Some (xs ! i) \<and> xs ! i \<noteq> 0" by (simp add: cstr_def)
qed

lemma strlen_from_cstr:
  assumes "cstr m s xs" and "i \<le> length xs"
  shows "strlen_from m s i = Some (length xs)"
  using assms(2)
proof (induction rule: inc_induct)
  case base
  then show ?case by (subst strlen_from.simps) (simp add: cstr_at(2) [OF assms(1)])
next
  case (step i)
  then show ?case by (subst strlen_from.simps) (simp add: cstr_at(1) [OF assms(1)])
qed

lemma strlen_cstr: "cstr m s xs \<Longrightarrow> strlen m s = Some (length xs)"
  by (simp add: strlen_def strlen_from_cstr)

lemma strcpy_from_cstr:
  assumes "cstr m src xs" and "mapped m dest (Suc (length xs))"
    and "dest + length xs < src \<or> src + length xs < dest" and "i \<le> length xs"
  shows "strcpy_from dest src i (put m dest (take i xs)) = Some (put m dest (xs @ [0]))"
  using assms(4)
proof (induction rule: inc_induct)
  case base
  have "put m dest xs (src + length xs) = Some 0"
    using cstr_at(2) [OF assms(1)] assms(3) by (auto simp: put_def)
  moreover have "mapped (put m dest xs) (dest + length xs) 1"
    using mapped_sub [OF assms(2), of "length xs" 1] by simp
  moreover have "put (put m dest xs) (dest + length xs) [0] = put m dest (xs @ [0])"
    by (auto simp: put_def fun_eq_iff nth_append)
  ultimately show ?case
    by (subst strcpy_from.simps) (simp add: wrbytes_eq del: wrbytes.simps)
next
  case (step i)
  let ?m = "put m dest (take i xs)"
  have "?m (src + i) = Some (xs ! i)" "xs ! i \<noteq> 0"
    using cstr_at(1) [OF assms(1) step.hyps(2)] assms(3) step.hyps(2) by (auto simp: put_def)
  moreover have "mapped ?m (dest + i) 1"
    using mapped_sub [OF assms(2), of i 1] step.hyps(2) by simp
  moreover have "put ?m (dest + i) [xs ! i] = put m dest (take (Suc i) xs)"
    using step.hyps(2) by (auto simp: put_def fun_eq_iff take_Suc_conv_app_nth nth_append)
  ultimately show ?case
    using step.IH by (subst strcpy_from.simps) (simp add: wrbytes_eq del: wrbytes.simps)
qed

lemma strcpy_cstr:
  assumes "cstr m src xs" and "mapped m dest (Suc (length xs))"
    and "dest + length xs < src \<or> src + length xs < dest"
  shows "strcpy dest src m = Some (put m dest (xs @ [0]))"
  using strcpy_from_cstr [OF assms, of 0] by (simp add: strcpy_def)

lemma cstr_put: "0 \<notin> set xs \<Longrightarrow> cstr (put m s (xs @ [0])) s xs"
  by (auto simp: cstr_def put_def nth_append)

lemma strcat_cstr:
  assumes "cstr m dest xs" and "cstr m src ys" and "mapped m dest (Suc (length xs + length ys))"
    and "dest + length xs + length ys < src \<or> src + length ys < dest"
  shows "\<exists>m'. strcat dest src m = Some m' \<and> cstr m' dest (xs @ ys)"
proof -
  let ?m = "put m (dest + length xs) (ys @ [0])"
  have "mapped m (dest + length xs) (Suc (length ys))"
    using mapped_sub [OF assms(3), of "length xs" "Suc (length ys)"] by simp
  then have run: "strcat dest src m = Some ?m"
    using strcpy_cstr [OF assms(2), of "dest + length xs"] strlen_cstr [OF assms(1)] assms(4)
    by (auto simp: strcat_def)
  have "?m (dest + i) = Some ((xs @ ys) ! i)" if "i < length (xs @ ys)" for i
  proof (cases "i < length xs")
    case True
    then show ?thesis using cstr_at(1) [OF assms(1) True] by (simp add: put_def nth_append)
  next
    case False
    with that show ?thesis by (auto simp: put_def nth_append)
  qed
  moreover have "0 \<notin> set (xs @ ys)" using assms(1,2) by (simp add: cstr_def)
  moreover have "?m (dest + length (xs @ ys)) = Some 0" by (simp add: put_def nth_append)
  ultimately have "cstr ?m dest (xs @ ys)" unfolding cstr_def by blast
  with run show ?thesis by blast
qed

text \<open>The order that \<open>strcmp\<close> computes, on the strings themselves.\<close>

fun scmp :: "byte list \<Rightarrow> byte list \<Rightarrow> int" where
  "scmp [] [] = 0"
| "scmp [] (y # ys) = (if 0 > sint y then 1 else - 1)"
| "scmp (x # xs) [] = (if sint x > 0 then 1 else - 1)"
| "scmp (x # xs) (y # ys) = (if x = y then scmp xs ys else if sint x > sint y then 1 else - 1)"

lemma scmp_zero: "scmp xs ys = 0 \<longleftrightarrow> xs = ys"
  by (induction xs ys rule: scmp.induct) auto

lemma cstr_tail: "cstr m s (x # xs) \<Longrightarrow> cstr m (Suc s) xs"
  by (auto simp: cstr_def nth_Cons' split: if_splits)

lemma strcmp_from_cstr:
  assumes "cstr m a xs" and "cstr m b ys" and "i \<le> length xs" and "i \<le> length ys"
  shows "strcmp_from m a b i = Some (scmp (drop i xs) (drop i ys))"
  using assms(3,4)
proof (induction "length xs - i" arbitrary: i)
  case 0
  then have i: "i = length xs" by simp
  show ?case
  proof (cases "i < length ys")
    case True
    then have "drop i ys = ys ! i # drop (Suc i) ys" by (simp add: Cons_nth_drop_Suc)
    with True i cstr_at(2) [OF assms(1)] cstr_at(1) [OF assms(2) True] show ?thesis
      by (subst strcmp_from.simps) auto
  next
    case False
    with 0 i cstr_at(2) [OF assms(1)] cstr_at(2) [OF assms(2)] show ?thesis
      by (subst strcmp_from.simps) auto
  qed
next
  case (Suc n)
  then have i: "i < length xs" by simp
  then have x: "drop i xs = xs ! i # drop (Suc i) xs" by (simp add: Cons_nth_drop_Suc)
  show ?case
  proof (cases "i < length ys")
    case True
    then have y: "drop i ys = ys ! i # drop (Suc i) ys" by (simp add: Cons_nth_drop_Suc)
    have "strcmp_from m a b (Suc i) = Some (scmp (drop (Suc i) xs) (drop (Suc i) ys))"
      using Suc i True by simp
    with x y cstr_at(1) [OF assms(1) i] cstr_at(1) [OF assms(2) True] show ?thesis
      by (subst strcmp_from.simps) auto
  next
    case False
    with Suc.prems have "i = length ys" by simp
    with x cstr_at(1) [OF assms(1) i] cstr_at(2) [OF assms(2)] show ?thesis
      by (subst strcmp_from.simps) auto
  qed
qed

lemma strcmp_cstr: "cstr m a xs \<Longrightarrow> cstr m b ys \<Longrightarrow> strcmp m a b = Some (scmp xs ys)"
  using strcmp_from_cstr [of m a xs b ys 0] by (simp add: strcmp_def)

lemma strchr_cstr:
  assumes "cstr m s xs"
  shows "strchr m s ch = Some (if ch \<in> set xs \<or> ch = 0 then Ptr (s + length (takeWhile (\<lambda>c. c \<noteq> ch) xs)) else NULL)"
  using assms unfolding strchr_def
proof (induction xs arbitrary: s)
  case Nil
  then have "m s = Some 0" by (simp add: cstr_def)
  then show ?case by (subst strchr_from.simps) auto
next
  case (Cons x xs)
  then have h: "m s = Some x" "x \<noteq> 0" by (auto simp: cstr_def)
  with Cons.IH [OF cstr_tail [OF Cons.prems]] show ?case
    by (subst strchr_from.simps) auto
qed

lemma strrchr_down_cstr:
  assumes "cstr m s xs" and "ch \<noteq> 0" and "i \<le> length xs"
  shows "strrchr_down m s ch i = Some (if ch \<in> set (take i xs)
     then Ptr (s + (i - 1 - length (takeWhile (\<lambda>c. c \<noteq> ch) (rev (take i xs))))) else NULL)"
  using assms(3)
proof (induction i)
  case 0
  then show ?case by simp
next
  case (Suc i)
  then have "take (Suc i) xs = take i xs @ [xs ! i]" by (simp add: take_Suc_conv_app_nth)
  with Suc cstr_at(1) [OF assms(1), of i] show ?case by auto
qed

lemma strrchr_cstr:
  assumes "cstr m s xs"
  shows "strrchr m s ch = Some (if ch = 0 then Ptr (s + length xs) else if ch \<in> set xs
     then Ptr (s + (length xs - 1 - length (takeWhile (\<lambda>c. c \<noteq> ch) (rev xs)))) else NULL)"
  using strrchr_down_cstr [OF assms, of ch "length xs"] strlen_cstr [OF assms] cstr_at(2) [OF assms]
  by (auto simp: strrchr_def)

section \<open>Tokens\<close>

partial_function (option) skip_seps :: "mem \<Rightarrow> nat \<Rightarrow> nat \<Rightarrow> nat option" where
  "skip_seps m seps head = do {
     c \<leftarrow> m head;
     if c \<noteq> 0 then do {
       w \<leftarrow> strchr m seps c;
       if w \<noteq> NULL then skip_seps m seps (head + 1) else Some head
     }
     else Some head
   }"

partial_function (option) skip_word :: "mem \<Rightarrow> nat \<Rightarrow> nat \<Rightarrow> nat option" where
  "skip_word m seps tail = do {
     c \<leftarrow> m tail;
     if c \<noteq> 0 then do {
       w \<leftarrow> strchr m seps c;
       if w = NULL then skip_word m seps (tail + 1) else Some tail
     }
     else Some tail
   }"

text \<open>The result, the new \<open>*context\<close>, and the memory in which the word has been terminated.\<close>

definition strtok_r ::
  "nat nullable \<Rightarrow> nat \<Rightarrow> nat nullable \<Rightarrow> mem \<Rightarrow> (nat nullable \<times> nat nullable \<times> mem) option" where
  "strtok_r str seps context m =
     (let context = (if str \<noteq> NULL then str else context)
      in case context of
           NULL \<Rightarrow> Some (NULL, context, m)
         | Ptr h0 \<Rightarrow> do {
             head \<leftarrow> skip_seps m seps h0;
             c \<leftarrow> m head;
             if c = 0 then Some (NULL, NULL, m)
             else do {
               tail \<leftarrow> skip_word m seps head;
               e \<leftarrow> m tail;
               if e = 0 then Some (Ptr head, NULL, m)
               else do {
                 m' \<leftarrow> wrbytes m tail [0];
                 Some (Ptr head, Ptr (tail + 1), m')
               }
             }
           })"

lemma cstr_drop: "cstr m s xs \<Longrightarrow> i \<le> length xs \<Longrightarrow> cstr m (s + i) (drop i xs)"
  unfolding cstr_def by (auto simp: add.assoc dest: in_set_dropD)

lemma skip_seps_cstr:
  assumes "cstr m seps ss" and "cstr m p xs"
  shows "skip_seps m seps p = Some (p + length (takeWhile (\<lambda>c. c \<in> set ss) xs))"
  using assms(2)
proof (induction xs arbitrary: p)
  case Nil
  then have "m p = Some 0" by (simp add: cstr_def)
  then show ?case by (subst skip_seps.simps) simp
next
  case (Cons x xs)
  then have "m p = Some x" "x \<noteq> 0" by (auto simp: cstr_def)
  with Cons.IH [OF cstr_tail [OF Cons.prems]] show ?case
    by (subst skip_seps.simps) (simp add: strchr_cstr [OF assms(1)])
qed

lemma skip_word_cstr:
  assumes "cstr m seps ss" and "cstr m p xs"
  shows "skip_word m seps p = Some (p + length (takeWhile (\<lambda>c. c \<notin> set ss) xs))"
  using assms(2)
proof (induction xs arbitrary: p)
  case Nil
  then have "m p = Some 0" by (simp add: cstr_def)
  then show ?case by (subst skip_word.simps) simp
next
  case (Cons x xs)
  then have "m p = Some x" "x \<noteq> 0" by (auto simp: cstr_def)
  with Cons.IH [OF cstr_tail [OF Cons.prems]] show ?case
    by (subst skip_word.simps) (simp add: strchr_cstr [OF assms(1)])
qed

text \<open>The words of a string, and a client that calls \<open>strtok_r\<close> until it is done.\<close>

function words :: "byte set \<Rightarrow> byte list \<Rightarrow> byte list list" where
  "words ss xs =
     (let ys = dropWhile (\<lambda>c. c \<in> ss) xs; w = takeWhile (\<lambda>c. c \<notin> ss) ys
      in if ys = [] then [] else w # words ss (drop (Suc (length w)) ys))"
  by pat_completeness auto
termination
proof (relation "measure (\<lambda>(ss, xs). length xs)")
  fix ss and xs ys w :: "byte list"
  assume "ys = dropWhile (\<lambda>c. c \<in> ss) xs" "ys \<noteq> []"
  moreover have "length (dropWhile (\<lambda>c. c \<in> ss) xs) \<le> length xs" by (rule length_dropWhile_le)
  ultimately have "length ys \<le> length xs" "0 < length ys" by auto
  then have "length ys - Suc (length w) < length xs" by linarith
  then show "((ss, drop (Suc (length w)) ys), ss, xs) \<in> measure (\<lambda>(ss, xs). length xs)"
    by simp
qed simp

declare words.simps [simp del]

fun strtok_all :: "nat \<Rightarrow> nat \<Rightarrow> nat nullable \<Rightarrow> nat nullable \<Rightarrow> mem \<Rightarrow> (nat list \<times> mem) option" where
  "strtok_all 0 seps str context m = None"
| "strtok_all (Suc n) seps str context m = do {
     (w, context', m') \<leftarrow> strtok_r str seps context m;
     case w of
       NULL \<Rightarrow> Some ([], m')
     | Ptr h \<Rightarrow> do { (hs, m'') \<leftarrow> strtok_all n seps NULL context' m'; Some (h # hs, m'') }
   }"

lemma cstr_cong: "cstr m s xs \<Longrightarrow> (\<And>x. s \<le> x \<Longrightarrow> x \<le> s + length xs \<Longrightarrow> m' x = m x) \<Longrightarrow> cstr m' s xs"
  by (simp add: cstr_def)

lemma strtok_r_step:
  assumes "cstr m p xs" and "cstr m seps ss" and "str = Ptr p \<or> str = NULL \<and> context = Ptr p"
    and "ys = dropWhile (\<lambda>c. c \<in> set ss) xs" and "w = takeWhile (\<lambda>c. c \<notin> set ss) ys"
    and "h = p + (length xs - length ys)"
  shows "strtok_r str seps context m =
     (if ys = [] then Some (NULL, NULL, m)
      else if length w = length ys then Some (Ptr h, NULL, m)
      else Some (Ptr h, Ptr (h + length w + 1), put m (h + length w) [0]))"
    and "ys \<noteq> [] \<Longrightarrow> length w = length ys \<Longrightarrow> cstr m h w"
    and "length w < length ys \<Longrightarrow> cstr (put m (h + length w) [0]) h w
      \<and> cstr (put m (h + length w) [0]) (h + length w + 1) (drop (Suc (length w)) ys)
      \<and> h + length w + 1 + length (drop (Suc (length w)) ys) = p + length xs"
proof -
  have le: "length ys \<le> length xs" using assms(4) by (simp add: length_dropWhile_le)
  have k: "length (takeWhile (\<lambda>c. c \<in> set ss) xs) = length xs - length ys"
  proof -
    have "length (takeWhile (\<lambda>c. c \<in> set ss) xs @ dropWhile (\<lambda>c. c \<in> set ss) xs) = length xs"
      by (simp only: takeWhile_dropWhile_id)
    then show ?thesis unfolding assms(4) length_append by linarith
  qed
  have "drop (length xs - length ys) xs = ys"
    unfolding k [symmetric] unfolding assms(4) by (rule dropWhile_eq_drop [symmetric])
  then have ch: "cstr m h ys"
    using cstr_drop [OF assms(1), of "length xs - length ys"] assms(6) by simp
  have sk: "skip_seps m seps p = Some h" "skip_word m seps h = Some (h + length w)"
    using skip_seps_cstr [OF assms(2,1)] skip_word_cstr [OF assms(2) ch] k assms(5,6) by simp_all
  have w: "take (length w) ys = w" unfolding assms(5) by (rule takeWhile_eq_take [symmetric])
  have lw: "length w \<le> length ys" using assms(5) by (simp add: length_takeWhile_le)
  have at: "m (h + length w) = (if length w = length ys then Some 0 else Some (ys ! length w))"
    using cstr_at [OF ch] lw by auto
  have nz: "length w < length ys \<Longrightarrow> ys ! length w \<noteq> 0" "ys \<noteq> [] \<Longrightarrow> m h = Some (hd ys) \<and> hd ys \<noteq> 0"
    using cstr_at(1) [OF ch] cstr_at(1) [OF ch, of 0] by (auto simp: hd_conv_nth)
  have ctx: "(if str \<noteq> NULL then str else context) = Ptr p" using assms(3) by auto
  show "strtok_r str seps context m =
     (if ys = [] then Some (NULL, NULL, m)
      else if length w = length ys then Some (Ptr h, NULL, m)
      else Some (Ptr h, Ptr (h + length w + 1), put m (h + length w) [0]))"
  proof (cases "ys = []")
    case True
    then have "m h = Some 0" using cstr_at(2) [OF ch] by simp
    with True sk(1) ctx show ?thesis by (simp add: strtok_r_def)
  next
    case False
    with nz sk ctx at lw show ?thesis
      by (auto simp: strtok_r_def wrbytes_eq mapped_def simp del: wrbytes.simps)
  qed
  show "ys \<noteq> [] \<Longrightarrow> length w = length ys \<Longrightarrow> cstr m h w"
    using ch w by (metis order_refl take_all_iff)
  assume less: "length w < length ys"
  have "cstr (put m (h + length w) [0]) h w"
    unfolding cstr_def
  proof (intro conjI allI impI)
    show "0 \<notin> set w"
    proof
      assume "0 \<in> set w"
      then have "0 \<in> set ys" using w in_set_takeD by metis
      with ch show False by (simp add: cstr_def)
    qed
    show "put m (h + length w) [0] (h + i) = Some (w ! i)" if "i < length w" for i
    proof -
      have "w ! i = ys ! i" using that w nth_take by metis
      with that cstr_at(1) [OF ch, of i] less show ?thesis by (simp add: put_def)
    qed
  qed (simp add: put_def)
  moreover have "cstr (put m (h + length w) [0]) (h + length w + 1) (drop (Suc (length w)) ys)"
  proof (rule cstr_cong)
    show "cstr m (h + length w + 1) (drop (Suc (length w)) ys)"
      using cstr_drop [OF ch, of "Suc (length w)"] less by simp
  qed (simp add: put_def)
  moreover have "h + length w + 1 + length (drop (Suc (length w)) ys) = p + length xs"
    using assms(6) le less by simp
  ultimately show "cstr (put m (h + length w) [0]) h w
      \<and> cstr (put m (h + length w) [0]) (h + length w + 1) (drop (Suc (length w)) ys)
      \<and> h + length w + 1 + length (drop (Suc (length w)) ys) = p + length xs" by blast
qed

lemma strtok_all_words:
  assumes "cstr m p xs" and "cstr m seps ss" and "length xs < fuel" and "str = Ptr p \<or> str = NULL \<and> ctx = Ptr p"
    and "seps + length ss < p \<or> p + length xs < seps"
  shows "\<exists>hs m'. strtok_all fuel seps str ctx m = Some (hs, m')
    \<and> list_all2 (cstr m') hs (words (set ss) xs) \<and> (\<forall>x. x < p \<or> p + length xs \<le> x \<longrightarrow> m' x = m x)"
  using assms
proof (induction fuel arbitrary: m p xs str ctx)
  case 0
  then show ?case by simp
next
  case (Suc fuel)
  define ys where "ys = dropWhile (\<lambda>c. c \<in> set ss) xs"
  define w where "w = takeWhile (\<lambda>c. c \<notin> set ss) ys"
  define h where "h = p + (length xs - length ys)"
  note st = strtok_r_step [OF Suc.prems(1,2,4) ys_def w_def h_def]
  have wds: "words (set ss) xs = (if ys = [] then [] else w # words (set ss) (drop (Suc (length w)) ys))"
    by (simp add: words.simps [of "set ss" xs] ys_def w_def Let_def)
  have lys: "length ys \<le> length xs" unfolding ys_def by (rule length_dropWhile_le)
  consider (none) "ys = []" | (last) "ys \<noteq> []" "length w = length ys" | (more) "ys \<noteq> []" "length w < length ys"
    using length_takeWhile_le [of "\<lambda>c. c \<notin> set ss" ys] unfolding w_def by force
  then show ?case
  proof cases
    case none
    with st(1) wds show ?thesis by simp
  next
    case last
    from Suc.prems(3) last(1) lys obtain f where f: "fuel = Suc f" by (cases fuel) auto
    have "words (set ss) [] = []" by (simp add: words.simps)
    moreover have "strtok_r NULL seps NULL m = Some (NULL, NULL, m)" by (simp add: strtok_r_def)
    ultimately show ?thesis
      using st(1,2) last wds f by simp
  next
    case more
    let ?m = "put m (h + length w) [0]" and ?q = "h + length w + 1" and ?zs = "drop (Suc (length w)) ys"
    note c = st(3) [OF more(2)]
    have h: "p \<le> h" "h + length w < p + length xs" using more(2) lys by (auto simp: h_def)
    have "cstr ?m seps ss"
      by (rule cstr_cong [OF Suc.prems(2)]) (use Suc.prems(5) h in \<open>auto simp: put_def\<close>)
    moreover have "seps + length ss < ?q \<or> ?q + length ?zs < seps" using c Suc.prems(5) h by auto
    moreover have "length ?zs < fuel" using Suc.prems(3) lys more by auto
    ultimately obtain hs m' where r: "strtok_all fuel seps NULL (Ptr ?q) ?m = Some (hs, m')"
        "list_all2 (cstr m') hs (words (set ss) ?zs)" "\<forall>x. x < ?q \<or> ?q + length ?zs \<le> x \<longrightarrow> m' x = ?m x"
      using Suc.IH [of ?m ?q ?zs NULL "Ptr ?q"] c by auto
    have "\<forall>x. h \<le> x \<longrightarrow> x \<le> h + length w \<longrightarrow> m' x = ?m x" using r(3) by simp
    with c have "cstr m' h w" by (blast intro: cstr_cong)
    moreover have "m' x = m x" if "x < p \<or> p + length xs \<le> x" for x
    proof -
      have "x < ?q \<or> ?q + length ?zs \<le> x" using conjunct2 [OF conjunct2 [OF c]] h that by linarith
      with r(3) have "m' x = ?m x" by blast
      also have "\<dots> = m x" using that h by (auto simp: put_def)
      finally show ?thesis .
    qed
    ultimately show ?thesis
      using st(1) more wds r by auto
  qed
qed

section \<open>Decimal numbers\<close>

text \<open>\<open>atoi\<close>: the value is accumulated in an \<open>unsigned\<close> and handed back as an \<open>int\<close>.\<close>

definition digits :: "byte list" where
  "digits = [48, 49, 50, 51, 52, 53, 54, 55, 56, 57]"

fun offset_in :: "byte list \<Rightarrow> byte \<Rightarrow> nat option" where
  "offset_in [] c = None"
| "offset_in (x # xs) c = (if x = c then Some 0 else map_option Suc (offset_in xs c))"

partial_function (option) skip_blanks :: "mem \<Rightarrow> nat \<Rightarrow> nat option" where
  "skip_blanks m s = do {
     c \<leftarrow> m s;
     if c = 32 \<or> c = 9 then skip_blanks m (s + 1) else Some s
   }"

partial_function (option) atoi_digits :: "mem \<Rightarrow> nat \<Rightarrow> 32 word \<Rightarrow> 32 word option" where
  "atoi_digits m s val = do {
     c \<leftarrow> m s;
     if c = 0 then Some val
     else case offset_in digits c of
       None \<Rightarrow> Some val
     | Some digit \<Rightarrow> atoi_digits m (s + 1) (val * 10 + of_nat digit)
   }"

definition atoi :: "mem \<Rightarrow> nat \<Rightarrow> int option" where
  "atoi m s = do {
     s \<leftarrow> skip_blanks m s;
     c \<leftarrow> m s;
     let neg = (c = 45);
     val \<leftarrow> atoi_digits m (if c = 45 \<or> c = 43 then s + 1 else s) 0;
     Some (if neg then sint (- val) else sint val)
   }"

text \<open>What the text denotes: the digits read from the left.\<close>

definition digit_char :: "nat \<Rightarrow> byte" where
  "digit_char d = of_nat (48 + d)"

definition decimal :: "nat list \<Rightarrow> nat" where
  "decimal ds = foldl (\<lambda>v d. v * 10 + d) 0 ds"

lemma offset_digits: "d < 10 \<Longrightarrow> offset_in digits (digit_char d) = Some d \<and> digit_char d \<notin> {0, 9, 32, 43, 45}"
proof -
  have "list_all (\<lambda>d. offset_in digits (digit_char d) = Some d \<and> digit_char d \<notin> {0, 9, 32, 43, 45}) [0..<10]"
    by code_simp
  then show "d < 10 \<Longrightarrow> ?thesis" by (simp add: list_all_iff)
qed

lemma skip_blanks_cstr:
  assumes "cstr m s (bs @ xs)" and "set bs \<subseteq> {32, 9}" and "xs = [] \<or> hd xs \<notin> {32, 9}"
  shows "skip_blanks m s = Some (s + length bs)"
  using assms(1,2)
proof (induction bs arbitrary: s)
  case Nil
  then have "\<exists>c. m s = Some c \<and> c \<noteq> 32 \<and> c \<noteq> 9"
    using assms(3) by (cases xs) (auto simp: cstr_def)
  then show ?case by (subst skip_blanks.simps) auto
next
  case (Cons b bs)
  have "m s = Some b" using Cons.prems(1) by (auto simp: cstr_def)
  moreover have "skip_blanks m (s + 1) = Some (s + 1 + length bs)"
    using Cons.IH [of "Suc s"] cstr_tail [of m s b "bs @ xs"] Cons.prems by simp
  ultimately show ?case using Cons.prems(2) by (subst skip_blanks.simps) auto
qed

lemma atoi_digits_cstr:
  assumes "cstr m s (map digit_char ds @ xs)" and "set ds \<subseteq> {..<10}" and "xs = [] \<or> offset_in digits (hd xs) = None"
  shows "atoi_digits m s (of_nat v) = Some (of_nat (foldl (\<lambda>v d. v * 10 + d) v ds))"
  using assms(1,2)
proof (induction ds arbitrary: s v)
  case Nil
  then have "\<exists>c. m s = Some c \<and> (c = 0 \<or> offset_in digits c = None)"
    using assms(3) by (cases xs) (auto simp: cstr_def)
  then show ?case by (subst atoi_digits.simps) (auto split: option.splits)
next
  case (Cons d ds)
  have "m s = Some (digit_char d)" using Cons.prems(1) by (auto simp: cstr_def)
  moreover have "atoi_digits m (s + 1) (of_nat (v * 10 + d)) = Some (of_nat (foldl (\<lambda>v d. v * 10 + d) (v * 10 + d) ds))"
    using Cons.IH [of "Suc s" "v * 10 + d"] cstr_tail [of m s "digit_char d" "map digit_char ds @ xs"] Cons.prems by simp
  ultimately show ?case using Cons.prems(2) offset_digits [of d] by (subst atoi_digits.simps) simp
qed

lemma atoi_cstr:
  assumes "cstr m s (bs @ sg @ map digit_char ds @ xs)" and "set bs \<subseteq> {32, 9}" and "sg \<in> {[], [45], [43]}"
    and "set ds \<subseteq> {..<10}" and "ds \<noteq> []" and "xs = [] \<or> offset_in digits (hd xs) = None"
  shows "atoi m s = Some (sint (if sg = [45] then - of_nat (decimal ds) else of_nat (decimal ds) :: 32 word))"
proof -
  obtain d ds' where ds: "ds = d # ds'" "d < 10" using assms(4,5) by (cases ds) auto
  note dc = conjunct2 [OF offset_digits [OF ds(2)]]
  have "hd (sg @ map digit_char ds @ xs) \<notin> {32, 9}" using dc assms(3) ds(1) by auto
  then have sk: "skip_blanks m s = Some (s + length bs)"
    using skip_blanks_cstr [OF assms(1,2)] by blast
  have c: "cstr m (s + length bs) (sg @ map digit_char ds @ xs)"
    using cstr_drop [OF assms(1), of "length bs"] by simp
  then have "cstr m (s + length bs + length sg) (map digit_char ds @ xs)"
    using cstr_drop [OF c, of "length sg"] by simp
  from atoi_digits_cstr [OF this assms(4,6), of 0]
  have a: "atoi_digits m (s + length bs + length sg) 0 = Some (of_nat (decimal ds))" by (simp add: decimal_def)
  have h: "m (s + length bs) = Some (hd (sg @ map digit_char ds @ xs))"
    using cstr_at(1) [OF c, of 0] ds(1) by (simp add: hd_conv_nth)
  show ?thesis
    using assms(3) sk a h dc ds(1) by (auto simp: atoi_def)
qed

section \<open>Properties\<close>

text \<open>C23. \<open>memmove\<close> returns and leaves, at each byte of the destination, the byte that stood at the
  corresponding place of the source before the call, and every other byte as it was: for every overlap
  of the two blocks, and whether the copy goes by words or by bytes, upwards or downwards.\<close>

theorem memmove_any_overlap:
  assumes "mapped m src len" and "mapped m dst len"
  shows "memmove dst src len m = (True, \<lambda>x. if dst \<le> x \<and> x < dst + len then m (src + (x - dst)) else m x)"
  using memmove_correct [OF assms] by (simp add: copied_def)

theorem memmove_any_overlap_witness:
  "memmove 6 4 4 (\<lambda>x. Some (of_nat x)) =
     (True, \<lambda>x. if 6 \<le> x \<and> x < 6 + 4 then Some (of_nat (4 + (x - 6))) else Some (of_nat x))"
  using memmove_any_overlap [of "\<lambda>x. Some (of_nat x)" 4 4 6] by (simp add: mapped_def)

text \<open>C24. A client that calls \<open>strtok_r\<close> first with the string and then with a null pointer gets the
  start of each word of the string in turn and then a null pointer: the calls return, each word is
  terminated in place when they are done, and no byte outside the string is written.\<close>

theorem strtok_r_words:
  assumes "cstr m p xs" and "cstr m seps ss" and "seps + length ss < p \<or> p + length xs < seps"
  shows "\<exists>hs m'. strtok_all (Suc (length xs)) seps (Ptr p) NULL m = Some (hs, m')
    \<and> list_all2 (cstr m') hs (words (set ss) xs) \<and> (\<forall>x. x < p \<or> p + length xs \<le> x \<longrightarrow> m' x = m x)"
  using strtok_all_words [OF assms(1,2), of "Suc (length xs)" "Ptr p" NULL] assms(3) by auto

definition two_strings :: mem where
  "two_strings = put (put Map.empty 10 ([97, 98, 32, 32, 99] @ [0])) 20 ([32] @ [0])"

lemma two_strings_cstr: "cstr two_strings 10 [97, 98, 32, 32, 99]" "cstr two_strings 20 [32]"
proof -
  have "cstr (put Map.empty 10 ([97, 98, 32, 32, 99] @ [0])) 10 [97, 98, 32, 32, 99]"
    by (rule cstr_put) simp
  then show "cstr two_strings 10 [97, 98, 32, 32, 99]"
    unfolding two_strings_def by (rule cstr_cong) (simp add: put_def)
  show "cstr two_strings 20 [32]"
    unfolding two_strings_def by (rule cstr_put) simp
qed

theorem strtok_r_words_witness:
  "\<exists>hs m'. strtok_all 6 20 (Ptr 10) NULL two_strings = Some (hs, m') \<and> list_all2 (cstr m') hs [[97, 98], [99]]"
proof -
  have "words (set [32]) [97, 98, 32, 32, 99] = [[97, 98], [99]]" by code_simp
  moreover have "Suc (length [97, 98, 32, 32, 99 :: byte]) = 6" by simp
  ultimately show ?thesis
    using strtok_r_words [OF two_strings_cstr] by (auto simp del: strtok_all.simps list.size)
qed

text \<open>C25. \<open>atoi\<close> returns on every text of blanks, an optional sign and at least one digit, whatever follows
  the digits, and its value is the number denoted, for every number an \<open>int\<close> can hold; a number out
  of that range is reduced modulo two to the thirty-two.\<close>

theorem atoi_value:
  assumes "cstr m s (bs @ sg @ map digit_char ds @ xs)" and "set bs \<subseteq> {32, 9}" and "sg \<in> {[], [45], [43]}"
    and "set ds \<subseteq> {..<10}" and "ds \<noteq> []" and "xs = [] \<or> offset_in digits (hd xs) = None"
    and "v = (if sg = [45] then - int (decimal ds) else int (decimal ds))"
  shows "atoi m s = Some (s32 v) \<and> (- 2147483648 \<le> v \<and> v \<le> INT_MAX \<longrightarrow> atoi m s = Some v)"
proof -
  have "sint (of_int v :: 32 word) = s32 v"
    by (simp add: s32_def signed_take_bit_int_eq_self sint_sbintrunc' signed_take_bit_eq_take_bit_shift take_bit_eq_mod)
  moreover have "(if sg = [45] then - of_nat (decimal ds) else of_nat (decimal ds)) = (of_int v :: 32 word)"
    using assms(7) by simp
  ultimately show ?thesis using atoi_cstr [OF assms(1-6)] by (simp add: s32_id)
qed

theorem atoi_value_witness:
  "atoi (put Map.empty 0 ([32, 45, 52, 50, 120] @ [0])) 0 = Some (- 42)"
  using atoi_value [of "put Map.empty 0 ([32, 45, 52, 50, 120] @ [0])" 0 "[32]" "[45]" "[4, 2]" "[120]" "- 42"]
    cstr_put [of "[32, 45, 52, 50, 120]" Map.empty 0]
  by (simp add: digit_char_def decimal_def digits_def INT_MAX_def s32_def)

end
