(* ===== verification/Kcopy.thy ===== *)
theory Kcopy
  imports Klibc
begin

text \<open>
  Copies between the kernel and the address space of the current process,
  \<open>kern/lib/copyinout.c\<close>.

  The memory is the address space the processor sees: user addresses below \<open>USERTOP\<close>, kernel
  addresses above. An access to an address that is not mapped is a fault. The recovery function
  \<open>copyfail\<close>, installed before each copy, turns a fault into the result \<open>EFAULT\<close>; what had been
  copied before the fault stays copied. Addresses and sizes are 32 bits wide, and their sums wrap.
\<close>

section \<open>Definitions\<close>

definition USERTOP :: nat where
  "USERTOP = 2147483648"

definition copycheck :: "nat \<Rightarrow> nat \<Rightarrow> rc \<times> nat" where
  "copycheck userptr len =
     (let bot = userptr; top = u32 (int bot + int len - 1)
      in if top < bot then (EFAULT, len)
         else if bot \<ge> USERTOP then (EFAULT, len)
         else (OK, if top \<ge> USERTOP then USERTOP - bot else len))"

definition copyin :: "nat \<Rightarrow> nat \<Rightarrow> nat \<Rightarrow> mem \<Rightarrow> rc \<times> mem" where
  "copyin usersrc dest len m =
     (let (result, stoplen) = copycheck usersrc len
      in if result \<noteq> OK then (result, m)
         else if stoplen \<noteq> len then (EFAULT, m)
         else let (returned, m') = memcpy dest usersrc len m
              in (if returned then OK else EFAULT, m'))"

definition copyout :: "nat \<Rightarrow> nat \<Rightarrow> nat \<Rightarrow> mem \<Rightarrow> rc \<times> mem" where
  "copyout src userdest len m =
     (let (result, stoplen) = copycheck userdest len
      in if result \<noteq> OK then (result, m)
         else if stoplen \<noteq> len then (EFAULT, m)
         else let (returned, m') = memcpy userdest src len m
              in (if returned then OK else EFAULT, m'))"

text \<open>
  The loop of \<open>copystr\<close> with the code it ends with: \<open>None\<close> is a fault, otherwise the result and
  the length stored through \<open>gotlen\<close>, if one is stored.
\<close>

function copystr_from :: "nat \<Rightarrow> nat \<Rightarrow> nat \<Rightarrow> nat \<Rightarrow> nat \<Rightarrow> mem \<Rightarrow> (rc \<times> nat option) option \<times> mem" where
  "copystr_from i dest src maxlen stoplen m =
     (if i < maxlen \<and> i < stoplen then
        (case move 1 (dest + i) (src + i) m of
           None \<Rightarrow> (None, m)
         | Some m' \<Rightarrow>
             (case m' (src + i) of
                None \<Rightarrow> (None, m')
              | Some c \<Rightarrow> if c = 0 then (Some (OK, Some (i + 1)), m')
                          else copystr_from (i + 1) dest src maxlen stoplen m'))
      else if stoplen < maxlen then (Some (EFAULT, None), m)
      else (Some (ENAMETOOLONG, None), m))"
  by pat_completeness auto
termination by (relation "measure (\<lambda>(i, dest, src, maxlen, stoplen, m). maxlen - i)") auto

declare copystr_from.simps [simp del]

definition copystr :: "nat \<Rightarrow> nat \<Rightarrow> nat \<Rightarrow> nat \<Rightarrow> mem \<Rightarrow> (rc \<times> nat option) option \<times> mem" where
  "copystr dest src maxlen stoplen m = copystr_from 0 dest src maxlen stoplen m"

definition copyinstr :: "nat \<Rightarrow> nat \<Rightarrow> nat \<Rightarrow> mem \<Rightarrow> rc \<times> nat option \<times> mem" where
  "copyinstr usersrc dest len m =
     (let (result, stoplen) = copycheck usersrc len
      in if result \<noteq> OK then (result, None, m)
         else case copystr dest usersrc len stoplen m of
                (None, m') \<Rightarrow> (EFAULT, None, m')
              | (Some (result, actual), m') \<Rightarrow> (result, actual, m'))"

definition copyoutstr :: "nat \<Rightarrow> nat \<Rightarrow> nat \<Rightarrow> mem \<Rightarrow> rc \<times> nat option \<times> mem" where
  "copyoutstr src userdest len m =
     (let (result, stoplen) = copycheck userdest len
      in if result \<noteq> OK then (result, None, m)
         else case copystr userdest src len stoplen m of
                (None, m') \<Rightarrow> (EFAULT, None, m')
              | (Some (result, actual), m') \<Rightarrow> (result, actual, m'))"

section \<open>The region check\<close>

lemma copycheck_OK:
  assumes "userptr < 4294967296" and "len < 4294967296" and "copycheck userptr len = (OK, stoplen)"
  shows "userptr < USERTOP \<and> userptr + stoplen \<le> USERTOP \<and> (len > 0 \<longrightarrow> stoplen \<le> len \<and> (stoplen = len \<longleftrightarrow> userptr + len \<le> USERTOP))
     \<and> (len = 0 \<longrightarrow> stoplen \<noteq> len)"
proof -
  have "u32 (int userptr + int len - 1) =
      (if userptr + len = 0 then 4294967295 else if userptr + len \<le> 4294967296 then userptr + len - 1 else userptr + len - 1 - 4294967296)"
    using assms(1,2) by (auto simp: u32_id u32_wrap u32_neg nat_diff_distrib' nat_add_distrib)
  with assms show ?thesis
    by (auto simp: copycheck_def USERTOP_def Let_def split: if_splits)
qed

lemma copycheck_inside:
  assumes "0 < len" and "userptr + len \<le> USERTOP"
  shows "copycheck userptr len = (OK, len)"
proof -
  have "u32 (int userptr + int len - 1) = userptr + len - 1"
    using assms by (subst u32_id) (auto simp: USERTOP_def nat_diff_distrib' nat_add_distrib)
  with assms show ?thesis by (auto simp: copycheck_def USERTOP_def Let_def)
qed

lemma copycheck_bounded:
  assumes "0 < len" and "userptr < USERTOP" and "userptr + len \<le> 4294967296"
  shows "copycheck userptr len = (OK, min len (USERTOP - userptr))"
proof -
  have "u32 (int userptr + int len - 1) = userptr + len - 1"
    using assms by (subst u32_id) (auto simp: nat_diff_distrib' nat_add_distrib)
  with assms show ?thesis by (auto simp: copycheck_def USERTOP_def Let_def)
qed

section \<open>Copies that may fault\<close>

lemma move_copied:
  assumes "move w (d + hi) (s + hi) (copied d s 0 hi m) = Some m'" and "d + (hi + w) \<le> s \<or> s + (hi + w) \<le> d"
  shows "m' = copied d s 0 (hi + w) m"
proof -
  let ?c = "copied d s 0 hi m"
  have mp: "mapped ?c (s + hi) w" and m': "m' = put ?c (d + hi) (block ?c (s + hi) w)"
    using assms(1) by (auto simp: move_def rdbytes_eq wrbytes_eq split: if_splits)
  show ?thesis
  proof
    fix x
    show "m' x = copied d s 0 (hi + w) m x"
    proof (cases "d + hi \<le> x \<and> x < d + hi + w")
      case True
      then have i: "x - (d + hi) < w" and e: "s + hi + (x - (d + hi)) = s + (x - d)" by auto
      from mp i have "?c (s + (x - d)) \<noteq> None" unfolding mapped_def using e by metis
      moreover have "?c (s + (x - d)) = m (s + (x - d))"
        using assms(2) True by (auto simp: copied_def)
      ultimately show ?thesis using True i e by (auto simp: m' put_def copied_def)
    next
      case False
      then show ?thesis by (auto simp: m' put_def copied_def)
    qed
  qed
qed

lemma cpy_up_prefix:
  assumes "d + w * (i + n) \<le> s \<or> s + w * (i + n) \<le> d" and "cpy_up w d s i n (copied d s 0 (w * i) m) = (ok, m')"
  shows "\<exists>k \<le> w * (i + n). m' = copied d s 0 k m \<and> (ok \<longrightarrow> k = w * (i + n))"
  using assms
proof (induction n arbitrary: i)
  case 0
  then show ?case by auto
next
  case (Suc n)
  show ?case
  proof (cases "move w (d + w * i) (s + w * i) (copied d s 0 (w * i) m)")
    case None
    with Suc.prems(2) show ?thesis by (auto intro!: exI [of _ "w * i"] simp: algebra_simps)
  next
    case (Some m2)
    have "w * i + w \<le> w * (i + Suc n)" by (simp add: algebra_simps)
    then have "d + (w * i + w) \<le> s \<or> s + (w * i + w) \<le> d" using Suc.prems(1) by linarith
    from move_copied [OF Some this] have "m2 = copied d s 0 (w * Suc i) m" by (simp add: algebra_simps)
    with Suc.IH [of "Suc i"] Suc.prems Some show ?thesis by simp
  qed
qed

lemma memcpy_prefix:
  assumes "dst + len \<le> src \<or> src + len \<le> dst" and "memcpy dst src len m = (ok, m')"
  shows "\<exists>k \<le> len. m' = copied dst src 0 k m \<and> (ok \<longrightarrow> k = len)"
proof (cases "aligned dst \<and> aligned src \<and> aligned len")
  case True
  then have l: "4 * (len div 4) = len" by (auto simp: aligned_def)
  with True assms show ?thesis
    using cpy_up_prefix [of dst 4 0 "len div 4" src m ok m'] by (simp add: memcpy_def copied_none)
next
  case False
  with assms show ?thesis
    using cpy_up_prefix [of dst 1 0 len src m ok m'] by (auto simp: memcpy_def copied_none)
qed

lemma copystr_prefix:
  assumes "dest + min maxlen stoplen \<le> src \<or> src + min maxlen stoplen \<le> dest" and "i \<le> maxlen"
    and "i \<le> stoplen" and "copystr_from i dest src maxlen stoplen (copied dest src 0 i m) = (r, m')"
  shows "\<exists>k \<le> maxlen. k \<le> stoplen \<and> m' = copied dest src 0 k m"
  using assms
proof (induction "maxlen - i" arbitrary: i)
  case 0
  then have "m' = copied dest src 0 i m"
    using copystr_from.simps [of i dest src maxlen stoplen "copied dest src 0 i m"] by (auto split: if_splits)
  with 0 show ?case by blast
next
  case (Suc n)
  show ?case
  proof (cases "i < stoplen")
    case False
    with Suc have "m' = copied dest src 0 i m"
      using copystr_from.simps [of i dest src maxlen stoplen "copied dest src 0 i m"] by (auto split: if_splits)
    with Suc show ?thesis by blast
  next
    case True
    have i: "i < maxlen" using Suc by simp
    show ?thesis
    proof (cases "move 1 (dest + i) (src + i) (copied dest src 0 i m)")
      case None
      with Suc.prems(4) True i have "m' = copied dest src 0 i m"
        using copystr_from.simps [of i dest src maxlen stoplen "copied dest src 0 i m"] by auto
      with True i show ?thesis by (intro exI [of _ i]) auto
    next
      case (Some m2)
      have m2: "m2 = copied dest src 0 (i + 1) m"
        by (rule move_copied [OF Some]) (use Suc.prems(1) True i in auto)
      have "m' = m2 \<or> copystr_from (i + 1) dest src maxlen stoplen m2 = (r, m')"
        using copystr_from.simps [of i dest src maxlen stoplen "copied dest src 0 i m"] Suc.prems(4) True i Some
        by (auto split: option.splits if_splits)
      then show ?thesis
      proof
        assume "m' = m2"
        with m2 True i show ?thesis by (intro exI [of _ "i + 1"]) auto
      next
        assume "copystr_from (i + 1) dest src maxlen stoplen m2 = (r, m')"
        with Suc.hyps(1) [of "i + 1"] Suc.hyps(2) Suc.prems(1) True i m2 show ?thesis by auto
      qed
    qed
  qed
qed

text \<open>A copy that returns has touched mapped bytes only.\<close>

lemma move_mapped:
  assumes "move w d s m = Some m'"
  shows "mapped m s w \<and> mapped m d w \<and> (\<forall>a n. mapped m' a n \<longleftrightarrow> mapped m a n)"
  using assms unfolding move_def rdbytes_eq wrbytes_eq
  by (fastforce simp: mapped_def put_def split: if_splits dest: le_Suc_ex)

lemma cpy_up_mapped:
  "cpy_up w d s i n m = (True, m') \<Longrightarrow> j < n \<Longrightarrow> mapped m (s + w * (i + j)) w \<and> mapped m (d + w * (i + j)) w"
proof (induction n arbitrary: i j m)
  case (Suc n)
  then obtain m2 where m2: "move w (d + w * i) (s + w * i) m = Some m2" "cpy_up w d s (Suc i) n m2 = (True, m')"
    by (auto split: option.splits)
  note mm = move_mapped [OF m2(1)]
  show ?case
  proof (cases j)
    case 0
    with mm show ?thesis by simp
  next
    case (Suc k)
    with Suc.IH [OF m2(2), of k] Suc.prems(2) mm show ?thesis by simp
  qed
qed simp

lemma mapped_units:
  assumes "\<And>j. j < n \<Longrightarrow> mapped m (a + w * j) w"
  shows "mapped m a (w * n)"
  unfolding mapped_def
proof (intro allI impI)
  fix i assume i: "i < w * n"
  then have w: "0 < w" by (cases w) auto
  then have "i div w < n" "i mod w < w" using i by (auto simp: less_mult_imp_div_less mult.commute)
  then have "m (a + w * (i div w) + i mod w) \<noteq> None"
    using assms [of "i div w"] unfolding mapped_def by blast
  moreover have "a + w * (i div w) + i mod w = a + i" by simp
  ultimately show "m (a + i) \<noteq> None" by (simp only: not_False_eq_True)
qed

lemma memcpy_mapped: "memcpy dst src len m = (True, m') \<Longrightarrow> mapped m src len \<and> mapped m dst len"
proof -
  assume r: "memcpy dst src len m = (True, m')"
  show ?thesis
  proof (cases "aligned dst \<and> aligned src \<and> aligned len")
    case True
    then have l: "4 * (len div 4) = len" by (auto simp: aligned_def)
    from True r have "cpy_up 4 dst src 0 (len div 4) m = (True, m')" by (simp add: memcpy_def)
    from cpy_up_mapped [OF this] show ?thesis
      using mapped_units [of "len div 4" m src 4] mapped_units [of "len div 4" m dst 4] unfolding l by simp
  next
    case False
    with r have "cpy_up 1 dst src 0 len m = (True, m')" by (auto simp: memcpy_def)
    from cpy_up_mapped [OF this] show ?thesis
      using mapped_units [of len m src 1] mapped_units [of len m dst 1] by simp
  qed
qed

lemma copystr_step:
  assumes "mapped m dest (Suc i)" and "mapped m src (Suc i)" and "dest + Suc i \<le> src \<or> src + Suc i \<le> dest"
    and "i < maxlen" and "i < stoplen"
  shows "copystr_from i dest src maxlen stoplen (copied dest src 0 i m) =
    (if m (src + i) = Some 0 then (Some (OK, Some (i + 1)), copied dest src 0 (i + 1) m)
     else copystr_from (i + 1) dest src maxlen stoplen (copied dest src 0 (i + 1) m))"
proof -
  have "mapped (copied dest src 0 i m) (dest + i) 1" "mapped (copied dest src 0 i m) (src + i) 1"
    using mapped_copied [OF assms(2), of i] mapped_sub [OF assms(1), of i 1] mapped_sub [OF assms(2), of i 1] by simp_all
  from move_eq [OF this(2,1)] obtain m2 where m2: "move 1 (dest + i) (src + i) (copied dest src 0 i m) = Some m2" by simp
  have "m2 = copied dest src 0 (i + 1) m"
    by (rule move_copied [OF m2]) (use assms(3) in simp)
  moreover have "copied dest src 0 (i + 1) m (src + i) = m (src + i)"
    using assms(3) by (auto simp: copied_def)
  moreover have "m (src + i) \<noteq> None" using assms(2) by (simp add: mapped_def)
  ultimately show ?thesis
    using m2 assms(4,5) by (subst copystr_from.simps) auto
qed

lemma copystr_found:
  assumes "cstr m src xs" and "mapped m dest (Suc (length xs))"
    and "dest + Suc (length xs) \<le> src \<or> src + Suc (length xs) \<le> dest" and "length xs < maxlen" and "length xs < stoplen" and "i \<le> length xs"
  shows "copystr_from i dest src maxlen stoplen (copied dest src 0 i m) =
    (Some (OK, Some (Suc (length xs))), copied dest src 0 (Suc (length xs)) m)"
  using assms(6)
proof (induction rule: inc_induct)
  case base
  have "mapped m src (Suc (length xs))" using assms(1) by (auto simp: cstr_def mapped_def less_Suc_eq)
  with copystr_step [of m dest "length xs" src maxlen stoplen] assms cstr_at(2) [OF assms(1)] show ?case by simp
next
  case (step i)
  have "mapped m src (Suc i)" using assms(1) step(2) by (auto simp: cstr_def mapped_def less_Suc_eq)
  moreover have "mapped m dest (Suc i)" using assms(2) step(2) by (simp add: mapped_def)
  ultimately show ?case
    using copystr_step [of m dest i src maxlen stoplen] assms(3-5) step cstr_at(1) [OF assms(1), of i] by auto
qed

lemma copystr_not_found:
  assumes "\<And>j. j < n \<Longrightarrow> m (src + j) \<notin> {None, Some 0}" and "mapped m dest n" and "n = min maxlen stoplen"
    and "dest + n \<le> src \<or> src + n \<le> dest" and "i \<le> n"
  shows "copystr_from i dest src maxlen stoplen (copied dest src 0 i m) =
    (Some (if stoplen < maxlen then EFAULT else ENAMETOOLONG, None), copied dest src 0 n m)"
  using assms(5)
proof (induction rule: inc_induct)
  case base
  with assms(3) show ?case by (subst copystr_from.simps) auto
next
  case (step i)
  have "mapped m src (Suc i)" using assms(1) step(2) by (auto simp: mapped_def less_Suc_eq)
  moreover have "mapped m dest (Suc i)" using assms(2) step(2) by (simp add: mapped_def)
  ultimately show ?case
    using copystr_step [of m dest i src maxlen stoplen] assms(1) [of i] assms(3,4) step by auto
qed

section \<open>Properties\<close>

text \<open>The bytes changed between two memories lie in a block at \<open>d\<close> and come from below \<open>limit\<close>.\<close>

definition moved_into :: "mem \<Rightarrow> mem \<Rightarrow> nat \<Rightarrow> nat \<Rightarrow> nat \<Rightarrow> bool" where
  "moved_into m m' d s n \<longleftrightarrow> (\<forall>x. m' x \<noteq> m x \<longrightarrow> d \<le> x \<and> x < d + n \<and> m' x = m (s + (x - d)))"

lemma moved_into_copied: "k \<le> n \<Longrightarrow> moved_into m (copied d s 0 k m) d s n"
  by (auto simp: moved_into_def copied_def)

lemma moved_into_refl: "moved_into m m d s n"
  by (simp add: moved_into_def)

text \<open>C26. Whatever address and length a process hands to the kernel, and whatever is mapped,
  \<open>copyout\<close> and \<open>copyoutstr\<close> change no byte at or above \<open>USERTOP\<close>, and \<open>copyin\<close> and
  \<open>copyinstr\<close> store in the kernel's buffer only bytes that stood below \<open>USERTOP\<close>: for the length
  \<open>n\<close> that is really copied the user's block ends at \<open>USERTOP\<close> or before.\<close>

theorem user_copies_stay_below_usertop:
  assumes "user < 4294967296" and "len < 4294967296" and "USERTOP \<le> kern"
  shows "\<exists>n \<le> len. (n = 0 \<or> user + n \<le> USERTOP)
    \<and> moved_into m (snd (copyout kern user len m)) user kern n
    \<and> moved_into m (snd (snd (copyoutstr kern user len m))) user kern n
    \<and> moved_into m (snd (copyin user kern len m)) kern user n
    \<and> moved_into m (snd (snd (copyinstr user kern len m))) kern user n"
proof (cases "fst (copycheck user len) = OK")
  case False
  then show ?thesis
    by (intro exI [of _ 0]) (auto simp: copyout_def copyin_def copyoutstr_def copyinstr_def Let_def moved_into_refl split: prod.splits)
next
  case True
  then obtain stop where c: "copycheck user len = (OK, stop)" by (cases "copycheck user len") auto
  note st = copycheck_OK [OF assms(1,2) c]
  let ?n = "min len stop"
  have d: "user + ?n \<le> kern" using st assms(3) by auto
  have "moved_into m (snd (copyout kern user len m)) user kern ?n"
  proof (cases "stop = len")
    case True
    obtain ok m' where r: "memcpy user kern len m = (ok, m')" by (cases "memcpy user kern len m")
    from memcpy_prefix [OF _ r] d True obtain k where "k \<le> len" "m' = copied user kern 0 k m" by auto
    with True c r show ?thesis by (simp add: copyout_def moved_into_copied)
  qed (simp add: copyout_def c moved_into_refl)
  moreover have "moved_into m (snd (copyin user kern len m)) kern user ?n"
  proof (cases "stop = len")
    case True
    obtain ok m' where r: "memcpy kern user len m = (ok, m')" by (cases "memcpy kern user len m")
    from memcpy_prefix [OF _ r] d True obtain k where "k \<le> len" "m' = copied kern user 0 k m" by auto
    with True c r show ?thesis by (simp add: copyin_def moved_into_copied)
  qed (simp add: copyin_def c moved_into_refl)
  moreover have "moved_into m (snd (snd (copyoutstr kern user len m))) user kern ?n"
  proof -
    obtain r m' where r: "copystr user kern len stop m = (r, m')" by (cases "copystr user kern len stop m")
    from copystr_prefix [of user len stop kern 0 m r m'] r d
    obtain k where "k \<le> len" "k \<le> stop" "m' = copied user kern 0 k m" by (auto simp: copystr_def copied_none)
    with c r show ?thesis by (auto simp: copyoutstr_def moved_into_copied split: option.splits)
  qed
  moreover have "moved_into m (snd (snd (copyinstr user kern len m))) kern user ?n"
  proof -
    obtain r m' where r: "copystr kern user len stop m = (r, m')" by (cases "copystr kern user len stop m")
    from copystr_prefix [of kern len stop user 0 m r m'] r d
    obtain k where "k \<le> len" "k \<le> stop" "m' = copied kern user 0 k m" by (auto simp: copystr_def copied_none)
    with c r show ?thesis by (auto simp: copyinstr_def moved_into_copied split: option.splits)
  qed
  ultimately show ?thesis using st by (intro exI [of _ ?n]) auto
qed

theorem user_copies_stay_below_usertop_witness:
  "\<exists>n \<le> 8. (n = 0 \<or> 2147483644 + n \<le> USERTOP) \<and> moved_into Map.empty (snd (copyout 2147483648 2147483644 8 Map.empty)) 2147483644 2147483648 n"
  using user_copies_stay_below_usertop [of 2147483644 8 2147483648 Map.empty] by (auto simp: USERTOP_def)

text \<open>C27. \<open>copyin\<close> and \<open>copyout\<close> of a block that is not empty: the block is copied whole and the result is 0
  exactly when it lies below \<open>USERTOP\<close> and every byte of it is mapped; otherwise the result is \<open>EFAULT\<close>.\<close>

theorem user_copies_all_or_EFAULT:
  assumes "user < 4294967296" and "len < 4294967296" and "0 < len" and "USERTOP \<le> kern" and "mapped m kern len"
  shows "if user + len \<le> USERTOP \<and> mapped m user len
    then copyin user kern len m = (OK, copied kern user 0 len m) \<and> copyout kern user len m = (OK, copied user kern 0 len m)
    else fst (copyin user kern len m) = EFAULT \<and> fst (copyout kern user len m) = EFAULT"
proof (cases "user + len \<le> USERTOP")
  case True
  note c = copycheck_inside [OF assms(3) True]
  show ?thesis
  proof (cases "mapped m user len")
    case m: True
    with True assms c show ?thesis
      by (simp add: copyin_def copyout_def memcpy_correct)
  next
    case False
    then have "\<not> fst (memcpy kern user len m)" "\<not> fst (memcpy user kern len m)"
      using memcpy_mapped [of kern user len m] memcpy_mapped [of user kern len m]
      by (metis prod.collapse)+
    with False c show ?thesis
      by (cases "memcpy kern user len m"; cases "memcpy user kern len m") (simp add: copyin_def copyout_def)
  qed
next
  case False
  have "fst (copycheck user len) = EFAULT \<or> fst (copycheck user len) = OK \<and> snd (copycheck user len) \<noteq> len"
    using copycheck_OK [OF assms(1,2)] assms(3) False
    by (cases "copycheck user len") (auto simp: copycheck_def Let_def split: if_splits)
  with False show ?thesis by (auto simp: copyin_def copyout_def split: prod.splits)
qed

theorem user_copies_all_or_EFAULT_witness:
  "fst (copyin 0 USERTOP 4 (\<lambda>x. if x < 4 \<or> USERTOP \<le> x then Some 7 else None)) = OK
   \<and> fst (copyin 2 USERTOP 4 (\<lambda>x. if x < 4 \<or> USERTOP \<le> x then Some 7 else None)) = EFAULT"
  using user_copies_all_or_EFAULT [of 0 4 USERTOP "\<lambda>x. if x < 4 \<or> USERTOP \<le> x then Some 7 else None"]
    user_copies_all_or_EFAULT [of 2 4 USERTOP "\<lambda>x. if x < 4 \<or> USERTOP \<le> x then Some 7 else None"]
  by (auto simp: mapped_def USERTOP_def split: if_splits)

text \<open>C28. \<open>copyinstr\<close> of a string a process holds below \<open>USERTOP\<close>: if it fits with its null byte the
  result is 0, the length stored counts the null byte and the buffer holds the string; if it does not
  fit in \<open>len\<close> bytes the result is \<open>ENAMETOOLONG\<close>; a text with no null byte before \<open>USERTOP\<close>, in a
  buffer that is longer, gives \<open>EFAULT\<close>. No length is stored on an error.\<close>

theorem copyinstr_cases:
  assumes "USERTOP \<le> kern" and "mapped m kern len" and "0 < len" and "user < USERTOP" and "user + len \<le> 4294967296"
  shows "(cstr m user xs \<and> length xs < len \<and> user + length xs < USERTOP \<longrightarrow>
      (\<exists>m'. copyinstr user kern len m = (OK, Some (Suc (length xs)), m') \<and> cstr m' kern xs))
    \<and> ((\<forall>j < len. m (user + j) \<notin> {None, Some 0}) \<and> user + len \<le> USERTOP \<longrightarrow>
      (\<exists>m'. copyinstr user kern len m = (ENAMETOOLONG, None, m')))
    \<and> ((\<forall>j < USERTOP - user. m (user + j) \<notin> {None, Some 0}) \<and> USERTOP < user + len \<longrightarrow>
      (\<exists>m'. copyinstr user kern len m = (EFAULT, None, m')))"
proof (intro conjI impI)
  note c = copycheck_bounded [OF assms(3-5)]
  {
    assume x: "cstr m user xs \<and> length xs < len \<and> user + length xs < USERTOP"
    then have "length xs < USERTOP - user" by linarith
    with x have "copystr kern user len (min len (USERTOP - user)) m =
        (Some (OK, Some (Suc (length xs))), copied kern user 0 (Suc (length xs)) m)"
      using copystr_found [of m user xs kern len "min len (USERTOP - user)" 0] assms(1,2)
      by (simp add: copystr_def copied_none mapped_def)
    moreover have "cstr (copied kern user 0 (Suc (length xs)) m) kern xs"
      using x by (auto simp: cstr_def copied_def)
    ultimately show "\<exists>m'. copyinstr user kern len m = (OK, Some (Suc (length xs)), m') \<and> cstr m' kern xs"
      using c by (simp add: copyinstr_def)
  }
  {
    assume "(\<forall>j < len. m (user + j) \<notin> {None, Some 0}) \<and> user + len \<le> USERTOP"
    moreover from this have "min len (USERTOP - user) = len" by linarith
    ultimately show "\<exists>m'. copyinstr user kern len m = (ENAMETOOLONG, None, m')"
      using copystr_not_found [of len m user kern len len 0] assms(1,2) c
      by (simp add: copystr_def copied_none copyinstr_def)
  }
  assume "(\<forall>j < USERTOP - user. m (user + j) \<notin> {None, Some 0}) \<and> USERTOP < user + len"
  moreover from this have "mapped m kern (USERTOP - user)" "min len (USERTOP - user) = USERTOP - user" "USERTOP - user < len"
    using assms(2-4) by (auto simp: mapped_def)
  ultimately show "\<exists>m'. copyinstr user kern len m = (EFAULT, None, m')"
    using copystr_not_found [of "USERTOP - user" m user kern len "USERTOP - user" 0] assms(1,4) c
    by (simp add: copystr_def copied_none copyinstr_def)
qed

theorem copyinstr_cases_witness:
  "\<exists>m'. copyinstr 0 USERTOP 8 (put (\<lambda>x. Some 1) 0 ([104, 105] @ [0])) = (OK, Some 3, m') \<and> cstr m' USERTOP [104, 105]"
  using copyinstr_cases [of USERTOP "put (\<lambda>x. Some 1) 0 ([104, 105] @ [0])" 8 0 "[104, 105]"]
    cstr_put [of "[104, 105]" "\<lambda>x. Some 1" 0]
  by (simp add: USERTOP_def mapped_def put_def numeral_3_eq_3)

text \<open>C29. A copy of no bytes always fails: the region check computes the last byte of the block as
  \<open>bot + len - 1\<close>, which for an empty block lies before its start or wraps past \<open>USERTOP\<close>.\<close>

theorem empty_user_copy_fails:
  assumes "user < 4294967296"
  shows "copyin user kern 0 m = (EFAULT, m) \<and> copyout kern user 0 m = (EFAULT, m)"
proof -
  have "fst (copycheck user 0) = EFAULT \<or> fst (copycheck user 0) = OK \<and> snd (copycheck user 0) \<noteq> 0"
    using copycheck_OK [OF assms, of 0]
    by (cases "copycheck user 0") (auto simp: copycheck_def Let_def split: if_splits)
  then show ?thesis by (auto simp: copyin_def copyout_def split: prod.splits)
qed

theorem empty_user_copy_fails_witness:
  "copyin 4096 USERTOP 0 Map.empty = (EFAULT, Map.empty) \<and> copyout USERTOP 4096 0 Map.empty = (EFAULT, Map.empty)"
  using empty_user_copy_fails [of 4096 USERTOP Map.empty] by simp

end
