(* ===== verification/Kuio.thy ===== *)
theory Kuio
  imports Kcopy
begin

text \<open>
  Transfers described by a \<open>struct uio\<close>, \<open>kern/include/uio.h\<close> and \<open>kern/userprog/uio.c\<close>.

  A uio names a block of memory, of the kernel or of a process. The model keeps that memory in the
  uio, with the address space of the running thread. The kernel buffer on the other side is an
  object of its own, a list of bytes with a position in it; for a copy to or from a process it
  stands at the bottom of the kernel's addresses. A kernel access outside the buffer or to an
  unmapped kernel address is a stop.
\<close>

section \<open>Definitions\<close>

datatype uio_rw = UIO_READ | UIO_WRITE

datatype uio_seg = UIO_USERSPACE | UIO_SYSSPACE | UIO_USERISPACE

record uio =
  uio_mem :: mem
  cur_vmspace :: "nat nullable"
  iov_base :: nat
  iov_len :: nat
  uio_offset :: int
  uio_resid :: nat
  uio_segflg :: uio_seg
  uio_rw :: uio_rw
  uio_space :: "nat nullable"

definition place_obj :: "mem \<Rightarrow> byte list \<Rightarrow> mem" where
  "place_obj m buf = (\<lambda>a. if a < USERTOP then m a
     else if a - USERTOP < length buf then Some (buf ! (a - USERTOP)) else None)"

definition splice_at :: "byte list \<Rightarrow> nat \<Rightarrow> byte list \<Rightarrow> byte list" where
  "splice_at buf ptr bs = take ptr buf @ bs @ drop (ptr + length bs) buf"

definition uio_xfer :: "byte list \<Rightarrow> nat \<Rightarrow> nat \<Rightarrow> uio \<Rightarrow> (rc \<times> byte list \<times> uio) option" where
  "uio_xfer buf ptr sz u = do {
     kassert (ptr + sz \<le> length buf);
     let base' = u32 (int (iov_base u) + int sz);
     if uio_segflg u = UIO_SYSSPACE then
       (if uio_rw u = UIO_READ then do {
          m \<leftarrow> wrbytes (uio_mem u) (iov_base u) (take sz (drop ptr buf));
          Some (OK, buf, u\<lparr>uio_mem := m, iov_base := base'\<rparr>)
        } else do {
          bs \<leftarrow> rdbytes (uio_mem u) (iov_base u) sz;
          Some (OK, splice_at buf ptr bs, u\<lparr>iov_base := base'\<rparr>)
        })
     else
       (let (result, m) = (if uio_rw u = UIO_READ
             then copyout (USERTOP + ptr) (iov_base u) sz (place_obj (uio_mem u) buf)
             else copyin (iov_base u) (USERTOP + ptr) sz (place_obj (uio_mem u) buf));
            buf' = block m USERTOP (length buf);
            u' = u\<lparr>uio_mem := \<lambda>a. if a < USERTOP then m a else uio_mem u a\<rparr>
        in Some (result, buf', if result = OK then u'\<lparr>iov_base := base'\<rparr> else u'))
   }"

function uiomove_loop :: "byte list \<Rightarrow> nat \<Rightarrow> nat \<Rightarrow> uio \<Rightarrow> (rc \<times> byte list \<times> uio) option" where
  "uiomove_loop buf ptr n u =
     (if 0 < n \<and> 0 < uio_resid u then
        (let sz = (if iov_len u > n then n else iov_len u)
         in if sz = 0 then None
            else do {
              (result, buf', u') \<leftarrow> uio_xfer buf ptr sz u;
              if result \<noteq> OK then Some (result, buf', u')
              else uiomove_loop buf' (ptr + sz) (n - sz)
                (u'\<lparr>iov_len := iov_len u' - sz,
                    uio_resid := u32 (int (uio_resid u') - int sz),
                    uio_offset := s32 (uio_offset u' + int sz)\<rparr>)
            })
      else Some (OK, buf, u))"
  by pat_completeness auto
termination by (relation "measure (\<lambda>(buf, ptr, n, u). n)") (auto split: if_splits)

declare uiomove_loop.simps [simp del]

definition uiomove :: "byte list \<Rightarrow> nat \<Rightarrow> nat \<Rightarrow> uio \<Rightarrow> (rc \<times> byte list \<times> uio) option" where
  "uiomove buf ptr n u = do {
     kassert (if uio_segflg u = UIO_SYSSPACE then uio_space u = NULL else uio_space u = cur_vmspace u);
     uiomove_loop buf ptr n u
   }"

definition zeros :: "byte list" where
  "zeros = replicate 16 0"

function uiomovezeros_loop :: "nat \<Rightarrow> uio \<Rightarrow> (rc \<times> uio) option" where
  "uiomovezeros_loop n u =
     (if 0 < n then do {
        let amt = (if length zeros > n then n else length zeros);
        (result, z, u') \<leftarrow> uiomove zeros 0 amt u;
        if result \<noteq> OK then Some (result, u') else uiomovezeros_loop (n - amt) u'
      } else Some (OK, u))"
  by pat_completeness auto
termination by (relation "measure fst") (auto simp: zeros_def split: if_splits)

declare uiomovezeros_loop.simps [simp del]

definition uiomovezeros :: "nat \<Rightarrow> uio \<Rightarrow> (rc \<times> uio) option" where
  "uiomovezeros n u = do { kassert (uio_rw u = UIO_READ); uiomovezeros_loop n u }"

definition mk_kuio :: "mem \<Rightarrow> nat \<Rightarrow> nat \<Rightarrow> int \<Rightarrow> uio_rw \<Rightarrow> uio" where
  "mk_kuio m kbuf len pos rw =
     \<lparr>uio_mem = m, cur_vmspace = NULL, iov_base = kbuf, iov_len = len, uio_offset = pos, uio_resid = len,
      uio_segflg = UIO_SYSSPACE, uio_rw = rw, uio_space = NULL\<rparr>"

section \<open>What a transfer does\<close>

text \<open>The fields after \<open>n\<close> bytes, and a uio with \<open>n\<close> good bytes ahead of it.\<close>

definition uio_adv :: "nat \<Rightarrow> uio \<Rightarrow> uio" where
  "uio_adv n u = u\<lparr>iov_base := iov_base u + n, iov_len := iov_len u - n, uio_resid := uio_resid u - n,
     uio_offset := uio_offset u + int n\<rparr>"

definition uio_room :: "nat \<Rightarrow> uio \<Rightarrow> bool" where
  "uio_room n u \<longleftrightarrow> n \<le> iov_len u \<and> n \<le> uio_resid u \<and> uio_resid u < 4294967296
     \<and> iov_base u + n < 4294967296 \<and> 0 \<le> uio_offset u \<and> uio_offset u + int n \<le> INT_MAX
     \<and> mapped (uio_mem u) (iov_base u) n
     \<and> (if uio_segflg u = UIO_SYSSPACE then uio_space u = NULL
        else uio_space u = cur_vmspace u \<and> iov_base u + n \<le> USERTOP)"

definition uio_put :: "byte list \<Rightarrow> uio \<Rightarrow> uio" where
  "uio_put bs u = uio_adv (length bs) (u\<lparr>uio_mem := put (uio_mem u) (iov_base u) bs\<rparr>)"

lemma splice_at_length [simp]: "ptr + length bs \<le> length buf \<Longrightarrow> length (splice_at buf ptr bs) = length buf"
  by (simp add: splice_at_def)

lemma splice_at_nth:
  "ptr + length bs \<le> length buf \<Longrightarrow> i < length buf \<Longrightarrow>
   splice_at buf ptr bs ! i = (if ptr \<le> i \<and> i < ptr + length bs then bs ! (i - ptr) else buf ! i)"
  by (auto simp: splice_at_def nth_append)

lemma uio_xfer_read:
  assumes "uio_room n u" and "0 < n" and "ptr + n \<le> length buf" and "uio_rw u = UIO_READ"
  shows "uio_xfer buf ptr n u = Some (OK, buf, u\<lparr>uio_mem := put (uio_mem u) (iov_base u) (take n (drop ptr buf)), iov_base := iov_base u + n\<rparr>)"
proof (cases "uio_segflg u = UIO_SYSSPACE")
  case True
  with assms show ?thesis
    by (simp add: uio_xfer_def uio_room_def wrbytes_eq u32_id nat_add_distrib)
next
  case False
  let ?m = "place_obj (uio_mem u) buf"
  from False assms(1) have b: "iov_base u + n \<le> USERTOP" and mp: "mapped (uio_mem u) (iov_base u) n"
    by (auto simp: uio_room_def)
  have "mapped ?m (iov_base u) n" using mp b by (auto simp: mapped_def place_obj_def)
  moreover have "mapped ?m (USERTOP + ptr) n" using assms(3) by (auto simp: mapped_def place_obj_def)
  ultimately have c: "copyout (USERTOP + ptr) (iov_base u) n ?m = (OK, copied (iov_base u) (USERTOP + ptr) 0 n ?m)"
    using b assms(2) by (simp add: copyout_def copycheck_inside memcpy_correct)
  have "block (copied (iov_base u) (USERTOP + ptr) 0 n ?m) USERTOP (length buf) = buf"
    using b by (intro nth_equalityI) (auto simp: copied_def place_obj_def)
  moreover have "(\<lambda>a. if a < USERTOP then copied (iov_base u) (USERTOP + ptr) 0 n ?m a else uio_mem u a)
      = put (uio_mem u) (iov_base u) (take n (drop ptr buf))"
    using assms(3) b by (auto simp: fun_eq_iff copied_def place_obj_def put_def)
  ultimately show ?thesis
    using False assms c by (simp add: uio_xfer_def uio_room_def u32_id nat_add_distrib)
qed

lemma uio_xfer_write:
  assumes "uio_room n u" and "0 < n" and "ptr + n \<le> length buf" and "uio_rw u = UIO_WRITE"
  shows "uio_xfer buf ptr n u = Some (OK, splice_at buf ptr (block (uio_mem u) (iov_base u) n), u\<lparr>iov_base := iov_base u + n\<rparr>)"
proof (cases "uio_segflg u = UIO_SYSSPACE")
  case True
  with assms show ?thesis
    by (simp add: uio_xfer_def uio_room_def rdbytes_eq u32_id nat_add_distrib)
next
  case False
  let ?m = "place_obj (uio_mem u) buf"
  from False assms(1) have b: "iov_base u + n \<le> USERTOP" and mp: "mapped (uio_mem u) (iov_base u) n"
    by (auto simp: uio_room_def)
  have "mapped ?m (iov_base u) n" using mp b by (auto simp: mapped_def place_obj_def)
  moreover have "mapped ?m (USERTOP + ptr) n" using assms(3) by (auto simp: mapped_def place_obj_def)
  ultimately have c: "copyin (iov_base u) (USERTOP + ptr) n ?m = (OK, copied (USERTOP + ptr) (iov_base u) 0 n ?m)"
    using b assms(2) by (simp add: copyin_def copycheck_inside memcpy_correct)
  have "block (copied (USERTOP + ptr) (iov_base u) 0 n ?m) USERTOP (length buf) = splice_at buf ptr (block (uio_mem u) (iov_base u) n)"
    using b assms(3) by (intro nth_equalityI) (auto simp: copied_def place_obj_def splice_at_nth)
  moreover have "(\<lambda>a. if a < USERTOP then copied (USERTOP + ptr) (iov_base u) 0 n ?m a else uio_mem u a) = uio_mem u"
    by (auto simp: fun_eq_iff copied_def place_obj_def)
  ultimately show ?thesis
    using False assms c by (simp add: uio_xfer_def uio_room_def u32_id nat_add_distrib)
qed

lemma uiomove_loop_done: "n = 0 \<or> uio_resid u = 0 \<Longrightarrow> uiomove_loop buf ptr n u = Some (OK, buf, u)"
  by (subst uiomove_loop.simps) auto

lemma uiomove_once:
  assumes "uio_room n u" and "0 < n" and "uio_xfer buf ptr n u = Some (OK, buf', u')"
  shows "uiomove buf ptr n u = Some (OK, buf', u'\<lparr>iov_len := iov_len u' - n, uio_resid := u32 (int (uio_resid u') - int n),
     uio_offset := s32 (uio_offset u' + int n)\<rparr>)"
proof -
  have "(if iov_len u > n then n else iov_len u) = n" using assms(1) by (auto simp: uio_room_def)
  with assms show ?thesis
    by (simp add: uiomove_def uio_room_def uiomove_loop.simps [of buf ptr n] uiomove_loop_done Let_def)
qed

lemma uiomove_read:
  assumes "uio_room n u" and "ptr + n \<le> length buf" and "uio_rw u = UIO_READ"
  shows "uiomove buf ptr n u = Some (OK, buf, uio_put (take n (drop ptr buf)) u)"
proof (cases "n = 0")
  case True
  with assms show ?thesis by (simp add: uiomove_def uio_room_def uiomove_loop_done uio_put_def uio_adv_def)
next
  case False
  with assms show ?thesis
    using uiomove_once [OF assms(1) _ uio_xfer_read [OF assms(1) _ assms(2,3)]]
    by (simp add: uio_room_def uio_put_def uio_adv_def u32_id s32_id nat_diff_distrib)
qed

lemma uiomove_write:
  assumes "uio_room n u" and "ptr + n \<le> length buf" and "uio_rw u = UIO_WRITE"
  shows "uiomove buf ptr n u = Some (OK, splice_at buf ptr (block (uio_mem u) (iov_base u) n), uio_adv n u)"
proof (cases "n = 0")
  case True
  with assms show ?thesis by (simp add: uiomove_def uio_room_def uiomove_loop_done splice_at_def uio_adv_def block_def)
next
  case False
  with assms show ?thesis
    using uiomove_once [OF assms(1) _ uio_xfer_write [OF assms(1) _ assms(2,3)]]
    by (simp add: uio_room_def uio_adv_def u32_id s32_id nat_diff_distrib)
qed

lemma uio_room_le: "uio_room n u \<Longrightarrow> k \<le> n \<Longrightarrow> uio_room k u"
  by (auto simp: uio_room_def mapped_def)

lemma uio_adv_simps [simp]:
  "uio_segflg (uio_adv n u) = uio_segflg u" "uio_rw (uio_adv n u) = uio_rw u" "uio_mem (uio_adv n u) = uio_mem u"
  "uio_offset (uio_adv n u) = uio_offset u + int n" "uio_resid (uio_adv n u) = uio_resid u - n"
  "iov_base (uio_adv n u) = iov_base u + n" "iov_len (uio_adv n u) = iov_len u - n"
  by (simp_all add: uio_adv_def)

lemma uio_put_simps [simp]:
  "uio_segflg (uio_put bs u) = uio_segflg u" "uio_rw (uio_put bs u) = uio_rw u"
  "uio_offset (uio_put bs u) = uio_offset u + int (length bs)" "uio_resid (uio_put bs u) = uio_resid u - length bs"
  "iov_base (uio_put bs u) = iov_base u + length bs" "iov_len (uio_put bs u) = iov_len u - length bs"
  "uio_mem (uio_put bs u) = put (uio_mem u) (iov_base u) bs"
  by (simp_all add: uio_put_def)

lemma uio_room_adv: "uio_room n u \<Longrightarrow> k \<le> n \<Longrightarrow> uio_room (n - k) (uio_adv k u)"
  using mapped_sub [of "uio_mem u" "iov_base u" n k "n - k"] by (auto simp: uio_room_def uio_adv_def)

lemma uio_room_put: "uio_room n u \<Longrightarrow> length bs \<le> n \<Longrightarrow> uio_room (n - length bs) (uio_put bs u)"
  using uio_room_adv [of n u "length bs"] by (auto simp: uio_room_def uio_put_def uio_adv_def)

lemma uio_put_append: "uio_put ys (uio_put xs u) = uio_put (xs @ ys) u"
  by (simp add: uio_put_def uio_adv_def put_append)

lemma uio_put_Nil [simp]: "uio_put [] u = u"
  by (simp add: uio_put_def uio_adv_def)

lemma uio_adv_0 [simp]: "uio_adv 0 u = u"
  by (simp add: uio_adv_def)

lemma uio_adv_add: "uio_adv n (uio_adv k u) = uio_adv (k + n) u"
  by (simp add: uio_adv_def)

lemma uiomovezeros_loop_read:
  assumes "uio_room n u" and "uio_rw u = UIO_READ"
  shows "uiomovezeros_loop n u = Some (OK, uio_put (replicate n 0) u)"
  using assms
proof (induction n arbitrary: u rule: less_induct)
  case (less n)
  show ?case
  proof (cases "n = 0")
    case True
    then show ?thesis by (simp add: uiomovezeros_loop.simps)
  next
    case False
    define k where "k = min n 16"
    have k: "(if length zeros > n then n else length zeros) = k" "0 < k" "k \<le> n" "k \<le> length zeros"
      using False by (auto simp: k_def zeros_def)
    have z: "take k zeros = replicate k 0" by (simp add: zeros_def k_def)
    have "uiomove zeros 0 k u = Some (OK, zeros, uio_put (replicate k 0) u)"
      using uiomove_read [OF uio_room_le [OF less.prems(1) k(3)], of 0 zeros] k(4) less.prems(2) z by simp
    moreover have "uiomovezeros_loop (n - k) (uio_put (replicate k 0) u) = Some (OK, uio_put (replicate (n - k) 0) (uio_put (replicate k 0) u))"
      using less.IH [of "n - k" "uio_put (replicate k 0) u"] uio_room_put [OF less.prems(1), of "replicate k 0"] k less.prems(2) by simp
    ultimately show ?thesis
      using False k by (simp add: uiomovezeros_loop.simps [of n] uio_put_append Let_def flip: replicate_add)
  qed
qed

lemma uiomovezeros_read:
  "uio_room n u \<Longrightarrow> uio_rw u = UIO_READ \<Longrightarrow> uiomovezeros n u = Some (OK, uio_put (replicate n 0) u)"
  by (simp add: uiomovezeros_def uiomovezeros_loop_read)

section \<open>Properties\<close>

text \<open>C30. \<open>uiomove\<close> of \<open>n\<close> bytes through a uio with room for them returns 0 and moves exactly those bytes,
  from the buffer to the block of the uio on a read and back on a write, for kernel and for user
  blocks; it advances the block and the offset by \<open>n\<close>, takes \<open>n\<close> from the residual count and changes
  no other byte.\<close>

theorem uiomove_exact:
  assumes "uio_room n u" and "ptr + n \<le> length buf"
  shows "\<exists>buf' u'. uiomove buf ptr n u = Some (OK, buf', u')
    \<and> (uio_rw u = UIO_READ \<longrightarrow> buf' = buf \<and> uio_mem u' = put (uio_mem u) (iov_base u) (take n (drop ptr buf)))
    \<and> (uio_rw u = UIO_WRITE \<longrightarrow> buf' = take ptr buf @ block (uio_mem u) (iov_base u) n @ drop (ptr + n) buf \<and> uio_mem u' = uio_mem u)
    \<and> iov_base u' = iov_base u + n \<and> uio_resid u' = uio_resid u - n \<and> uio_offset u' = uio_offset u + int n"
proof (cases "uio_rw u")
  case UIO_READ
  with uiomove_read [OF assms UIO_READ] assms(2) show ?thesis by simp
next
  case UIO_WRITE
  with uiomove_write [OF assms UIO_WRITE] show ?thesis by (simp add: splice_at_def)
qed

theorem uiomove_exact_witness:
  "\<exists>buf' u'. uiomove [1, 2, 3, 4] 1 2 (mk_kuio (\<lambda>x. Some 9) 4096 2 0 UIO_READ) = Some (OK, buf', u')
     \<and> uio_mem u' 4097 = Some 3"
  using uiomove_exact [of 2 "mk_kuio (\<lambda>x. Some 9) 4096 2 0 UIO_READ" 1 "[1, 2, 3, 4]"]
  by (auto simp: uio_room_def mk_kuio_def mapped_def INT_MAX_def put_def)

text \<open>C31. \<open>uiomove\<close> does not stop at \<open>uio_resid\<close>: when the block of the uio is longer than the residual
  count and the caller offers more, all of it is moved and the residual count wraps around.\<close>

theorem uiomove_passes_resid:
  assumes "uio_room r u" and "uio_resid u = r" and "0 < r" and "r < n" and "n \<le> iov_len u"
    and "uio_segflg u = UIO_SYSSPACE" and "uio_rw u = UIO_READ" and "mapped (uio_mem u) (iov_base u) n"
    and "ptr + n \<le> length buf"
  shows "\<exists>u'. uiomove buf ptr n u = Some (OK, buf, u') \<and> uio_mem u' = put (uio_mem u) (iov_base u) (take n (drop ptr buf))
    \<and> uio_resid u' = u32 (int r - int n)"
proof -
  have "(if iov_len u > n then n else iov_len u) = n" using assms(5) by auto
  moreover have "min (length buf - ptr) n = n" using assms(9) by simp
  ultimately show ?thesis
    using assms by (simp add: uiomove_def uio_room_def uiomove_loop.simps [of buf ptr n u] uio_xfer_def wrbytes_eq uiomove_loop_done Let_def)
qed

theorem uiomove_passes_resid_witness:
  "\<exists>u'. uiomove [1, 2, 3, 4] 0 4 ((mk_kuio (\<lambda>x. Some 9) 4096 4 0 UIO_READ)\<lparr>uio_resid := 2\<rparr>) = Some (OK, [1, 2, 3, 4], u')
     \<and> uio_resid u' = 4294967294"
proof -
  have "u32 (int 2 - int 4) = 4294967294" by (simp add: u32_def)
  then show ?thesis
    using uiomove_passes_resid [of 2 "(mk_kuio (\<lambda>x. Some 9) 4096 4 0 UIO_READ)\<lparr>uio_resid := 2\<rparr>" 4 0 "[1, 2, 3, 4]"]
    by (auto simp: uio_room_def mk_kuio_def mapped_def INT_MAX_def)
qed

end
