(* ===== verification/Kwords.thy ===== *)
theory Kwords
  imports Klibc
begin

text \<open>
  Numbers in memory. The processor is big-endian: a 16-bit or 32-bit number is the list of its bytes
  from the most significant one, and an aligned 32-bit load or store moves four bytes of the memory.
\<close>

section \<open>Big-endian numbers\<close>

definition be16 :: "nat \<Rightarrow> byte list" where
  "be16 n = [of_nat (n div 256), of_nat n]"

definition be32 :: "nat \<Rightarrow> byte list" where
  "be32 n = be16 (n div 65536) @ be16 n"

fun debytes :: "byte list \<Rightarrow> nat" where
  "debytes bs = foldl (\<lambda>n b. n * 256 + unat b) 0 bs"

definition words32 :: "nat list \<Rightarrow> byte list" where
  "words32 ns = concat (map be32 ns)"

fun dewords :: "nat \<Rightarrow> byte list \<Rightarrow> nat list" where
  "dewords 0 bs = []"
| "dewords (Suc n) bs = debytes (take 4 bs) # dewords n (drop 4 bs)"

lemma length_be [simp]: "length (be16 n) = 2" "length (be32 n) = 4"
  by (simp_all add: be16_def be32_def)

lemma unat_byte [simp]: "unat (of_nat n :: byte) = n mod 256"
  by (simp add: unat_of_nat)

lemma byte_less: "unat (b :: byte) < 256"
  using unsigned_less [of b] by simp

lemma debytes_be16_mod: "debytes (be16 n) = n mod 65536"
  using mod_mult2_eq [of n 256 256] by (simp add: be16_def)

lemma debytes_be16: "n < 65536 \<Longrightarrow> debytes (be16 n) = n"
  by (simp only: debytes_be16_mod mod_less)

lemma debytes_append2: "debytes (xs @ be16 n) = debytes xs * 65536 + debytes (be16 n)"
  by (simp add: be16_def algebra_simps)

lemma debytes_be32: "n < 4294967296 \<Longrightarrow> debytes (be32 n) = n"
  unfolding be32_def debytes_append2 debytes_be16_mod by simp

lemma byte_eqI: "n mod 256 = unat b \<Longrightarrow> of_nat n = b" for b :: byte
  by (simp only: word_unat_eq_iff unat_byte)

lemma be16_debytes: "length bs = 2 \<Longrightarrow> be16 (debytes bs) = bs"
proof -
  assume "length bs = 2"
  then obtain a b where bs: "bs = [a, b]" by (auto simp: length_Suc_conv numeral_2_eq_2)
  have "(unat a * 256 + unat b) div 256 = unat a" using byte_less [of b] by simp
  moreover have "of_nat (unat a * 256 + unat b) = b" by (rule byte_eqI) (simp add: byte_less)
  ultimately show ?thesis unfolding be16_def bs debytes.simps foldl.simps by simp
qed

lemma be32_debytes: "length bs = 4 \<Longrightarrow> be32 (debytes bs) = bs"
proof -
  assume l: "length bs = 4"
  let ?a = "take 2 bs" and ?b = "drop 2 bs"
  have b: "be16 (debytes ?b) = ?b" and a: "be16 (debytes ?a) = ?a" by (simp_all add: be16_debytes l del: debytes.simps)
  have d: "debytes bs = debytes ?a * 65536 + debytes ?b"
    using debytes_append2 [of ?a "debytes ?b"] b append_take_drop_id [of 2 bs] by (simp del: debytes.simps)
  have lt: "debytes ?b < 65536" using b debytes_be16_mod [of "debytes ?b"] by (simp del: debytes.simps)
  then have "debytes bs div 65536 = debytes ?a" using d by simp
  moreover have "be16 (debytes bs) = be16 (debytes ?b)"
    using be16_debytes [of "be16 (debytes bs)"] lt d by (simp add: debytes_be16_mod del: debytes.simps)
  ultimately show ?thesis using a b by (simp add: be32_def del: debytes.simps)
qed

lemma debytes_less: "length bs = k \<Longrightarrow> debytes bs < 256 ^ k"
proof (induction bs arbitrary: k rule: rev_induct)
  case (snoc b bs)
  then have "debytes bs < 256 ^ length bs" "unat b < 256" using byte_less [of b] by auto
  then have "debytes bs * 256 + unat b < 256 ^ length bs * 256" by simp
  then show ?case unfolding snoc.prems [symmetric] by (simp add: mult.commute)
qed simp

lemma length_words32 [simp]: "length (words32 ns) = 4 * length ns"
  by (induction ns) (auto simp: words32_def)

lemma words32_Cons: "words32 (n # ns) = be32 n @ words32 ns"
  by (simp add: words32_def)

lemma length_dewords [simp]: "length (dewords n bs) = n"
  by (induction n arbitrary: bs) auto

lemma dewords_words32: "list_all (\<lambda>n. n < 4294967296) ns \<Longrightarrow> dewords (length ns) (words32 ns @ rest) = ns"
proof (induction ns)
  case (Cons n ns)
  then show ?case by (simp add: words32_Cons debytes_be32 del: debytes.simps)
qed simp

lemma words32_dewords: "length bs = 4 * n \<Longrightarrow> words32 (dewords n bs) = bs"
proof (induction n arbitrary: bs)
  case (Suc n)
  then show ?case by (simp add: words32_Cons be32_debytes del: debytes.simps)
qed (simp add: words32_def)

lemma dewords_bound: "length bs = 4 * n \<Longrightarrow> list_all (\<lambda>n. n < 4294967296) (dewords n bs)"
proof (induction n arbitrary: bs)
  case (Suc n)
  have "debytes (take 4 bs) < 256 ^ 4" by (rule debytes_less) (use Suc.prems in simp)
  with Suc show ?case by (simp del: debytes.simps)
qed simp

lemma dewords_nth: "length bs = 4 * n \<Longrightarrow> i < n \<Longrightarrow> dewords n bs ! i = debytes (take 4 (drop (4 * i) bs))"
proof (induction n arbitrary: bs i)
  case (Suc n)
  then show ?case by (cases i) (simp_all add: add.commute del: debytes.simps)
qed simp

section \<open>Loads and stores\<close>

text \<open>A load or a store at an address that is not mapped, or not aligned, stops the machine.\<close>

definition ldw :: "mem \<Rightarrow> nat \<Rightarrow> nat option" where
  "ldw m a = (if a mod 4 = 0 then map_option debytes (rdbytes m a 4) else None)"

definition stw :: "mem \<Rightarrow> nat \<Rightarrow> nat \<Rightarrow> mem option" where
  "stw m a v = (if a mod 4 = 0 then wrbytes m a (be32 v) else None)"

lemma ldw_eq: "a mod 4 = 0 \<Longrightarrow> mapped m a 4 \<Longrightarrow> ldw m a = Some (debytes (block m a 4))"
  by (simp add: ldw_def rdbytes_eq)

lemma stw_eq: "a mod 4 = 0 \<Longrightarrow> mapped m a 4 \<Longrightarrow> stw m a v = Some (put m a (be32 v))"
  by (simp add: stw_def wrbytes_eq)

lemma block_put_same: "block (put m a bs) a (length bs) = bs"
  by (rule nth_equalityI) (simp_all add: put_def)

lemma block_cong: "(\<And>i. i < n \<Longrightarrow> m' (a + i) = m (a + i)) \<Longrightarrow> block m' a n = block m a n"
  by (simp add: block_def)

lemma ldw_put_same: "a mod 4 = 0 \<Longrightarrow> mapped m a 4 \<Longrightarrow> v < 4294967296 \<Longrightarrow> ldw (put m a (be32 v)) a = Some v"
  using block_put_same [of m a "be32 v"] debytes_be32 [of v] by (simp add: ldw_eq del: debytes.simps)

text \<open>A word whose four bytes do not change keeps its value.\<close>

lemma ldw_cong: "(\<And>i. i < 4 \<Longrightarrow> m' (a + i) = m (a + i)) \<Longrightarrow> ldw m' a = ldw m a"
proof -
  assume e: "\<And>i. i < 4 \<Longrightarrow> m' (a + i) = m (a + i)"
  then have "mapped m' a 4 = mapped m a 4" by (auto simp: mapped_def)
  with block_cong [of 4 m' a m, OF e] show ?thesis by (simp add: ldw_def rdbytes_eq del: debytes.simps)
qed

end
