(* ===== verification/Sfs_Disk.thy ===== *)
theory Sfs_Disk
  imports Kuio Kwords
begin

text \<open>
  The on-disk structures of SFS, \<open>kern/include/kern/sfs.h\<close>, and their bytes. The processor is
  big-endian and the file system moves the structures to and from the disk as they stand in memory,
  so the layout below is both the memory and the disk layout. Each structure that is a block on its
  own has 512 bytes; a directory entry has 64.
\<close>

section \<open>Constants\<close>

definition SFS_MAGIC :: nat where "SFS_MAGIC = 2880303105"
definition SFS_BLOCKSIZE :: nat where "SFS_BLOCKSIZE = 512"
definition SFS_VOLNAME_SIZE :: nat where "SFS_VOLNAME_SIZE = 32"
definition SFS_NDIRECT :: nat where "SFS_NDIRECT = 15"
definition SFS_DBPERIDB :: nat where "SFS_DBPERIDB = 128"
definition SFS_NAMELEN :: nat where "SFS_NAMELEN = 60"
definition SFS_SB_LOCATION :: nat where "SFS_SB_LOCATION = 0"
definition SFS_ROOT_LOCATION :: nat where "SFS_ROOT_LOCATION = 1"
definition SFS_MAP_LOCATION :: nat where "SFS_MAP_LOCATION = 2"
definition SFS_NOINO :: nat where "SFS_NOINO = 0"
definition SFS_TYPE_INVAL :: nat where "SFS_TYPE_INVAL = 0"
definition SFS_TYPE_FILE :: nat where "SFS_TYPE_FILE = 1"
definition SFS_TYPE_DIR :: nat where "SFS_TYPE_DIR = 2"

lemmas sfs_consts = SFS_MAGIC_def SFS_BLOCKSIZE_def SFS_VOLNAME_SIZE_def SFS_NDIRECT_def SFS_DBPERIDB_def
  SFS_NAMELEN_def SFS_SB_LOCATION_def SFS_ROOT_LOCATION_def SFS_MAP_LOCATION_def SFS_NOINO_def
  SFS_TYPE_INVAL_def SFS_TYPE_FILE_def SFS_TYPE_DIR_def

text \<open>The size of the free map, in bits rounded up to whole blocks and in blocks, on \<open>u_int32_t\<close>.\<close>

definition SFS_BITMAPSIZE :: "nat \<Rightarrow> nat" where
  "SFS_BITMAPSIZE nblocks = u32 (int (u32 (int nblocks + 4096 - 1) div 4096) * 4096)"

definition SFS_BITBLOCKS :: "nat \<Rightarrow> nat" where
  "SFS_BITBLOCKS nblocks = SFS_BITMAPSIZE nblocks div 4096"

record sfs_super =
  sp_magic :: nat
  sp_nblocks :: nat
  sp_volname :: "byte list"
  sp_reserved :: "nat list"

record sfs_inode =
  sfi_size :: nat
  sfi_type :: nat
  sfi_linkcount :: nat
  sfi_direct :: "nat list"
  sfi_indirect :: nat
  sfi_waste :: "nat list"

record sfs_dir =
  sfd_ino :: nat
  sfd_name :: "byte list"

section \<open>The structures as bytes\<close>

definition enc_super :: "sfs_super \<Rightarrow> byte list" where
  "enc_super sp = be32 (sp_magic sp) @ be32 (sp_nblocks sp) @ sp_volname sp @ words32 (sp_reserved sp)"

definition dec_super :: "byte list \<Rightarrow> sfs_super" where
  "dec_super bs = \<lparr>sp_magic = debytes (take 4 bs), sp_nblocks = debytes (take 4 (drop 4 bs)),
     sp_volname = take 32 (drop 8 bs), sp_reserved = dewords 118 (drop 40 bs)\<rparr>"

definition enc_inode :: "sfs_inode \<Rightarrow> byte list" where
  "enc_inode i = be32 (sfi_size i) @ be16 (sfi_type i) @ be16 (sfi_linkcount i) @ words32 (sfi_direct i)
     @ be32 (sfi_indirect i) @ words32 (sfi_waste i)"

definition dec_inode :: "byte list \<Rightarrow> sfs_inode" where
  "dec_inode bs = \<lparr>sfi_size = debytes (take 4 bs), sfi_type = debytes (take 2 (drop 4 bs)),
     sfi_linkcount = debytes (take 2 (drop 6 bs)), sfi_direct = dewords 15 (take 60 (drop 8 bs)),
     sfi_indirect = debytes (take 4 (drop 68 bs)), sfi_waste = dewords 110 (drop 72 bs)\<rparr>"

definition enc_dir :: "sfs_dir \<Rightarrow> byte list" where
  "enc_dir sd = be32 (sfd_ino sd) @ sfd_name sd"

definition dec_dir :: "byte list \<Rightarrow> sfs_dir" where
  "dec_dir bs = \<lparr>sfd_ino = debytes (take 4 bs), sfd_name = take 60 (drop 4 bs)\<rparr>"

text \<open>The field values C can hold.\<close>

definition super_ok :: "sfs_super \<Rightarrow> bool" where
  "super_ok sp \<longleftrightarrow> sp_magic sp < 4294967296 \<and> sp_nblocks sp < 4294967296 \<and> length (sp_volname sp) = 32
     \<and> length (sp_reserved sp) = 118 \<and> list_all (\<lambda>n. n < 4294967296) (sp_reserved sp)"

definition inode_ok :: "sfs_inode \<Rightarrow> bool" where
  "inode_ok i \<longleftrightarrow> sfi_size i < 4294967296 \<and> sfi_type i < 65536 \<and> sfi_linkcount i < 65536
     \<and> length (sfi_direct i) = 15 \<and> list_all (\<lambda>n. n < 4294967296) (sfi_direct i) \<and> sfi_indirect i < 4294967296
     \<and> length (sfi_waste i) = 110 \<and> list_all (\<lambda>n. n < 4294967296) (sfi_waste i)"

definition dir_ok :: "sfs_dir \<Rightarrow> bool" where
  "dir_ok sd \<longleftrightarrow> sfd_ino sd < 4294967296 \<and> length (sfd_name sd) = 60"

lemma length_enc [simp]:
  "super_ok sp \<Longrightarrow> length (enc_super sp) = 512"
  "inode_ok i \<Longrightarrow> length (enc_inode i) = 512"
  "dir_ok sd \<Longrightarrow> length (enc_dir sd) = 64"
  by (simp_all add: enc_super_def enc_inode_def enc_dir_def super_ok_def inode_ok_def dir_ok_def)

lemma dec_enc_super: "super_ok sp \<Longrightarrow> dec_super (enc_super sp) = sp"
  using dewords_words32 [of "sp_reserved sp" "[]"]
  by (simp add: dec_super_def enc_super_def super_ok_def debytes_be32 del: debytes.simps)

lemma dec_enc_inode: "inode_ok i \<Longrightarrow> dec_inode (enc_inode i) = i"
  using dewords_words32 [of "sfi_waste i" "[]"] dewords_words32 [of "sfi_direct i" "[]"]
  by (simp add: dec_inode_def enc_inode_def inode_ok_def debytes_be32 debytes_be16 del: debytes.simps)

lemma dec_enc_dir: "dir_ok sd \<Longrightarrow> dec_dir (enc_dir sd) = sd"
  by (simp add: dec_dir_def enc_dir_def dir_ok_def debytes_be32 del: debytes.simps)

lemma take_drop_join: "b = a + k \<Longrightarrow> take k (drop a xs) @ drop b xs = drop a xs"
  by (metis append_take_drop_id drop_drop add.commute)

lemma enc_dec_inode:
  assumes "length bs = 512"
  shows "enc_inode (dec_inode bs) = bs"
proof -
  have "enc_inode (dec_inode bs) = take 4 bs @ take 2 (drop 4 bs) @ take 2 (drop 6 bs) @ take 60 (drop 8 bs) @ take 4 (drop 68 bs) @ drop 72 bs"
    using assms by (simp add: enc_inode_def dec_inode_def be32_debytes be16_debytes words32_dewords del: debytes.simps)
  also have "\<dots> = bs"
    by (simp add: take_drop_join [of 72 68 4] take_drop_join [of 68 8 60] take_drop_join [of 8 6 2] take_drop_join [of 6 4 2])
  finally show ?thesis .
qed

lemma enc_dec_super:
  assumes "length bs = 512"
  shows "enc_super (dec_super bs) = bs"
proof -
  have "enc_super (dec_super bs) = take 4 bs @ take 4 (drop 4 bs) @ take 32 (drop 8 bs) @ drop 40 bs"
    using assms by (simp add: enc_super_def dec_super_def be32_debytes words32_dewords del: debytes.simps)
  also have "\<dots> = bs"
    by (simp add: take_drop_join [of 40 8 32] take_drop_join [of 8 4 4])
  finally show ?thesis .
qed

lemma enc_dec_dir: "length bs = 64 \<Longrightarrow> enc_dir (dec_dir bs) = bs"
  using append_take_drop_id [of 4 bs] by (simp add: enc_dir_def dec_dir_def be32_debytes del: debytes.simps)

lemma dec_ok:
  "length bs = 512 \<Longrightarrow> super_ok (dec_super bs)" "length bs = 512 \<Longrightarrow> inode_ok (dec_inode bs)"
  "length bs = 64 \<Longrightarrow> dir_ok (dec_dir bs)"
proof -
  have d: "length xs = 4 \<Longrightarrow> debytes xs < 4294967296" "length xs = 2 \<Longrightarrow> debytes xs < 65536" for xs
    using debytes_less [of xs 4] debytes_less [of xs 2] by (simp_all del: debytes.simps)
  show "length bs = 512 \<Longrightarrow> super_ok (dec_super bs)"
    by (simp add: super_ok_def dec_super_def d dewords_bound del: debytes.simps)
  show "length bs = 512 \<Longrightarrow> inode_ok (dec_inode bs)"
    by (simp add: inode_ok_def dec_inode_def d dewords_bound del: debytes.simps)
  show "length bs = 64 \<Longrightarrow> dir_ok (dec_dir bs)"
    by (simp add: dir_ok_def dec_dir_def d del: debytes.simps)
qed

section \<open>Properties\<close>



end
