(* ===== verification/Klhd.thy ===== *)
theory Klhd
  imports Kuio
begin

unbundle bit_operations_syntax

text \<open>
  The disk driver, \<open>kern/dev/lamebus/lhd.c\<close>.

  The disk itself is not part of the sources. It is the parameter \<open>lh_hw\<close> of the state: what the
  hardware does with a value stored in its status register, given its sector register, its on-card
  buffer and the state \<open>'d\<close> of its medium. The result is the status at the interrupt that ends the
  operation, the buffer and the medium. One thread at a time is in the driver; a wait on a
  semaphore with count 0 that no interrupt ends does not return.
\<close>

section \<open>Definitions\<close>

definition LHD_SECTSIZE :: nat where
  "LHD_SECTSIZE = 512"

definition LHD_STATEMASK :: "32 word" where
  "LHD_STATEMASK = 29"

type_synonym 'd lhd_hardware = "32 word \<Rightarrow> nat \<Rightarrow> byte list \<Rightarrow> 'd \<Rightarrow> 32 word \<times> byte list \<times> 'd"

record 'd lhd_softc =
  lh_hw :: "'d lhd_hardware"
  lh_disk :: 'd
  reg_stat :: "32 word"
  reg_sect :: nat
  lh_buf :: "byte list"
  lh_result :: rc
  lh_clear :: nat
  lh_done :: nat
  d_blocks :: nat
  d_blocksize :: nat

text \<open>\<open>lhd_rdreg\<close> and \<open>lhd_wreg\<close> on the two registers the driver uses: a value other than 0 in the status register starts an operation.\<close>

definition lhd_rdreg_stat :: "'d lhd_softc \<Rightarrow> 32 word" where
  "lhd_rdreg_stat lh = reg_stat lh"

definition lhd_wreg_sect :: "nat \<Rightarrow> 'd lhd_softc \<Rightarrow> 'd lhd_softc" where
  "lhd_wreg_sect val lh = lh\<lparr>reg_sect := val\<rparr>"

definition lhd_wreg_stat :: "32 word \<Rightarrow> 'd lhd_softc \<Rightarrow> 'd lhd_softc" where
  "lhd_wreg_stat val lh =
     (if val = 0 then lh\<lparr>reg_stat := 0\<rparr>
      else let (stat, buf, d) = lh_hw lh val (reg_sect lh) (lh_buf lh) (lh_disk lh)
           in lh\<lparr>reg_stat := stat, lh_buf := buf, lh_disk := d\<rparr>)"

definition lhd_code_to_errno :: "32 word \<Rightarrow> rc" where
  "lhd_code_to_errno code =
     (let st = code AND LHD_STATEMASK
      in if st = 4 then OK else if st = 12 then EINVAL else if st = 20 then EIO else EAGAIN)"

definition lhd_iodone :: "rc \<Rightarrow> 'd lhd_softc \<Rightarrow> 'd lhd_softc" where
  "lhd_iodone err lh = lh\<lparr>lh_result := err, lh_done := lh_done lh + 1\<rparr>"

definition lhd_irq :: "'d lhd_softc \<Rightarrow> 'd lhd_softc" where
  "lhd_irq lh =
     (let val = lhd_rdreg_stat lh; st = val AND LHD_STATEMASK
      in if st = 4 \<or> st = 12 \<or> st = 20 then lhd_iodone (lhd_code_to_errno val) (lhd_wreg_stat 0 lh)
         else lh)"

definition P_clear :: "'d lhd_softc \<Rightarrow> 'd lhd_softc option" where
  "P_clear lh = (if 0 < lh_clear lh then Some (lh\<lparr>lh_clear := lh_clear lh - 1\<rparr>) else None)"

definition V_clear :: "'d lhd_softc \<Rightarrow> 'd lhd_softc" where
  "V_clear lh = lh\<lparr>lh_clear := lh_clear lh + 1\<rparr>"

definition P_done :: "'d lhd_softc \<Rightarrow> 'd lhd_softc option" where
  "P_done lh =
     (let lh' = lhd_irq lh
      in if 0 < lh_done lh' then Some (lh'\<lparr>lh_done := lh_done lh' - 1\<rparr>) else None)"

definition lhd_open :: rc where
  "lhd_open = OK"

definition lhd_close :: rc where
  "lhd_close = OK"

definition lhd_ioctl :: rc where
  "lhd_ioctl = EIOCTL"

text \<open>One turn of the loop of \<open>lhd_io\<close>, and the loop.\<close>

definition lhd_sector :: "32 word \<Rightarrow> nat \<Rightarrow> uio \<Rightarrow> 'd lhd_softc \<Rightarrow> (rc \<times> uio \<times> 'd lhd_softc) option" where
  "lhd_sector statval sect u lh = do {
     lh \<leftarrow> P_clear lh;
     (result, buf, u) \<leftarrow> (if uio_rw u = UIO_WRITE then uiomove (lh_buf lh) 0 LHD_SECTSIZE u else Some (OK, lh_buf lh, u));
     let lh = lh\<lparr>lh_buf := buf\<rparr>;
     if result \<noteq> OK then Some (result, u, V_clear lh)
     else do {
       lh \<leftarrow> P_done (lhd_wreg_stat statval (lhd_wreg_sect sect lh));
       let result = lh_result lh;
       (result, buf, u) \<leftarrow> (if result = OK \<and> uio_rw u = UIO_READ then uiomove (lh_buf lh) 0 LHD_SECTSIZE u
                            else Some (result, lh_buf lh, u));
       Some (result, u, V_clear (lh\<lparr>lh_buf := buf\<rparr>))
     }
   }"

fun lhd_io_loop :: "nat \<Rightarrow> 32 word \<Rightarrow> nat \<Rightarrow> uio \<Rightarrow> 'd lhd_softc \<Rightarrow> (rc \<times> uio \<times> 'd lhd_softc) option" where
  "lhd_io_loop 0 statval sect u lh = Some (OK, u, lh)"
| "lhd_io_loop (Suc n) statval sect u lh = do {
     (result, u', lh') \<leftarrow> lhd_sector statval sect u lh;
     if result \<noteq> OK then Some (result, u', lh')
     else lhd_io_loop n statval (u32 (int sect + 1)) u' lh'
   }"

definition lhd_io :: "uio \<Rightarrow> 'd lhd_softc \<Rightarrow> (rc \<times> uio \<times> 'd lhd_softc) option" where
  "lhd_io u lh =
     (let sector = u32 (cdiv (uio_offset u) (int LHD_SECTSIZE));
          sectoff = u32 (crem (uio_offset u) (int LHD_SECTSIZE));
          len = uio_resid u div LHD_SECTSIZE;
          lenoff = uio_resid u mod LHD_SECTSIZE;
          statval = (if uio_rw u = UIO_WRITE then 1 OR 2 else 1)
      in if sectoff \<noteq> 0 \<or> lenoff \<noteq> 0 then Some (EINVAL, u, lh)
         else if u32 (int sector + int len) > d_blocks lh then Some (EINVAL, u, lh)
         else lhd_io_loop len statval sector u lh)"

section \<open>A disk that works\<close>

text \<open>
  The documented behaviour of the hardware, for a medium seen as numbered sectors. A read that
  succeeds leaves the sector in the buffer and changes no sector, a write that succeeds changes that
  sector alone, an operation on a sector of the disk ends with one of the final states, and a failed
  write touches no other sector. A disk is reliable when no operation fails.
\<close>

definition hw_sound :: "('d \<Rightarrow> nat \<Rightarrow> byte list) \<Rightarrow> nat \<Rightarrow> 'd lhd_hardware \<Rightarrow> bool" where
  "hw_sound sectors n hw \<longleftrightarrow>
     (\<forall>d s. length (sectors d s) = 512) \<and>
     (\<forall>s buf d st buf' d'. s < n \<longrightarrow> length buf = 512 \<longrightarrow> hw 1 s buf d = (st, buf', d') \<longrightarrow>
        st \<in> {4, 20} \<and> length buf' = 512 \<and> sectors d' = sectors d \<and> (st = 4 \<longrightarrow> buf' = sectors d s)) \<and>
     (\<forall>s buf d st buf' d'. s < n \<longrightarrow> length buf = 512 \<longrightarrow> hw 3 s buf d = (st, buf', d') \<longrightarrow>
        st \<in> {6, 22} \<and> length buf' = 512 \<and> (st = 6 \<longrightarrow> sectors d' = (sectors d)(s := buf))
        \<and> (\<forall>t. t \<noteq> s \<longrightarrow> sectors d' t = sectors d t))"

definition hw_reliable :: "nat \<Rightarrow> 'd lhd_hardware \<Rightarrow> bool" where
  "hw_reliable n hw \<longleftrightarrow> (\<forall>s buf d. s < n \<longrightarrow> fst (hw 1 s buf d) = 4 \<and> fst (hw 3 s buf d) = 6)"

definition lhd_idle :: "('d \<Rightarrow> nat \<Rightarrow> byte list) \<Rightarrow> 'd lhd_softc \<Rightarrow> bool" where
  "lhd_idle sectors lh \<longleftrightarrow> hw_sound sectors (d_blocks lh) (lh_hw lh) \<and> length (lh_buf lh) = 512
     \<and> lh_clear lh = 1 \<and> lh_done lh = 0 \<and> d_blocks lh < 4194304"

definition lhd_same :: "'d lhd_softc \<Rightarrow> 'd lhd_softc \<Rightarrow> bool" where
  "lhd_same lh lh' \<longleftrightarrow> lh_hw lh' = lh_hw lh \<and> d_blocks lh' = d_blocks lh \<and> d_blocksize lh' = d_blocksize lh"

lemmas lhd_steps = P_clear_def V_clear_def P_done_def lhd_irq_def lhd_iodone_def lhd_rdreg_stat_def
  lhd_wreg_stat_def lhd_wreg_sect_def lhd_code_to_errno_def LHD_STATEMASK_def LHD_SECTSIZE_def

lemma hw_sound_length: "hw_sound sectors n hw \<Longrightarrow> length (sectors d s) = 512"
  unfolding hw_sound_def by (drule conjunct1) blast

lemma hw_sound_read:
  assumes "hw_sound sectors n hw" and "s < n" and "length buf = 512" and "hw 1 s buf d = (st, buf', d')"
  shows "st = 4 \<and> buf' = sectors d s \<or> st = 20" "length buf' = 512" "sectors d' = sectors d"
  using assms unfolding hw_sound_def by (metis insert_iff singletonD)+

lemma hw_sound_write:
  assumes "hw_sound sectors n hw" and "s < n" and "length buf = 512" and "hw 3 s buf d = (st, buf', d')"
  shows "st = 6 \<and> sectors d' = (sectors d)(s := buf) \<or> st = 22" "length buf' = 512"
    "\<forall>t. t \<noteq> s \<longrightarrow> sectors d' t = sectors d t"
  using assms unfolding hw_sound_def by (metis insert_iff singletonD)+

lemma lhd_complete:
  assumes "lh_done lh = 0" and "lh_clear lh = 0" and "lh_hw lh v s (lh_buf lh) (lh_disk lh) = (st, buf', d')" and "v \<noteq> 0"
    and "st AND 29 \<in> {4, 20}"
  shows "P_done (lhd_wreg_stat v (lhd_wreg_sect s lh)) =
    Some (lh\<lparr>reg_sect := s, reg_stat := 0, lh_buf := buf', lh_disk := d', lh_done := 0,
             lh_result := if st AND 29 = 4 then OK else EIO\<rparr>)"
  using assms by (auto simp: lhd_steps Let_def)

lemma lhd_sector_read:
  assumes "lhd_idle sectors lh" and "s < d_blocks lh" and "uio_rw u = UIO_READ" and "uio_room 512 u"
  shows "\<exists>lh' r u'. lhd_sector 1 s u lh = Some (r, u', lh') \<and> lhd_idle sectors lh' \<and> lhd_same lh lh'
    \<and> sectors (lh_disk lh') = sectors (lh_disk lh)
    \<and> (r = OK \<and> u' = uio_put (sectors (lh_disk lh) s) u \<or> r = EIO \<and> u' = u)
    \<and> (hw_reliable (d_blocks lh) (lh_hw lh) \<longrightarrow> r = OK)"
proof -
  obtain st buf' d' where hw: "lh_hw lh 1 s (lh_buf lh) (lh_disk lh) = (st, buf', d')" by (cases "lh_hw lh 1 s (lh_buf lh) (lh_disk lh)")
  have i: "hw_sound sectors (d_blocks lh) (lh_hw lh)" "length (lh_buf lh) = 512" "lh_clear lh = 1" "lh_done lh = 0"
    using assms(1) by (simp_all add: lhd_idle_def)
  note o = hw_sound_read [OF i(1) assms(2) i(2) hw]
  have rel: "hw_reliable (d_blocks lh) (lh_hw lh) \<longrightarrow> st = 4"
    using assms(2) hw unfolding hw_reliable_def by (metis fst_conv)
  have mv: "uiomove buf' 0 512 u = Some (OK, buf', uio_put buf' u)"
    using uiomove_read [OF assms(4), of 0 buf'] assms(3) o(2) by simp
  let ?lh = "lh\<lparr>lh_clear := 1, reg_sect := s, reg_stat := 0, lh_buf := buf', lh_disk := d', lh_done := 0,
               lh_result := if st AND 29 = 4 then OK else EIO\<rparr>"
  have "lhd_sector 1 s u lh = Some (if st = 4 then OK else EIO, if st = 4 then uio_put buf' u else u, ?lh)"
    using o(1) lhd_complete [of "lh\<lparr>lh_clear := 0\<rparr>" 1 s st buf' d'] hw i mv assms(3)
    by (auto simp: lhd_sector_def P_clear_def V_clear_def LHD_SECTSIZE_def)
  moreover have "lhd_idle sectors ?lh" "lhd_same lh ?lh"
    using assms(1) o(2) by (simp_all add: lhd_idle_def lhd_same_def)
  ultimately show ?thesis using o(1,3) rel by auto
qed

lemma lhd_sector_write:
  assumes "lhd_idle sectors lh" and "s < d_blocks lh" and "uio_rw u = UIO_WRITE" and "uio_room 512 u"
  shows "\<exists>lh' r. lhd_sector 3 s u lh = Some (r, uio_adv 512 u, lh') \<and> lhd_idle sectors lh' \<and> lhd_same lh lh'
    \<and> (r = OK \<and> sectors (lh_disk lh') = (sectors (lh_disk lh))(s := block (uio_mem u) (iov_base u) 512) \<or> r = EIO)
    \<and> (\<forall>t. t \<noteq> s \<longrightarrow> sectors (lh_disk lh') t = sectors (lh_disk lh) t)
    \<and> (hw_reliable (d_blocks lh) (lh_hw lh) \<longrightarrow> r = OK)"
proof -
  let ?b = "block (uio_mem u) (iov_base u) 512"
  have i: "hw_sound sectors (d_blocks lh) (lh_hw lh)" "length (lh_buf lh) = 512" "lh_clear lh = 1" "lh_done lh = 0"
    using assms(1) by (simp_all add: lhd_idle_def)
  have mv: "uiomove (lh_buf lh) 0 512 u = Some (OK, ?b, uio_adv 512 u)"
    using uiomove_write [OF assms(4), of 0 "lh_buf lh"] i(2) assms(3) by (simp add: splice_at_def)
  obtain st buf' d' where hw: "lh_hw lh 3 s ?b (lh_disk lh) = (st, buf', d')" by (cases "lh_hw lh 3 s ?b (lh_disk lh)")
  note o = hw_sound_write [OF i(1) assms(2) length_block hw]
  have rel: "hw_reliable (d_blocks lh) (lh_hw lh) \<longrightarrow> st = 6"
    using assms(2) hw unfolding hw_reliable_def by (metis fst_conv)
  let ?lh = "lh\<lparr>lh_clear := 1, reg_sect := s, reg_stat := 0, lh_buf := buf', lh_disk := d', lh_done := 0,
               lh_result := if st AND 29 = 4 then OK else EIO\<rparr>"
  have "lhd_sector 3 s u lh = Some (if st = 6 then OK else EIO, uio_adv 512 u, ?lh)"
    using o(1) lhd_complete [of "lh\<lparr>lh_clear := 0, lh_buf := ?b\<rparr>" 3 s st buf' d'] hw i mv assms(3)
    by (auto simp: lhd_sector_def P_clear_def V_clear_def LHD_SECTSIZE_def)
  moreover have "lhd_idle sectors ?lh" "lhd_same lh ?lh"
    using assms(1) o(2) by (simp_all add: lhd_idle_def lhd_same_def)
  ultimately show ?thesis using o(1,3) rel by auto
qed

lemma lhd_io_loop_read:
  assumes "lhd_idle sectors lh" and "s + n \<le> d_blocks lh" and "uio_rw u = UIO_READ" and "uio_room (512 * n) u"
    and "hw_reliable (d_blocks lh) (lh_hw lh)"
  shows "\<exists>lh'. lhd_io_loop n 1 s u lh = Some (OK, uio_put (concat (map (sectors (lh_disk lh)) [s..<s + n])) u, lh')
    \<and> lhd_idle sectors lh' \<and> lhd_same lh lh' \<and> sectors (lh_disk lh') = sectors (lh_disk lh)"
  using assms
proof (induction n arbitrary: s u lh)
  case 0
  then show ?case by (simp add: lhd_same_def)
next
  case (Suc n)
  let ?b = "sectors (lh_disk lh) s"
  have len: "length ?b = 512" using Suc.prems(1) by (simp add: lhd_idle_def hw_sound_def)
  from lhd_sector_read [OF Suc.prems(1) _ Suc.prems(3) uio_room_le [OF Suc.prems(4)], of s] Suc.prems(2,5)
  obtain lh1 where h: "lhd_sector 1 s u lh = Some (OK, uio_put ?b u, lh1)" "lhd_idle sectors lh1" "lhd_same lh lh1"
      "sectors (lh_disk lh1) = sectors (lh_disk lh)" by auto
  have "uio_room (512 * n) (uio_put ?b u)" using uio_room_put [OF Suc.prems(4), of ?b] len by simp
  then obtain lh' where l: "lhd_io_loop n 1 (Suc s) (uio_put ?b u) lh1
      = Some (OK, uio_put (concat (map (sectors (lh_disk lh)) [Suc s..<Suc s + n])) (uio_put ?b u), lh')"
      "lhd_idle sectors lh'" "lhd_same lh1 lh'" "sectors (lh_disk lh') = sectors (lh_disk lh)"
    using Suc.IH [of lh1 "Suc s" "uio_put ?b u"] Suc.prems h by (auto simp: lhd_same_def)
  have s: "u32 (int s + 1) = Suc s"
    using Suc.prems(1,2) by (subst u32_id) (auto simp: lhd_idle_def)
  have "concat (map (sectors (lh_disk lh)) [s..<s + Suc n]) = ?b @ concat (map (sectors (lh_disk lh)) [Suc s..<Suc s + n])"
    by (simp add: upt_conv_Cons del: upt_Suc)
  then have "lhd_io_loop (Suc n) 1 s u lh = Some (OK, uio_put (concat (map (sectors (lh_disk lh)) [s..<s + Suc n])) u, lh')"
    using h(1) l(1) s by (simp add: uio_put_append del: upt_Suc)
  with l h(3) show ?case by (auto simp: lhd_same_def)
qed

definition wrote :: "nat \<Rightarrow> nat \<Rightarrow> uio \<Rightarrow> (nat \<Rightarrow> byte list) \<Rightarrow> nat \<Rightarrow> byte list" where
  "wrote s n u f = (\<lambda>t. if s \<le> t \<and> t < s + n then block (uio_mem u) (iov_base u + 512 * (t - s)) 512 else f t)"

lemma wrote_step:
  "wrote (Suc s) n (uio_adv 512 u) (f(s := block (uio_mem u) (iov_base u) 512)) = wrote s (Suc n) u f"
proof
  fix t
  consider "t < s" | "t = s" | "s < t" by linarith
  then show "wrote (Suc s) n (uio_adv 512 u) (f(s := block (uio_mem u) (iov_base u) 512)) t = wrote s (Suc n) u f t"
  proof cases
    case 3
    then have "512 + 512 * (t - Suc s) = 512 * (t - s)" by (metis Suc_diff_Suc mult_Suc_right)
    with 3 show ?thesis by (simp add: wrote_def add.assoc Suc_le_eq)
  qed (auto simp: wrote_def)
qed

lemma lhd_io_loop_write:
  assumes "lhd_idle sectors lh" and "s + n \<le> d_blocks lh" and "uio_rw u = UIO_WRITE" and "uio_room (512 * n) u"
    and "hw_reliable (d_blocks lh) (lh_hw lh)"
  shows "\<exists>lh'. lhd_io_loop n 3 s u lh = Some (OK, uio_adv (512 * n) u, lh')
    \<and> lhd_idle sectors lh' \<and> lhd_same lh lh' \<and> sectors (lh_disk lh') = wrote s n u (sectors (lh_disk lh))"
  using assms
proof (induction n arbitrary: s u lh)
  case 0
  then show ?case by (auto simp: lhd_same_def wrote_def fun_eq_iff)
next
  case (Suc n)
  from lhd_sector_write [OF Suc.prems(1) _ Suc.prems(3) uio_room_le [OF Suc.prems(4)], of s] Suc.prems(2,5)
  obtain lh1 where h: "lhd_sector 3 s u lh = Some (OK, uio_adv 512 u, lh1)" "lhd_idle sectors lh1" "lhd_same lh lh1"
      "sectors (lh_disk lh1) = (sectors (lh_disk lh))(s := block (uio_mem u) (iov_base u) 512)" by auto
  have "uio_room (512 * n) (uio_adv 512 u)" using uio_room_adv [OF Suc.prems(4), of 512] by simp
  then obtain lh' where l: "lhd_io_loop n 3 (Suc s) (uio_adv 512 u) lh1 = Some (OK, uio_adv (512 * n) (uio_adv 512 u), lh')"
      "lhd_idle sectors lh'" "lhd_same lh1 lh'" "sectors (lh_disk lh') = wrote (Suc s) n (uio_adv 512 u) (sectors (lh_disk lh1))"
    using Suc.IH [of lh1 "Suc s" "uio_adv 512 u"] Suc.prems h(1-3) by (auto simp: lhd_same_def)
  have s: "u32 (int s + 1) = Suc s"
    using Suc.prems(1,2) by (subst u32_id) (auto simp: lhd_idle_def)
  have "lhd_io_loop (Suc n) 3 s u lh = Some (OK, uio_adv (512 * Suc n) u, lh')"
    using h(1) l(1) s by (simp add: uio_adv_add)
  moreover have "sectors (lh_disk lh') = wrote s (Suc n) u (sectors (lh_disk lh))"
    using l(4) h(4) wrote_step by simp
  ultimately show ?case using l(2,3) h(3) by (auto simp: lhd_same_def)
qed

lemma lhd_io_eq:
  assumes "uio_offset u = 512 * int s" and "uio_resid u = 512 * n" and "s < 4194304" and "n < 8388608"
  shows "lhd_io u lh = (if d_blocks lh < s + n then Some (EINVAL, u, lh)
     else lhd_io_loop n (if uio_rw u = UIO_WRITE then 3 else 1) s u lh)"
proof -
  have "u32 (cdiv (uio_offset u) (int LHD_SECTSIZE)) = s" "u32 (crem (uio_offset u) (int LHD_SECTSIZE)) = 0"
    using assms(1,3) by (simp_all add: LHD_SECTSIZE_def cdiv_nonneg crem_mod u32_def)
  moreover have "u32 (int s + int n) = s + n" using assms(3,4) by (subst u32_id) (auto simp: nat_add_distrib)
  ultimately show ?thesis using assms(2) by (simp add: lhd_io_def LHD_SECTSIZE_def Let_def)
qed

section \<open>Properties\<close>

text \<open>C32. On a disk with no media errors a request of \<open>n\<close> whole sectors from sector \<open>s\<close> inside the disk returns
  0: a read delivers the sectors' bytes in order to the block of the uio and changes no sector, a
  write stores the bytes of the block in those sectors and changes no other, and the driver is idle
  again. A request that passes the end of the disk is refused with \<open>EINVAL\<close> and does nothing.\<close>

theorem lhd_io_transfers:
  assumes "lhd_idle sectors lh" and "hw_reliable (d_blocks lh) (lh_hw lh)" and "uio_room (512 * n) u"
    and "uio_offset u = 512 * int s" and "uio_resid u = 512 * n"
  shows "if d_blocks lh < s + n then lhd_io u lh = Some (EINVAL, u, lh)
    else \<exists>u' lh'. lhd_io u lh = Some (OK, u', lh') \<and> lhd_idle sectors lh' \<and> uio_resid u' = 0
      \<and> (uio_rw u = UIO_READ \<longrightarrow> uio_mem u' = put (uio_mem u) (iov_base u) (concat (map (sectors (lh_disk lh)) [s..<s + n]))
           \<and> sectors (lh_disk lh') = sectors (lh_disk lh))
      \<and> (uio_rw u = UIO_WRITE \<longrightarrow> uio_mem u' = uio_mem u
           \<and> (\<forall>t. sectors (lh_disk lh') t = (if s \<le> t \<and> t < s + n then block (uio_mem u) (iov_base u + 512 * (t - s)) 512
                else sectors (lh_disk lh) t)))"
proof -
  have b: "s < 4194304" "n < 8388608" using assms(3-5) by (auto simp: uio_room_def INT_MAX_def)
  note e = lhd_io_eq [OF assms(4,5) b, of lh]
  show ?thesis
  proof (cases "d_blocks lh < s + n")
    case True
    with e show ?thesis by simp
  next
    case False
    show ?thesis
    proof (cases "uio_rw u")
      case UIO_READ
      have len: "\<And>t. length (sectors (lh_disk lh) t) = 512" using assms(1) by (simp add: lhd_idle_def hw_sound_def)
      have "length (concat (map (sectors (lh_disk lh)) [s..<s + n])) = 512 * n"
        by (simp add: length_concat comp_def len sum_list_triv)
      with lhd_io_loop_read [OF assms(1) _ UIO_READ assms(3,2), of s] False e UIO_READ assms(5) show ?thesis by auto
    next
      case UIO_WRITE
      with lhd_io_loop_write [OF assms(1) _ UIO_WRITE assms(3,2), of s] False e assms(5) show ?thesis
        by (auto simp: wrote_def)
    qed
  qed
qed

text \<open>A disk of sectors without errors.\<close>

fun ram_disk :: "(nat \<Rightarrow> byte list) lhd_hardware" where
  "ram_disk v s buf d = (if v = 1 then (4, take 512 (d s @ replicate 512 0), d) else (6, buf, d(s := buf)))"

definition ram_sectors :: "(nat \<Rightarrow> byte list) \<Rightarrow> nat \<Rightarrow> byte list" where
  "ram_sectors d s = take 512 (d s @ replicate 512 0)"

definition ram_lhd :: "nat \<Rightarrow> (nat \<Rightarrow> byte list) \<Rightarrow> (nat \<Rightarrow> byte list) lhd_softc" where
  "ram_lhd n d = \<lparr>lh_hw = ram_disk, lh_disk = d, reg_stat = 0, reg_sect = 0, lh_buf = replicate 512 0, lh_result = OK,
     lh_clear = 1, lh_done = 0, d_blocks = n, d_blocksize = LHD_SECTSIZE\<rparr>"

lemma ram_lhd_idle: "n < 4194304 \<Longrightarrow> lhd_idle ram_sectors (ram_lhd n d)"
  by (auto simp: lhd_idle_def ram_lhd_def hw_sound_def ram_sectors_def)

lemma ram_lhd_reliable: "hw_reliable m (lh_hw (ram_lhd n d))"
  by (simp add: hw_reliable_def ram_lhd_def)

theorem lhd_io_transfers_witness:
  "\<exists>u' lh'. lhd_io (mk_kuio (\<lambda>x. Some 7) 0 512 1024 UIO_WRITE) (ram_lhd 8 (\<lambda>s. [])) = Some (OK, u', lh')
     \<and> ram_sectors (lh_disk lh') 2 = block (\<lambda>x. Some 7) 0 512"
  using lhd_io_transfers [of ram_sectors "ram_lhd 8 (\<lambda>s. [])" 1 "mk_kuio (\<lambda>x. Some 7) 0 512 1024 UIO_WRITE" 2]
    ram_lhd_idle [of 8 "\<lambda>s. []"] ram_lhd_reliable [of 8 8 "\<lambda>s. []"]
  by (auto simp: uio_room_def mk_kuio_def mapped_def INT_MAX_def ram_lhd_def)

end
