(* ===== verification/Kbitmap.thy ===== *)
theory Kbitmap
  imports Kprelude
begin

unbundle bit_operations_syntax

text \<open>
  The bit array of \<open>kern/lib/bitmap.c\<close>, which SFS uses as the map of its used blocks. The words are
  bytes (\<open>WORD_TYPE\<close> is \<open>unsigned char\<close>). The abstraction \<open>used\<close> is the set of the indices whose
  bit is set; the locale \<open>slot_map\<close> is the contract of \<open>bitmap.h\<close> over it.
\<close>

section \<open>The operations\<close>

record bitmap =
  b_nbits :: nat
  b_v :: "8 word list"

definition WORD_ALLBITS :: "8 word" where
  "WORD_ALLBITS = 0xff"

text \<open>\<open>DIVROUNDUP(nbits, BITS_PER_WORD)\<close> on \<open>u_int32_t\<close>.\<close>

definition bitmap_words :: "nat \<Rightarrow> nat" where
  "bitmap_words nbits = u32 (int nbits + 8 - 1) div 8"

definition bitmask :: "nat \<Rightarrow> 8 word" where
  "bitmask offset = push_bit offset 1"

text \<open>The loop that marks bits \<open>j\<close> up to 7 of a word.\<close>

fun mark_from :: "nat \<Rightarrow> nat \<Rightarrow> 8 word \<Rightarrow> 8 word" where
  "mark_from 0 j w = w"
| "mark_from (Suc n) j w = (if j < 8 then mark_from n (Suc j) (w OR bitmask j) else w)"

definition bitmap_create :: "kmalloc_outcome \<Rightarrow> nat \<Rightarrow> bitmap nullable option" where
  "bitmap_create km nbits =
     (let words = bitmap_words nbits in
      if \<not> km 8 then Some NULL
      else if \<not> km words then Some NULL
      else let v = replicate words 0 in
        if nbits div 8 < words then do {
          let ix = words - 1;
          let overbits = u32 (int nbits - int (ix * 8));
          kassert (nbits div 8 = words - 1);
          kassert (overbits > 0 \<and> overbits < 8);
          Some (Ptr \<lparr>b_nbits = nbits, b_v = v[ix := mark_from 8 overbits (v ! ix)]\<rparr>)
        }
        else Some (Ptr \<lparr>b_nbits = nbits, b_v = v\<rparr>))"

definition bitmap_getdata :: "bitmap \<Rightarrow> 8 word list" where
  "bitmap_getdata b = b_v b"

text \<open>The inner loop of \<open>bitmap_alloc\<close>: the first clear bit of a word; none is \<open>assert(0)\<close>.\<close>

fun find_clear :: "nat \<Rightarrow> nat \<Rightarrow> 8 word \<Rightarrow> nat option" where
  "find_clear 0 offset w = None"
| "find_clear (Suc n) offset w =
     (if w AND bitmask offset = 0 then Some offset else find_clear n (Suc offset) w)"

text \<open>The outer loop, over the words \<open>ix\<close> to \<open>maxix\<close>; \<open>n\<close> words are left.\<close>

fun bitmap_scan :: "nat \<Rightarrow> nat \<Rightarrow> bitmap \<Rightarrow> ((rc + nat) \<times> bitmap) option" where
  "bitmap_scan 0 ix b = Some (Inl ENOSPC, b)"
| "bitmap_scan (Suc n) ix b = do {
     w \<leftarrow> rd (b_v b) (int ix);
     if w \<noteq> WORD_ALLBITS then do {
       offset \<leftarrow> find_clear 8 0 w;
       let index = ix * 8 + offset;
       kassert (index < b_nbits b);
       Some (Inr index, b\<lparr>b_v := (b_v b)[ix := w OR bitmask offset]\<rparr>)
     }
     else bitmap_scan n (Suc ix) b
   }"

definition bitmap_alloc :: "bitmap \<Rightarrow> ((rc + nat) \<times> bitmap) option" where
  "bitmap_alloc b = bitmap_scan (bitmap_words (b_nbits b)) 0 b"

definition bitmap_translate :: "nat \<Rightarrow> nat \<times> 8 word" where
  "bitmap_translate bitno = (bitno div 8, bitmask (bitno mod 8))"

definition bitmap_mark :: "bitmap \<Rightarrow> nat \<Rightarrow> bitmap option" where
  "bitmap_mark b index = do {
     kassert (index < b_nbits b);
     let (ix, mask) = bitmap_translate index;
     w \<leftarrow> rd (b_v b) (int ix);
     kassert (w AND mask = 0);
     Some (b\<lparr>b_v := (b_v b)[ix := w OR mask]\<rparr>)
   }"

definition bitmap_unmark :: "bitmap \<Rightarrow> nat \<Rightarrow> bitmap option" where
  "bitmap_unmark b index = do {
     kassert (index < b_nbits b);
     let (ix, mask) = bitmap_translate index;
     w \<leftarrow> rd (b_v b) (int ix);
     kassert (w AND mask \<noteq> 0);
     Some (b\<lparr>b_v := (b_v b)[ix := w AND NOT mask]\<rparr>)
   }"

definition bitmap_isset :: "bitmap \<Rightarrow> nat \<Rightarrow> 8 word option" where
  "bitmap_isset b index = do {
     let (ix, mask) = bitmap_translate index;
     w \<leftarrow> rd (b_v b) (int ix);
     Some (w AND mask)
   }"

section \<open>Invariant and abstraction\<close>

text \<open>\<open>bitmap_destroy\<close> gives the two blocks back to \<open>kfree\<close>; the result lists their sizes in bytes.\<close>

definition bitmap_destroy :: "bitmap \<Rightarrow> nat list" where
  "bitmap_destroy b = [length (b_v b), 8]"

definition used :: "bitmap \<Rightarrow> nat set" where
  "used b = {i. i < 8 * length (b_v b) \<and> bit (b_v b ! (i div 8)) (i mod 8)}"

definition bitmap_inv :: "bitmap \<Rightarrow> bool" where
  "bitmap_inv b \<longleftrightarrow> b_nbits b + 7 < 4294967296 \<and> length (b_v b) = (b_nbits b + 7) div 8
     \<and> (\<forall>i. b_nbits b \<le> i \<and> i < 8 * length (b_v b) \<longrightarrow> i \<in> used b)"

lemma bitmask_bit: "(w AND bitmask i = 0) = (\<not> bit w i)"
  by (simp add: bitmask_def bit_iff_and_push_bit_not_eq_0)

lemma bit_bitmask: "bit (bitmask i) k = (k = i \<and> i < 8)"
  by (auto simp: bitmask_def bit_exp_iff)

lemma bit_or_bitmask: "i < 8 \<Longrightarrow> bit (w OR bitmask i) k = (bit w k \<or> k = i)"
  by (auto simp: bit_or_iff bit_bitmask)

lemma bit_clear_bitmask: "bit (w AND NOT (bitmask i)) k = (bit w k \<and> k \<noteq> i)" for w :: "8 word"
  by (auto simp: bit_and_iff bit_not_iff bit_bitmask dest: bit_imp_le_length)

lemma used_update:
  assumes "ix < length (b_v b)" and "k < 8"
  shows "ix * 8 + k < 8 * length (b_v b)"
    and "used (b\<lparr>b_v := (b_v b)[ix := b_v b ! ix OR bitmask k]\<rparr>) = insert (ix * 8 + k) (used b)"
    and "used (b\<lparr>b_v := (b_v b)[ix := b_v b ! ix AND NOT (bitmask k)]\<rparr>) = used b - {ix * 8 + k}"
proof -
  show lt: "ix * 8 + k < 8 * length (b_v b)"
    using assms by linarith
  have eq: "i = ix * 8 + k \<longleftrightarrow> i div 8 = ix \<and> i mod 8 = k" for i
    using assms(2) by (metis add.commute div_mod_decomp div_mult_self3 mod_less mod_mult_self3
        div_less add.right_neutral zero_neq_numeral)
  show "used (b\<lparr>b_v := (b_v b)[ix := b_v b ! ix OR bitmask k]\<rparr>) = insert (ix * 8 + k) (used b)"
    using assms lt by (auto simp: used_def nth_list_update bit_or_bitmask eq)
  show "used (b\<lparr>b_v := (b_v b)[ix := b_v b ! ix AND NOT (bitmask k)]\<rparr>) = used b - {ix * 8 + k}"
    using assms lt by (auto simp: used_def nth_list_update bit_clear_bitmask eq)
qed

lemma find_clear_Some:
  "find_clear n off w = Some k \<Longrightarrow> off \<le> k \<and> k < off + n \<and> \<not> bit w k \<and> (\<forall>j. off \<le> j \<and> j < k \<longrightarrow> bit w j)"
proof (induction n arbitrary: off)
  case 0
  then show ?case by simp
next
  case (Suc n)
  show ?case
  proof (cases "bit w off")
    case True
    with Suc.prems have "find_clear n (Suc off) w = Some k"
      by (simp add: bitmask_bit)
    from Suc.IH [OF this] True show ?thesis
      by (metis Suc_leD Suc_leI add_Suc_shift le_neq_implies_less)
  next
    case False
    with Suc.prems show ?thesis by (auto simp: bitmask_bit)
  qed
qed

lemma find_clear_None: "find_clear n off w = None \<Longrightarrow> off \<le> j \<Longrightarrow> j < off + n \<Longrightarrow> bit w j"
proof (induction n arbitrary: off)
  case 0
  then show ?case by simp
next
  case (Suc n)
  then show ?case
    by (cases "j = off") (auto simp: bitmask_bit split: if_splits)
qed

lemma word_allbits: "w = WORD_ALLBITS \<longleftrightarrow> (\<forall>k < 8. bit w k)"
proof -
  have eq: "WORD_ALLBITS = - 1"
    by (simp add: WORD_ALLBITS_def)
  show ?thesis
    unfolding eq by (auto intro: bit_word_eqI)
qed

lemma used_word:
  "ix < length (b_v b) \<Longrightarrow> k < 8 \<Longrightarrow> ix * 8 + k \<in> used b \<longleftrightarrow> bit (b_v b ! ix) k"
  by (simp add: used_def mult.commute)

lemma bitmap_scan_spec:
  assumes "ix + n = length (b_v b)" and "\<forall>i < ix * 8. i \<in> used b"
    and "\<forall>i. b_nbits b \<le> i \<and> i < 8 * length (b_v b) \<longrightarrow> i \<in> used b"
  shows "(\<exists>i. bitmap_scan n ix b = Some (Inr i, b\<lparr>b_v := (b_v b)[i div 8 := b_v b ! (i div 8) OR bitmask (i mod 8)]\<rparr>)
            \<and> i < b_nbits b \<and> i < 8 * length (b_v b) \<and> i \<notin> used b \<and> (\<forall>j < i. j \<in> used b))
         \<or> (bitmap_scan n ix b = Some (Inl ENOSPC, b) \<and> (\<forall>i < 8 * length (b_v b). i \<in> used b))"
  using assms
proof (induction n arbitrary: ix)
  case 0
  then show ?case by (simp add: mult.commute)
next
  case (Suc n)
  then have ix: "ix < length (b_v b)" by simp
  show ?case
  proof (cases "b_v b ! ix = WORD_ALLBITS")
    case True
    have "i \<in> used b" if "i < Suc ix * 8" for i
    proof (cases "i < ix * 8")
      case False
      with that have "i - ix * 8 < 8" "i = ix * 8 + (i - ix * 8)" by auto
      with True used_word [OF ix, of "i - ix * 8"] show ?thesis
        using word_allbits [of "b_v b ! ix"] by simp
    qed (use Suc.prems(2) in blast)
    then have "\<forall>i < Suc ix * 8. i \<in> used b" by blast
    with Suc.IH [of "Suc ix"] Suc.prems True ix show ?thesis by simp
  next
    case False
    then have "find_clear 8 0 (b_v b ! ix) \<noteq> None"
      using find_clear_None [of 8 0 "b_v b ! ix"] word_allbits [of "b_v b ! ix"] by auto
    then obtain k where k: "find_clear 8 0 (b_v b ! ix) = Some k" by blast
    note K = find_clear_Some [OF k]
    have notin: "ix * 8 + k \<notin> used b"
      using K ix by (simp add: used_word)
    then have lt: "ix * 8 + k < b_nbits b"
      using Suc.prems(3) used_update(1) [OF ix, of k] K by (auto simp: not_less [symmetric])
    have below: "j \<in> used b" if "j < ix * 8 + k" for j
      using that Suc.prems(2) K used_word [OF ix, of "j - ix * 8"]
      by (cases "j < ix * 8") auto
    have "(ix * 8 + k) div 8 = ix" "(ix * 8 + k) mod 8 = k"
      using K by simp_all
    then show ?thesis
      using k K ix False lt notin below used_update(1) [OF ix, of k]
      by (intro disjI1 exI [of _ "ix * 8 + k"]) simp
  qed
qed

lemma bitmap_invD:
  assumes "bitmap_inv b"
  shows "length (b_v b) = (b_nbits b + 7) div 8" "bitmap_words (b_nbits b) = length (b_v b)"
    "b_nbits b \<le> 8 * length (b_v b)"
    "\<forall>i. b_nbits b \<le> i \<and> i < 8 * length (b_v b) \<longrightarrow> i \<in> used b"
  using assms by (auto simp: bitmap_inv_def bitmap_words_def u32_id nat_add_distrib)

lemma bitmap_inv_insert:
  "bitmap_inv b \<Longrightarrow> length v = length (b_v b) \<Longrightarrow> used b \<subseteq> used (b\<lparr>b_v := v\<rparr>) \<Longrightarrow> bitmap_inv (b\<lparr>b_v := v\<rparr>)"
  by (auto simp: bitmap_inv_def)

lemma used_mod:
  assumes "i < 8 * length (b_v b)"
  shows "used (b\<lparr>b_v := (b_v b)[i div 8 := b_v b ! (i div 8) OR bitmask (i mod 8)]\<rparr>) = insert i (used b)"
    and "used (b\<lparr>b_v := (b_v b)[i div 8 := b_v b ! (i div 8) AND NOT (bitmask (i mod 8))]\<rparr>) = used b - {i}"
  using used_update(2,3) [of "i div 8" b "i mod 8"] assms by auto

text \<open>\<open>bitmap_alloc\<close> takes the least clear bit, or reports \<open>ENOSPC\<close> when every bit is set.\<close>

lemma bitmap_alloc_spec:
  assumes "bitmap_inv b"
  shows "(\<exists>i b'. bitmap_alloc b = Some (Inr i, b') \<and> bitmap_inv b' \<and> b_nbits b' = b_nbits b
             \<and> i < b_nbits b \<and> i \<notin> used b \<and> (\<forall>j < i. j \<in> used b) \<and> used b' = insert i (used b))
         \<or> (bitmap_alloc b = Some (Inl ENOSPC, b) \<and> (\<forall>i < b_nbits b. i \<in> used b))"
proof -
  note D = bitmap_invD [OF assms]
  from bitmap_scan_spec [of 0 "length (b_v b)" b] D(4)
  consider (ok) i where "bitmap_alloc b =
        Some (Inr i, b\<lparr>b_v := (b_v b)[i div 8 := b_v b ! (i div 8) OR bitmask (i mod 8)]\<rparr>)"
      "i < b_nbits b" "i < 8 * length (b_v b)" "i \<notin> used b" "\<forall>j < i. j \<in> used b"
    | (full) "bitmap_alloc b = Some (Inl ENOSPC, b)" "\<forall>i < 8 * length (b_v b). i \<in> used b"
    by (auto simp: bitmap_alloc_def D(2))
  then show ?thesis
  proof cases
    case ok
    then show ?thesis
      using used_mod(1) [OF ok(3)] bitmap_inv_insert [OF assms, of
          "(b_v b)[i div 8 := b_v b ! (i div 8) OR bitmask (i mod 8)]"]
      by auto
  next
    case full
    with D(3) show ?thesis by auto
  qed
qed

lemma bitmap_isset_spec:
  assumes "bitmap_inv b" and "i < b_nbits b"
  shows "\<exists>w. bitmap_isset b i = Some w \<and> (w \<noteq> 0 \<longleftrightarrow> i \<in> used b)"
  using assms bitmap_invD(3) [OF assms(1)]
  by (auto simp: bitmap_isset_def bitmap_translate_def bitmask_bit used_def)

lemma bitmap_mark_spec:
  assumes "bitmap_inv b" and "i < b_nbits b" and "i \<notin> used b"
  shows "\<exists>b'. bitmap_mark b i = Some b' \<and> bitmap_inv b' \<and> b_nbits b' = b_nbits b \<and> used b' = insert i (used b)"
proof -
  have i: "i < 8 * length (b_v b)"
    using assms bitmap_invD(3) [OF assms(1)] by simp
  then show ?thesis
    using assms used_mod(1) [OF i] bitmap_inv_insert [OF assms(1), of
        "(b_v b)[i div 8 := b_v b ! (i div 8) OR bitmask (i mod 8)]"]
    by (auto simp: bitmap_mark_def bitmap_translate_def bitmask_bit used_def)
qed

lemma bitmap_unmark_spec:
  assumes "bitmap_inv b" and "i < b_nbits b" and "i \<in> used b"
  shows "\<exists>b'. bitmap_unmark b i = Some b' \<and> bitmap_inv b' \<and> b_nbits b' = b_nbits b \<and> used b' = used b - {i}"
proof -
  have i: "i < 8 * length (b_v b)"
    using assms bitmap_invD(3) [OF assms(1)] by simp
  let ?v = "(b_v b)[i div 8 := b_v b ! (i div 8) AND NOT (bitmask (i mod 8))]"
  have "bitmap_unmark b i = Some (b\<lparr>b_v := ?v\<rparr>)"
    using assms i by (simp add: bitmap_unmark_def bitmap_translate_def bitmask_bit used_def)
  moreover have "bitmap_inv (b\<lparr>b_v := ?v\<rparr>)"
    using assms used_mod(2) [OF i] by (auto simp: bitmap_inv_def)
  ultimately show ?thesis
    using used_mod(2) [OF i] by simp
qed

text \<open>Freeing a block that is free, or outside the map, is a stop, and so is marking a used one.\<close>

lemma bitmap_unmark_panic: "bitmap_inv b \<Longrightarrow> i \<notin> used b \<or> b_nbits b \<le> i \<Longrightarrow> bitmap_unmark b i = None"
  using bitmap_invD(3) [of b]
  by (auto simp: bitmap_unmark_def bitmap_translate_def bitmask_bit used_def kassert_def rd_def)

lemma bitmap_mark_panic: "bitmap_inv b \<Longrightarrow> i \<in> used b \<or> b_nbits b \<le> i \<Longrightarrow> bitmap_mark b i = None"
  by (auto simp: bitmap_mark_def bitmap_translate_def bitmask_bit used_def kassert_def rd_def)

section \<open>A fresh map\<close>

lemma mark_from_bits: "n + j = 8 \<Longrightarrow> bit (mark_from n j w) k = (bit w k \<or> (j \<le> k \<and> k < 8))"
proof (induction n arbitrary: j w)
  case 0
  then show ?case by auto
next
  case (Suc n)
  then have "bit (mark_from (Suc n) j w) k = (bit (w OR bitmask j) k \<or> (Suc j \<le> k \<and> k < 8))"
    by simp
  also have "\<dots> = (bit w k \<or> (j \<le> k \<and> k < 8))"
    using Suc.prems by (auto simp: bit_or_bitmask le_less Suc_le_eq)
  finally show ?case .
qed

lemma mark_from_more: "8 - j \<le> n \<Longrightarrow> j \<le> 8 \<Longrightarrow> mark_from n j w = mark_from (8 - j) j w"
proof (induction n arbitrary: j w)
  case 0
  then show ?case by simp
next
  case (Suc n)
  show ?case
  proof (cases "j < 8")
    case True
    then obtain m where m: "8 - j = Suc m" "8 - Suc j = m"
      by (metis Suc_diff_Suc)
    with Suc.IH [of "Suc j" "w OR bitmask j"] Suc.prems True show ?thesis by simp
  next
    case False
    with Suc.prems show ?thesis by simp
  qed
qed

lemma bitmap_create_spec:
  assumes "nbits + 7 < 4294967296" and "km 8" and "km ((nbits + 7) div 8)"
  shows "\<exists>b. bitmap_create km nbits = Some (Ptr b) \<and> bitmap_inv b \<and> b_nbits b = nbits
           \<and> (\<forall>i < nbits. i \<notin> used b)"
proof -
  let ?w = "(nbits + 7) div 8"
  have words: "bitmap_words nbits = ?w"
    using assms(1) by (simp add: bitmap_words_def u32_id nat_add_distrib)
  show ?thesis
  proof (cases "nbits div 8 < ?w")
    case True
    then have div: "?w - 1 = nbits div 8" by linarith
    from True have m: "0 < nbits mod 8" by presburger
    have "int nbits - int (nbits div 8 * 8) = int (nbits mod 8)"
      using div_mult_mod_eq [of nbits 8] by linarith
    then have over: "u32 (int nbits - int (nbits div 8 * 8)) = nbits mod 8"
      using mod_less_divisor [of 8 nbits] by (simp add: u32_id)
    let ?b = "\<lparr>b_nbits = nbits,
      b_v = (replicate ?w 0)[nbits div 8 := mark_from 8 (nbits mod 8) 0]\<rparr>"
    have bits: "bit (b_v ?b ! (i div 8)) (i mod 8) = (nbits \<le> i)" if "i < 8 * ?w" for i
    proof (cases "i div 8 = nbits div 8")
      case same: True
      then have "bit (b_v ?b ! (i div 8)) (i mod 8) = (nbits mod 8 \<le> i mod 8)"
        using True m mark_from_more [of "nbits mod 8" 8 0]
          mark_from_bits [of "8 - nbits mod 8" "nbits mod 8" 0 "i mod 8"]
        by simp
      also have "\<dots> = (nbits \<le> i)"
        using same by (metis add_le_cancel_left mult_div_mod_eq)
      finally show ?thesis .
    next
      case False
      have "i div 8 < ?w"
        using that by (simp add: less_mult_imp_div_less mult.commute)
      with False div True have less: "i div 8 < nbits div 8" by linarith
      then have "\<not> nbits \<le> i"
        using div_le_mono [of nbits i 8] by linarith
      with False less True show ?thesis by simp
    qed
    have "bitmap_create km nbits = Some (Ptr ?b)"
      using True assms words div m over by (simp add: bitmap_create_def Let_def)
    moreover have "bitmap_inv ?b"
      using assms(1) bits by (auto simp: bitmap_inv_def used_def)
    ultimately show ?thesis
      using bits by (auto simp: used_def)
  next
    case False
    then have "?w = nbits div 8" "nbits = 8 * (nbits div 8)" by linarith+
    with False assms words show ?thesis
      by (auto simp: bitmap_create_def Let_def bitmap_inv_def used_def)
  qed
qed

section \<open>The interface of the map\<close>

text \<open>
  The contract over the set of used slots. \<open>alloc_many\<close> is a client that takes \<open>n\<close> slots; the
  locale shows that it never hands out a slot twice and fails only when the map is full.
\<close>

fun alloc_many :: "nat \<Rightarrow> ('m \<Rightarrow> ((rc + nat) \<times> 'm) option) \<Rightarrow> 'm \<Rightarrow> ((rc + nat list) \<times> 'm) option" where
  "alloc_many 0 alloc m = Some (Inr [], m)"
| "alloc_many (Suc n) alloc m = do {
     (r, m') \<leftarrow> alloc m;
     case r of
       Inl e \<Rightarrow> Some (Inl e, m')
     | Inr i \<Rightarrow> do {
         (rs, m'') \<leftarrow> alloc_many n alloc m';
         case rs of Inl e \<Rightarrow> Some (Inl e, m'') | Inr is \<Rightarrow> Some (Inr (i # is), m'')
       }
   }"

locale slot_map =
  fixes inv :: "'m \<Rightarrow> bool"
    and limit :: "'m \<Rightarrow> nat"
    and taken :: "'m \<Rightarrow> nat set"
    and alloc :: "'m \<Rightarrow> ((rc + nat) \<times> 'm) option"
    and free :: "'m \<Rightarrow> nat \<Rightarrow> 'm option"
  assumes alloc_cases: "inv m \<Longrightarrow>
      (\<exists>i m'. alloc m = Some (Inr i, m') \<and> inv m' \<and> limit m' = limit m \<and> i < limit m \<and> i \<notin> taken m
         \<and> (\<forall>j < i. j \<in> taken m) \<and> taken m' = insert i (taken m))
      \<or> (alloc m = Some (Inl ENOSPC, m) \<and> (\<forall>i < limit m. i \<in> taken m))"
    and free_taken: "inv m \<Longrightarrow> i < limit m \<Longrightarrow> i \<in> taken m \<Longrightarrow>
      \<exists>m'. free m i = Some m' \<and> inv m' \<and> limit m' = limit m \<and> taken m' = taken m - {i}"
    and free_panic: "inv m \<Longrightarrow> i \<notin> taken m \<or> limit m \<le> i \<Longrightarrow> free m i = None"
begin

lemma alloc_many_distinct:
  "inv m \<Longrightarrow> alloc_many n alloc m = Some (Inr is, m') \<Longrightarrow>
     length is = n \<and> distinct is \<and> set is \<inter> taken m = {} \<and> set is \<subseteq> {..<limit m}
     \<and> inv m' \<and> limit m' = limit m \<and> taken m' = taken m \<union> set is"
proof (induction n arbitrary: m "is")
  case 0
  then show ?case by simp
next
  case (Suc n)
  from alloc_cases [OF Suc.prems(1)] show ?case
  proof (elim disjE exE conjE)
    fix i m1
    assume i: "alloc m = Some (Inr i, m1)" "inv m1" "limit m1 = limit m" "i < limit m" "i \<notin> taken m"
      "taken m1 = insert i (taken m)"
    with Suc.prems(2) obtain js where js: "alloc_many n alloc m1 = Some (Inr js, m')" "is = i # js"
      by (auto simp: panic_simps)
    from Suc.IH [OF i(2) js(1)] i js(2) show ?thesis by auto
  next
    assume "alloc m = Some (Inl ENOSPC, m)"
    with Suc.prems(2) show ?thesis by simp
  qed
qed

lemma alloc_many_total:
  "inv m \<Longrightarrow> finite (taken m) \<Longrightarrow> n \<le> card ({..<limit m} - taken m) \<Longrightarrow>
     \<exists>is m'. alloc_many n alloc m = Some (Inr is, m')"
proof (induction n arbitrary: m)
  case 0
  then show ?case by simp
next
  case (Suc n)
  from alloc_cases [OF Suc.prems(1)] show ?case
  proof (elim disjE exE conjE)
    fix i m1
    assume i: "alloc m = Some (Inr i, m1)" "inv m1" "limit m1 = limit m" "i < limit m" "i \<notin> taken m"
      "taken m1 = insert i (taken m)"
    have "{..<limit m1} - taken m1 = ({..<limit m} - taken m) - {i}"
      using i by auto
    then have "n \<le> card ({..<limit m1} - taken m1)"
      using i Suc.prems(3) by (simp add: card_Diff_singleton)
    with Suc.IH [OF i(2)] i Suc.prems(2) obtain js m2 where "alloc_many n alloc m1 = Some (Inr js, m2)"
      by auto
    with i show ?thesis by auto
  next
    assume "\<forall>i < limit m. i \<in> taken m"
    then have "{..<limit m} - taken m = {}" by auto
    with Suc.prems(3) show ?thesis by simp
  qed
qed

lemma alloc_free:
  assumes "inv m" and "alloc m = Some (Inr i, m')"
  shows "\<exists>m''. free m' i = Some m'' \<and> taken m'' = taken m \<and> i \<notin> taken m"
  using alloc_cases [OF assms(1)] free_taken [of m' i] assms(2) by auto

end

interpretation bmap: slot_map bitmap_inv b_nbits used bitmap_alloc bitmap_unmark
  by unfold_locales (fact bitmap_alloc_spec bitmap_unmark_spec bitmap_unmark_panic)+

lemma finite_used: "finite (used b)"
  by (rule finite_subset [of _ "{..<8 * length (b_v b)}"]) (auto simp: used_def)

section \<open>Properties\<close>

text \<open>
  C18. \<open>bitmap_alloc\<close> takes the lowest clear bit below \<open>nbits\<close> and sets just that bit, or answers
  \<open>ENOSPC\<close> with the map unchanged exactly when every bit is set; it never panics on a well-formed map.
\<close>

theorem bitmap_alloc_first_fit:
  assumes "bitmap_inv b"
  shows "(\<exists>i b'. bitmap_alloc b = Some (Inr i, b') \<and> bitmap_inv b' \<and> i < b_nbits b
            \<and> i \<notin> used b \<and> (\<forall>j. j < i \<longrightarrow> j \<in> used b) \<and> used b' = insert i (used b))
       \<or> (bitmap_alloc b = Some (Inl ENOSPC, b) \<and> (\<forall>i. i < b_nbits b \<longrightarrow> i \<in> used b))"
  using bmap.alloc_cases [OF assms] by auto

theorem bitmap_alloc_first_fit_witness:
  "\<exists>i b'. bitmap_alloc \<lparr>b_nbits = 8, b_v = [3]\<rparr> = Some (Inr i, b') \<and> i = 2 \<and> bitmap_inv b'"
proof -
  have i: "bitmap_inv \<lparr>b_nbits = 8, b_v = [3]\<rparr>" by (auto simp: bitmap_inv_def used_def)
  have "bitmap_alloc \<lparr>b_nbits = 8, b_v = [3]\<rparr> = Some (Inr 2, \<lparr>b_nbits = 8, b_v = [7]\<rparr>)" by code_simp
  with bitmap_alloc_first_fit [OF i] show ?thesis by auto
qed

text \<open>
  A fresh map of \<open>n\<close> bits hands out exactly \<open>n\<close> different indices, all below \<open>n\<close>: taking \<open>k \<le> n\<close>
  slots succeeds and gives \<open>k\<close> distinct ones, although the map's storage is rounded up to whole bytes.
\<close>

theorem bitmap_create_alloc_distinct:
  assumes "n + 7 < 4294967296" and "km 8" and "km ((n + 7) div 8)" and "k \<le> n"
  shows "\<exists>b is b'. bitmap_create km n = Some (Ptr b) \<and> alloc_many k bitmap_alloc b = Some (Inr is, b')
    \<and> length is = k \<and> distinct is \<and> set is \<subseteq> {..<n}"
proof -
  from bitmap_create_spec [OF assms(1-3)] obtain b where b: "bitmap_create km n = Some (Ptr b)"
      "bitmap_inv b" "b_nbits b = n" "\<forall>i < n. i \<notin> used b" by auto
  then have "{..<b_nbits b} - used b = {..<n}" by auto
  then have "k \<le> card ({..<b_nbits b} - used b)" using assms(4) by simp
  with bmap.alloc_many_total [OF b(2) finite_used] obtain "is" b' where
    "alloc_many k bitmap_alloc b = Some (Inr is, b')" by blast
  with bmap.alloc_many_distinct [OF b(2) this] b show ?thesis by blast
qed

theorem bitmap_create_alloc_distinct_witness:
  "\<exists>b is b'. bitmap_create (\<lambda>_. True) 10 = Some (Ptr b) \<and> alloc_many 10 bitmap_alloc b = Some (Inr is, b')
    \<and> length is = 10 \<and> distinct is"
  using bitmap_create_alloc_distinct [of 10 "\<lambda>_. True" 10] by auto

end
