(* ===== verification/Kvnode.thy ===== *)
theory Kvnode
  imports Kprelude
begin

text \<open>
  The file-system independent part of a vnode, \<open>kern/include/vnode.h\<close> and \<open>kern/fs/vfs/vnode.c\<close>:
  the reference and open counts and the checks made before every operation. The operations table is
  a value of \<open>'ops\<close>. \<open>vnode_decref\<close> and \<open>vnode_decopen\<close> are here up to the call of the file
  system: the second result says whether \<open>VOP_RECLAIM\<close> or \<open>VOP_CLOSE\<close> follows. The count lock is
  held and released inside each operation; the model keeps whether it exists.
\<close>

record 'ops vnode =
  vn_refcount :: int
  vn_opencount :: int
  vn_countlock :: bool
  vn_ops :: "'ops nullable"

definition vnode_init :: "bool \<Rightarrow> 'ops \<Rightarrow> ('ops, 'b) vnode_scheme \<Rightarrow> rc \<times> ('ops, 'b) vnode_scheme" where
  "vnode_init lock_ok ops vn =
     (let vn = vn\<lparr>vn_ops := Ptr ops, vn_refcount := 1, vn_opencount := 0, vn_countlock := lock_ok\<rparr>
      in if \<not> lock_ok then (ENOMEM, vn) else (OK, vn))"

definition vnode_kill :: "('ops, 'b) vnode_scheme \<Rightarrow> ('ops, 'b) vnode_scheme option" where
  "vnode_kill vn = do {
     kassert (vn_refcount vn = 1);
     kassert (vn_opencount vn = 0);
     kassert (vn_countlock vn);
     Some (vn\<lparr>vn_ops := NULL, vn_refcount := 0, vn_opencount := 0, vn_countlock := False\<rparr>)
   }"

definition vnode_incref :: "('ops, 'b) vnode_scheme \<Rightarrow> ('ops, 'b) vnode_scheme option" where
  "vnode_incref vn = do {
     kassert (vn_countlock vn);
     Some (vn\<lparr>vn_refcount := s32 (vn_refcount vn + 1)\<rparr>)
   }"

definition vnode_decref_count :: "('ops, 'b) vnode_scheme \<Rightarrow> (('ops, 'b) vnode_scheme \<times> bool) option" where
  "vnode_decref_count vn = do {
     kassert (vn_countlock vn);
     kassert (vn_refcount vn > 0);
     Some (if vn_refcount vn > 1 then (vn\<lparr>vn_refcount := vn_refcount vn - 1\<rparr>, False) else (vn, True))
   }"

definition vnode_incopen :: "('ops, 'b) vnode_scheme \<Rightarrow> ('ops, 'b) vnode_scheme option" where
  "vnode_incopen vn = do {
     kassert (vn_countlock vn);
     Some (vn\<lparr>vn_opencount := s32 (vn_opencount vn + 1)\<rparr>)
   }"

definition vnode_decopen_count :: "('ops, 'b) vnode_scheme \<Rightarrow> (('ops, 'b) vnode_scheme \<times> bool) option" where
  "vnode_decopen_count vn = do {
     kassert (vn_countlock vn);
     kassert (vn_opencount vn > 0);
     let opencount = vn_opencount vn - 1;
     Some (vn\<lparr>vn_opencount := opencount\<rparr>, \<not> opencount > 0)
   }"

text \<open>\<open>vnode_check\<close> for the operation \<open>reclaim\<close> and for the others; it hands back the table.\<close>

definition vnode_check :: "bool \<Rightarrow> ('ops, 'b) vnode_scheme \<Rightarrow> 'ops option" where
  "vnode_check reclaim vn =
     (case vn_ops vn of
        NULL \<Rightarrow> None
      | Ptr ops \<Rightarrow> do {
          kassert (vn_countlock vn);
          kassert (\<not> vn_refcount vn < 0);
          kassert (\<not> (vn_refcount vn = 0 \<and> \<not> reclaim));
          kassert (\<not> vn_opencount vn < 0);
          Some ops
        })"

text \<open>A vnode in use.\<close>

definition vnode_live :: "('ops, 'b) vnode_scheme \<Rightarrow> bool" where
  "vnode_live vn \<longleftrightarrow> 0 < vn_refcount vn \<and> vn_refcount vn < INT_MAX \<and> 0 \<le> vn_opencount vn \<and> vn_opencount vn < INT_MAX
     \<and> vn_countlock vn \<and> vn_ops vn \<noteq> NULL"

lemma vnode_check_live: "vnode_live vn \<Longrightarrow> \<exists>ops. vn_ops vn = Ptr ops \<and> vnode_check r vn = Some ops"
  by (cases "vn_ops vn") (auto simp: vnode_live_def vnode_check_def)

lemma vnode_init_live: "vnode_init True ops vn = (r, vn') \<Longrightarrow> vnode_live vn' \<and> vn_refcount vn' = 1 \<and> vn_ops vn' = Ptr ops"
  by (auto simp: vnode_init_def vnode_live_def INT_MAX_def)

text \<open>C34. Reference counting is balanced: a reference taken on a vnode in use and dropped again leaves the
  vnode as it was, without a call of \<open>VOP_RECLAIM\<close>; only the drop of the last reference asks for
  one, and it leaves the count at 1 for \<open>VOP_RECLAIM\<close> to consume; the same holds for the open count
  and \<open>VOP_CLOSE\<close>, which is asked for exactly when the count falls to 0.\<close>

theorem vnode_counts_balanced:
  assumes "vnode_live vn" and "vn_refcount vn + 1 < INT_MAX"
  shows "vnode_incref vn \<bind> vnode_decref_count = Some (vn, False)
    \<and> vnode_incopen vn \<bind> vnode_decopen_count = Some (vn, vn_opencount vn = 0)
    \<and> (vn_refcount vn = 1 \<longrightarrow> vnode_decref_count vn = Some (vn, True))"
  using assms s32_id [of "vn_refcount vn + 1"] s32_id [of "vn_opencount vn + 1"]
  by (auto simp: vnode_incref_def vnode_decref_count_def vnode_incopen_def vnode_decopen_count_def vnode_live_def Let_def)

theorem vnode_counts_balanced_witness:
  "vnode_incref (snd (vnode_init True () \<lparr>vn_refcount = 0, vn_opencount = 0, vn_countlock = False, vn_ops = NULL\<rparr>)) \<bind> vnode_decref_count
     = Some (snd (vnode_init True () \<lparr>vn_refcount = 0, vn_opencount = 0, vn_countlock = False, vn_ops = NULL\<rparr>), False)"
  using vnode_counts_balanced [of "snd (vnode_init True () \<lparr>vn_refcount = 0, vn_opencount = 0, vn_countlock = False, vn_ops = NULL\<rparr>)"]
  by (simp add: vnode_init_def vnode_live_def INT_MAX_def)

end
