(* ===== verification/Sfs.thy ===== *)
theory Sfs
  imports Sfs_Disk Klhd Karray Kbitmap Kvnode
begin

text \<open>
  The file system SFS: \<open>kern/fs/sfs/sfs_io.c\<close>, \<open>sfs_vnode.c\<close> and \<open>sfs_fs.c\<close>, with the part of
  \<open>kern/fs/vfs/vnode.c\<close> that calls back into it. This theory holds the definitions.

  The state is \<open>struct sfs_fs\<close>: the device, the superblock, the free map and the table of loaded
  vnodes, with \<open>vn_store\<close> the vnode structures by address. A vnode is named by its address; a use of
  an address with no vnode is a stop, as is every \<open>panic\<close> and failed \<open>assert\<close>. The code has no
  locking of its own and the model runs one operation at a time. The static buffers of the code are
  filled before each use and are values here. A file name is the list of its bytes, without the null
  byte; \<open>scmp\<close> is the result of \<open>strcmp\<close> on two of them (\<open>strcmp_cstr\<close>).
\<close>

section \<open>State\<close>

text \<open>The two operations tables.\<close>

datatype sfs_ops = sfs_fileops | sfs_dirops

record sfs_vnode = "sfs_ops vnode" +
  sv_i :: sfs_inode
  sv_ino :: nat
  sv_dirty :: bool

record 'd sfs_fs =
  sfs_device :: "'d lhd_softc"
  sfs_super :: sfs_super
  sfs_superdirty :: bool
  sfs_vnodes :: "nat karray"
  sfs_freemap :: bitmap
  sfs_freemapdirty :: bool
  vn_store :: "nat \<Rightarrow> sfs_vnode option"

definition set_vn :: "nat \<Rightarrow> sfs_vnode \<Rightarrow> 'd sfs_fs \<Rightarrow> 'd sfs_fs" where
  "set_vn a sv s = s\<lparr>vn_store := (vn_store s)(a \<mapsto> sv)\<rparr>"

text \<open>The answers of the allocator while a vnode is loaded, and the address it gives.\<close>

record load_mem =
  lm_addr :: nat
  lm_vnode :: bool
  lm_lock :: bool
  lm_array :: kmalloc_outcome

section \<open>Block I/O: sfs\_io.c\<close>

function sfs_rwblock_from :: "nat \<Rightarrow> uio \<Rightarrow> 'd sfs_fs \<Rightarrow> (rc \<times> uio \<times> 'd sfs_fs) option" where
  "sfs_rwblock_from tries u s = do {
     (result, u', lh) \<leftarrow> lhd_io u (sfs_device s);
     let s' = s\<lparr>sfs_device := lh\<rparr>;
     if result = EINVAL then None
     else if result = EIO \<and> tries < 10 then sfs_rwblock_from (tries + 1) u' s'
     else Some (result, u', s')
   }"
  by pat_completeness auto
termination by (relation "measure (\<lambda>(tries, u, s). 10 - tries)") auto

declare sfs_rwblock_from.simps [simp del]

definition sfs_rwblock :: "uio \<Rightarrow> 'd sfs_fs \<Rightarrow> (rc \<times> uio \<times> 'd sfs_fs) option" where
  "sfs_rwblock u s = sfs_rwblock_from 0 u s"

text \<open>A kernel object handed to a transfer: the memory that holds it at \<open>KBUF\<close>.\<close>

definition KBUF :: nat where
  "KBUF = USERTOP"

definition kmem :: "byte list \<Rightarrow> mem" where
  "kmem bs = put Map.empty KBUF bs"

definition SFSUIO :: "byte list \<Rightarrow> nat \<Rightarrow> uio_rw \<Rightarrow> uio" where
  "SFSUIO data blk rw = mk_kuio (kmem data) KBUF SFS_BLOCKSIZE (s32 (s32 (int blk) * int SFS_BLOCKSIZE)) rw"

definition sfs_rblock :: "nat \<Rightarrow> 'd sfs_fs \<Rightarrow> ('d sfs_fs, byte list) kres" where
  "sfs_rblock blk s = do {
     (result, u, s') \<leftarrow> sfs_rwblock (SFSUIO (replicate SFS_BLOCKSIZE 0) blk UIO_READ) s;
     if result \<noteq> OK then kfail result s'
     else kret (block (uio_mem u) KBUF SFS_BLOCKSIZE) s'
   }"

definition sfs_wblock :: "byte list \<Rightarrow> nat \<Rightarrow> 'd sfs_fs \<Rightarrow> ('d sfs_fs, unit) kres" where
  "sfs_wblock data blk s = do {
     (result, u, s') \<leftarrow> sfs_rwblock (SFSUIO data blk UIO_WRITE) s;
     if result \<noteq> OK then kfail result s' else kret () s'
   }"

section \<open>Inodes and blocks: sfs\_vnode.c\<close>

definition sfs_clearblock :: "nat \<Rightarrow> 'd sfs_fs \<Rightarrow> ('d sfs_fs, unit) kres" where
  "sfs_clearblock blk s = sfs_wblock (replicate SFS_BLOCKSIZE 0) blk s"

definition sfs_sync_inode :: "nat \<Rightarrow> 'd sfs_fs \<Rightarrow> ('d sfs_fs, unit) kres" where
  "sfs_sync_inode a s = do {
     sv \<leftarrow> vn_store s a;
     if sv_dirty sv then
       kbind (sfs_wblock (enc_inode (sv_i sv)) (sv_ino sv) s)
         (\<lambda>_ s. kret () (set_vn a (sv\<lparr>sv_dirty := False\<rparr>) s))
     else kret () s
   }"

definition sfs_balloc :: "'d sfs_fs \<Rightarrow> ('d sfs_fs, nat) kres" where
  "sfs_balloc s = do {
     (result, fm) \<leftarrow> bitmap_alloc (sfs_freemap s);
     case result of
       Inl e \<Rightarrow> kfail e (s\<lparr>sfs_freemap := fm\<rparr>)
     | Inr diskblock \<Rightarrow> do {
         let s = s\<lparr>sfs_freemap := fm, sfs_freemapdirty := True\<rparr>;
         kassert (diskblock < sp_nblocks (sfs_super s));
         kbind (sfs_clearblock diskblock s) (\<lambda>_ s. kret diskblock s)
       }
   }"

definition sfs_bfree :: "nat \<Rightarrow> 'd sfs_fs \<Rightarrow> 'd sfs_fs option" where
  "sfs_bfree diskblock s = do {
     fm \<leftarrow> bitmap_unmark (sfs_freemap s) diskblock;
     Some (s\<lparr>sfs_freemap := fm, sfs_freemapdirty := True\<rparr>)
   }"

definition sfs_bused :: "nat \<Rightarrow> 'd sfs_fs \<Rightarrow> bool option" where
  "sfs_bused diskblock s = do {
     kassert (diskblock < sp_nblocks (sfs_super s));
     w \<leftarrow> bitmap_isset (sfs_freemap s) diskblock;
     Some (w \<noteq> 0)
   }"

text \<open>The end of both branches of \<open>sfs_bmap\<close>: a block that is handed back must be marked in use.\<close>

definition bmap_result :: "nat \<Rightarrow> 'd sfs_fs \<Rightarrow> ('d sfs_fs, nat) kres" where
  "bmap_result blk s =
     (if blk = 0 then kret 0 s else do { u \<leftarrow> sfs_bused blk s; kassert u; kret blk s })"

definition bmap_direct :: "nat \<Rightarrow> nat \<Rightarrow> bool \<Rightarrow> 'd sfs_fs \<Rightarrow> ('d sfs_fs, nat) kres" where
  "bmap_direct a fileblock doalloc s = do {
     sv \<leftarrow> vn_store s a;
     blk \<leftarrow> rd (sfi_direct (sv_i sv)) (int fileblock);
     if blk = 0 \<and> doalloc then
       kbind (sfs_balloc s) (\<lambda>blk s.
         bmap_result blk (set_vn a (sv\<lparr>sv_i := (sv_i sv)\<lparr>sfi_direct := (sfi_direct (sv_i sv))[fileblock := blk]\<rparr>, sv_dirty := True\<rparr>) s))
     else bmap_result blk s
   }"

text \<open>The indirect block: its number and its contents, allocated or loaded.\<close>

definition bmap_idblock :: "nat \<Rightarrow> 'd sfs_fs \<Rightarrow> ('d sfs_fs, nat \<times> nat list) kres" where
  "bmap_idblock a s = do {
     sv \<leftarrow> vn_store s a;
     let idblock = sfi_indirect (sv_i sv);
     if idblock = 0 then
       kbind (sfs_balloc s) (\<lambda>idblock s.
         kret (idblock, replicate SFS_DBPERIDB 0)
           (set_vn a (sv\<lparr>sv_i := (sv_i sv)\<lparr>sfi_indirect := idblock\<rparr>, sv_dirty := True\<rparr>) s))
     else
       kbind (sfs_rblock idblock s) (\<lambda>bs s. kret (idblock, dewords SFS_DBPERIDB bs) s)
   }"

definition bmap_indirect :: "nat \<Rightarrow> nat \<Rightarrow> bool \<Rightarrow> 'd sfs_fs \<Rightarrow> ('d sfs_fs, nat) kres" where
  "bmap_indirect a idoff doalloc s =
     kbind (bmap_idblock a s) (\<lambda>(idblock, idbuf) s. do {
       blk \<leftarrow> rd idbuf (int idoff);
       if blk = 0 \<and> doalloc then
         kbind (sfs_balloc s) (\<lambda>blk s.
           kbind (sfs_wblock (words32 (idbuf[idoff := blk])) idblock s) (\<lambda>_ s.
             bmap_result blk s))
       else bmap_result blk s
     })"

definition sfs_bmap :: "nat \<Rightarrow> nat \<Rightarrow> bool \<Rightarrow> 'd sfs_fs \<Rightarrow> ('d sfs_fs, nat) kres" where
  "sfs_bmap a fileblock doalloc s =
     (if fileblock < SFS_NDIRECT then bmap_direct a fileblock doalloc s
      else do {
        let fileblock = fileblock - SFS_NDIRECT;
        let idnum = fileblock div SFS_DBPERIDB;
        let idoff = fileblock mod SFS_DBPERIDB;
        if idnum > 0 then kfail EINVAL s
        else do {
          sv \<leftarrow> vn_store s a;
          if sfi_indirect (sv_i sv) = 0 \<and> \<not> doalloc then kret 0 s
          else bmap_indirect a idoff doalloc s
        }
      })"

section \<open>File I/O: sfs\_vnode.c\<close>

text \<open>The state of a transfer is the uio with the file system; \<open>on_fs\<close> runs a routine that leaves the uio alone.\<close>

definition on_fs :: "uio \<Rightarrow> ('d sfs_fs, 'a) kres \<Rightarrow> (uio \<times> 'd sfs_fs, 'a) kres" where
  "on_fs u m = map_option (\<lambda>(r, s). (r, u, s)) m"

definition fileblock_of :: "uio \<Rightarrow> nat" where
  "fileblock_of u = u32 (cdiv (uio_offset u) (int SFS_BLOCKSIZE))"

text \<open>\<open>sfs_partialio\<close> and \<open>sfs_blockio\<close> from the point where the disk block is known.\<close>

definition partialio_at :: "nat \<Rightarrow> nat \<Rightarrow> nat \<Rightarrow> uio \<Rightarrow> 'd sfs_fs \<Rightarrow> (uio \<times> 'd sfs_fs, unit) kres" where
  "partialio_at skipstart len diskblock u s =
     kbind (if diskblock = 0 then do { kassert (uio_rw u = UIO_READ); kret (replicate SFS_BLOCKSIZE 0) (u, s) }
            else on_fs u (sfs_rblock diskblock s)) (\<lambda>iobuf (u, s). do {
       (result, iobuf, u) \<leftarrow> uiomove iobuf skipstart len u;
       if result \<noteq> OK then kfail result (u, s)
       else if uio_rw u = UIO_WRITE then on_fs u (sfs_wblock iobuf diskblock s)
       else kret () (u, s)
     })"

definition sfs_partialio :: "nat \<Rightarrow> uio \<Rightarrow> nat \<Rightarrow> nat \<Rightarrow> 'd sfs_fs \<Rightarrow> (uio \<times> 'd sfs_fs, unit) kres" where
  "sfs_partialio a u skipstart len s = do {
     let doalloc = (uio_rw u = UIO_WRITE);
     kassert (skipstart + len \<le> SFS_BLOCKSIZE);
     kbind (on_fs u (sfs_bmap a (fileblock_of u) doalloc s)) (\<lambda>diskblock (u, s). partialio_at skipstart len diskblock u s)
   }"

definition blockio_at :: "nat \<Rightarrow> uio \<Rightarrow> 'd sfs_fs \<Rightarrow> (uio \<times> 'd sfs_fs, unit) kres" where
  "blockio_at diskblock u s =
     (if diskblock = 0 then do {
        kassert (uio_rw u = UIO_READ);
        (result, u) \<leftarrow> uiomovezeros SFS_BLOCKSIZE u;
        if result \<noteq> OK then kfail result (u, s) else kret () (u, s)
      }
      else do {
        let saveoff = uio_offset u;
        let diskoff = s32 (int (u32 (int diskblock * int SFS_BLOCKSIZE)));
        kassert (uio_resid u \<ge> SFS_BLOCKSIZE);
        let saveres = s32 (int (uio_resid u));
        let diskres = int SFS_BLOCKSIZE;
        (result, u, s) \<leftarrow> sfs_rwblock (u\<lparr>uio_offset := diskoff, uio_resid := SFS_BLOCKSIZE\<rparr>) s;
        let u = u\<lparr>uio_offset := s32 (uio_offset u - diskoff + saveoff),
                  uio_resid := u32 (int (uio_resid u) - diskres + saveres)\<rparr>;
        if result \<noteq> OK then kfail result (u, s) else kret () (u, s)
      })"

definition sfs_blockio :: "nat \<Rightarrow> uio \<Rightarrow> 'd sfs_fs \<Rightarrow> (uio \<times> 'd sfs_fs, unit) kres" where
  "sfs_blockio a u s =
     kbind (on_fs u (sfs_bmap a (fileblock_of u) (uio_rw u = UIO_WRITE) s)) (\<lambda>diskblock (u, s). blockio_at diskblock u s)"

fun sfs_io_blocks :: "nat \<Rightarrow> nat \<Rightarrow> uio \<Rightarrow> 'd sfs_fs \<Rightarrow> (uio \<times> 'd sfs_fs, unit) kres" where
  "sfs_io_blocks 0 a u s = kret () (u, s)"
| "sfs_io_blocks (Suc n) a u s = kbind (sfs_blockio a u s) (\<lambda>_ (u, s). sfs_io_blocks n a u s)"

text \<open>
  The body of \<open>sfs_io\<close> between the test for the end of file and the label \<open>out\<close>: the leading partial
  block, then the whole blocks and the partial block at the end.
\<close>

definition sfs_io_tail :: "nat \<Rightarrow> uio \<Rightarrow> 'd sfs_fs \<Rightarrow> (uio \<times> 'd sfs_fs, unit) kres" where
  "sfs_io_tail a u s =
     (if uio_resid u = 0 then kret () (u, s)
      else do {
        kassert (crem (uio_offset u) (int SFS_BLOCKSIZE) = 0);
        kbind (sfs_io_blocks (uio_resid u div SFS_BLOCKSIZE) a u s) (\<lambda>_ (u, s). do {
          kassert (uio_resid u < SFS_BLOCKSIZE);
          if uio_resid u > 0 then sfs_partialio a u 0 (uio_resid u) s else kret () (u, s)
        })
      })"

definition sfs_io_body :: "nat \<Rightarrow> uio \<Rightarrow> 'd sfs_fs \<Rightarrow> (uio \<times> 'd sfs_fs, unit) kres" where
  "sfs_io_body a u s =
     (let blkoff = u32 (crem (uio_offset u) (int SFS_BLOCKSIZE))
      in if blkoff \<noteq> 0 then
           (let len = u32 (int SFS_BLOCKSIZE - int blkoff)
            in kbind (sfs_partialio a u blkoff (if len > uio_resid u then uio_resid u else len) s)
                 (\<lambda>_ (u, s). sfs_io_tail a u s))
         else sfs_io_tail a u s)"

definition sfs_io_out :: "nat \<Rightarrow> nat \<Rightarrow> (rc + unit) \<Rightarrow> uio \<Rightarrow> 'd sfs_fs \<Rightarrow> (uio \<times> 'd sfs_fs, unit) kres" where
  "sfs_io_out a extraresid result u s = do {
     sv \<leftarrow> vn_store s a;
     let s = (if uio_rw u = UIO_WRITE \<and> uio_offset u > s32 (int (sfi_size (sv_i sv)))
              then set_vn a (sv\<lparr>sv_i := (sv_i sv)\<lparr>sfi_size := u32 (uio_offset u)\<rparr>, sv_dirty := True\<rparr>) s else s);
     Some (result, u\<lparr>uio_resid := u32 (int (uio_resid u) + int extraresid)\<rparr>, s)
   }"

definition sfs_io :: "nat \<Rightarrow> uio \<Rightarrow> 'd sfs_fs \<Rightarrow> (uio \<times> 'd sfs_fs, unit) kres" where
  "sfs_io a u s = do {
     sv \<leftarrow> vn_store s a;
     let size = s32 (int (sfi_size (sv_i sv)));
     let endpos = s32 (uio_offset u + int (uio_resid u));
     if uio_rw u = UIO_READ \<and> uio_offset u \<ge> size then kret () (u, s)
     else do {
       let extraresid = (if uio_rw u = UIO_READ \<and> endpos > size then u32 (endpos - size) else 0);
       kassert (extraresid = 0 \<or> uio_resid u > extraresid);
       (result, u, s) \<leftarrow> sfs_io_body a (u\<lparr>uio_resid := uio_resid u - extraresid\<rparr>) s;
       sfs_io_out a extraresid result u s
     }
   }"

section \<open>Directory I/O: sfs\_vnode.c\<close>

definition sfs_readdir :: "nat \<Rightarrow> nat \<Rightarrow> 'd sfs_fs \<Rightarrow> ('d sfs_fs, sfs_dir) kres" where
  "sfs_readdir a slot s = do {
     let actualpos = s32 (int (u32 (int slot * 64)));
     (result, u, s) \<leftarrow> sfs_io a (mk_kuio (kmem (replicate 64 0)) KBUF 64 actualpos UIO_READ) s;
     case result of
       Inl e \<Rightarrow> kfail e s
     | Inr _ \<Rightarrow> do {
         kassert (\<not> uio_resid u > 0);
         kret (dec_dir (block (uio_mem u) KBUF 64)) s
       }
   }"

definition sfs_writedir :: "nat \<Rightarrow> sfs_dir \<Rightarrow> nat \<Rightarrow> 'd sfs_fs \<Rightarrow> ('d sfs_fs, unit) kres" where
  "sfs_writedir a sd slot s = do {
     let actualpos = s32 (int (u32 (int slot * 64)));
     (result, u, s) \<leftarrow> sfs_io a (mk_kuio (kmem (enc_dir sd)) KBUF 64 actualpos UIO_WRITE) s;
     case result of
       Inl e \<Rightarrow> kfail e s
     | Inr _ \<Rightarrow> do { kassert (\<not> uio_resid u > 0); kret () s }
   }"

definition sfs_dir_nentries :: "nat \<Rightarrow> 'd sfs_fs \<Rightarrow> nat option" where
  "sfs_dir_nentries a s = do {
     sv \<leftarrow> vn_store s a;
     kassert (sfi_type (sv_i sv) = SFS_TYPE_DIR);
     kassert (sfi_size (sv_i sv) mod 64 = 0);
     Some (sfi_size (sv_i sv) div 64)
   }"

text \<open>
  The loop of \<open>sfs_dir_findname\<close> over the slots \<open>i\<close>, \<open>i + 1\<close>, \<open>\<dots>\<close>. Its value is the inode number and the
  slot of the name, if there is one (\<open>None\<close> is \<open>ENOENT\<close>), with the last empty slot seen.
\<close>

fun findname_loop ::
  "nat \<Rightarrow> nat \<Rightarrow> nat \<Rightarrow> byte list \<Rightarrow> (nat \<times> nat) option \<Rightarrow> nat option \<Rightarrow> 'd sfs_fs
     \<Rightarrow> ('d sfs_fs, (nat \<times> nat) option \<times> nat option) kres" where
  "findname_loop 0 i a name found emptyslot s = kret (found, emptyslot) s"
| "findname_loop (Suc n) i a name found emptyslot s =
     kbind (sfs_readdir a i s) (\<lambda>tsd s.
       if sfd_ino tsd = SFS_NOINO then findname_loop n (Suc i) a name found (Some i) s
       else if scmp (takeWhile (\<lambda>c. c \<noteq> 0) ((sfd_name tsd)[SFS_NAMELEN - 1 := 0])) name = 0 then do {
         kassert (found = None);
         findname_loop n (Suc i) a name (Some (sfd_ino tsd, i)) emptyslot s
       }
       else findname_loop n (Suc i) a name found emptyslot s)"

definition sfs_dir_findname ::
  "nat \<Rightarrow> byte list \<Rightarrow> 'd sfs_fs \<Rightarrow> ('d sfs_fs, (nat \<times> nat) option \<times> nat option) kres" where
  "sfs_dir_findname a name s = do {
     nentries \<leftarrow> sfs_dir_nentries a s;
     findname_loop nentries 0 a name None None s
   }"

definition sfs_dir_link :: "nat \<Rightarrow> byte list \<Rightarrow> nat \<Rightarrow> 'd sfs_fs \<Rightarrow> ('d sfs_fs, nat) kres" where
  "sfs_dir_link a name ino s =
     kbind (sfs_dir_findname a name s) (\<lambda>(found, emptyslot) s.
       if found \<noteq> None then kfail EEXIST s
       else if length name + 1 > SFS_NAMELEN then kfail ENAMETOOLONG s
       else do {
         slot \<leftarrow> (case emptyslot of None \<Rightarrow> sfs_dir_nentries a s | Some i \<Rightarrow> Some i);
         let sd = \<lparr>sfd_ino = ino, sfd_name = name @ replicate (SFS_NAMELEN - length name) 0\<rparr>;
         kbind (sfs_writedir a sd slot s) (\<lambda>_ s. kret slot s)
       })"

definition sfs_dir_unlink :: "nat \<Rightarrow> nat \<Rightarrow> 'd sfs_fs \<Rightarrow> ('d sfs_fs, unit) kres" where
  "sfs_dir_unlink a slot s = sfs_writedir a \<lparr>sfd_ino = SFS_NOINO, sfd_name = replicate SFS_NAMELEN 0\<rparr> slot s"

section \<open>Loading vnodes: sfs\_vnode.c\<close>

definition VOP_INCREF :: "nat \<Rightarrow> 'd sfs_fs \<Rightarrow> 'd sfs_fs option" where
  "VOP_INCREF a s = do { sv \<leftarrow> vn_store s a; sv \<leftarrow> vnode_incref sv; Some (set_vn a sv s) }"

fun load_search :: "nat \<Rightarrow> nat \<Rightarrow> nat \<Rightarrow> 'd sfs_fs \<Rightarrow> nat option option" where
  "load_search 0 i ino s = Some None"
| "load_search (Suc n) i ino s = do {
     a \<leftarrow> array_getguy (sfs_vnodes s) (int i);
     sv \<leftarrow> vn_store s a;
     u \<leftarrow> sfs_bused (sv_ino sv) s;
     kassert u;
     if sv_ino sv = ino then Some (Some a) else load_search n (Suc i) ino s
   }"

text \<open>The table chosen for a type; any other type is a panic.\<close>

definition ops_of_type :: "nat \<Rightarrow> sfs_ops option" where
  "ops_of_type type =
     (if type = SFS_TYPE_FILE then Some sfs_fileops else if type = SFS_TYPE_DIR then Some sfs_dirops else None)"

definition load_new :: "load_mem \<Rightarrow> nat \<Rightarrow> nat \<Rightarrow> 'd sfs_fs \<Rightarrow> ('d sfs_fs, nat) kres" where
  "load_new lm ino forcetype s =
     (if \<not> lm_vnode lm then kfail ENOMEM s
      else do {
        u \<leftarrow> sfs_bused ino s;
        kassert u;
        kbind (sfs_rblock ino s) (\<lambda>bs s. do {
          let i = dec_inode bs;
          kassert (forcetype \<noteq> SFS_TYPE_INVAL \<longrightarrow> sfi_type i = SFS_TYPE_INVAL);
          let dirty = (forcetype \<noteq> SFS_TYPE_INVAL);
          let i = (if dirty then i\<lparr>sfi_type := forcetype\<rparr> else i);
          ops \<leftarrow> ops_of_type (sfi_type i);
          let (result, sv) = vnode_init (lm_lock lm) ops
            \<lparr>vn_refcount = 0, vn_opencount = 0, vn_countlock = False, vn_ops = NULL, sv_i = i, sv_ino = ino, sv_dirty = dirty\<rparr>;
          if result \<noteq> OK then kfail result s
          else do {
            (result, vs) \<leftarrow> array_add (lm_array lm) (sfs_vnodes s) (lm_addr lm);
            let s = s\<lparr>sfs_vnodes := vs\<rparr>;
            if result \<noteq> OK then do { _ \<leftarrow> vnode_kill sv; kfail result s }
            else kret (lm_addr lm) (set_vn (lm_addr lm) sv s)
          }
        })
      })"

definition sfs_loadvnode :: "load_mem \<Rightarrow> nat \<Rightarrow> nat \<Rightarrow> 'd sfs_fs \<Rightarrow> ('d sfs_fs, nat) kres" where
  "sfs_loadvnode lm ino forcetype s = do {
     r \<leftarrow> load_search (nat (array_getnum (sfs_vnodes s))) 0 ino s;
     case r of
       Some a \<Rightarrow> do {
         kassert (forcetype = SFS_TYPE_INVAL);
         s \<leftarrow> VOP_INCREF a s;
         kret a s
       }
     | None \<Rightarrow> load_new lm ino forcetype s
   }"

definition sfs_getroot :: "load_mem \<Rightarrow> 'd sfs_fs \<Rightarrow> (nat \<times> 'd sfs_fs) option" where
  "sfs_getroot lm s = do {
     (result, s) \<leftarrow> sfs_loadvnode lm SFS_ROOT_LOCATION SFS_TYPE_INVAL s;
     case result of Inl e \<Rightarrow> None | Inr a \<Rightarrow> Some (a, s)
   }"

definition sfs_lookonce :: "load_mem \<Rightarrow> nat \<Rightarrow> byte list \<Rightarrow> 'd sfs_fs \<Rightarrow> ('d sfs_fs, nat \<times> nat) kres" where
  "sfs_lookonce lm a name s =
     kbind (sfs_dir_findname a name s) (\<lambda>(found, _) s.
       case found of
         None \<Rightarrow> kfail ENOENT s
       | Some (ino, slot) \<Rightarrow>
           kbind (sfs_loadvnode lm ino SFS_TYPE_INVAL s) (\<lambda>v s. do {
             sv \<leftarrow> vn_store s v;
             kassert (sfi_linkcount (sv_i sv) \<noteq> 0);
             kret (v, slot) s
           }))"

definition sfs_makeobj :: "load_mem \<Rightarrow> nat \<Rightarrow> 'd sfs_fs \<Rightarrow> ('d sfs_fs, nat) kres" where
  "sfs_makeobj lm type s = kbind (sfs_balloc s) (\<lambda>ino s. sfs_loadvnode lm ino type s)"

section \<open>Truncating and reclaiming: sfs\_vnode.c\<close>

fun trunc_direct :: "nat \<Rightarrow> nat \<Rightarrow> nat list \<Rightarrow> 'd sfs_fs \<Rightarrow> (nat list \<times> bool \<times> 'd sfs_fs) option" where
  "trunc_direct blocklen i [] s = Some ([], False, s)"
| "trunc_direct blocklen i (blk # blks) s =
     (if i \<ge> blocklen \<and> blk \<noteq> 0 then do {
        s \<leftarrow> sfs_bfree blk s;
        (blks', _, s) \<leftarrow> trunc_direct blocklen (Suc i) blks s;
        Some (0 # blks', True, s)
      } else do {
        (blks', dirty, s) \<leftarrow> trunc_direct blocklen (Suc i) blks s;
        Some (blk # blks', dirty, s)
      })"

text \<open>The loop over the indirect block, with \<open>hasnonzero\<close> and \<open>iddirty\<close>.\<close>

fun trunc_indirect :: "nat \<Rightarrow> nat \<Rightarrow> nat list \<Rightarrow> 'd sfs_fs \<Rightarrow> (nat list \<times> bool \<times> bool \<times> 'd sfs_fs) option" where
  "trunc_indirect blocklen j [] s = Some ([], False, False, s)"
| "trunc_indirect blocklen j (blk # blks) s =
     (if blocklen < SFS_NDIRECT + j \<and> blk \<noteq> 0 then do {
        s \<leftarrow> sfs_bfree blk s;
        (blks', hasnonzero, _, s) \<leftarrow> trunc_indirect blocklen (Suc j) blks s;
        Some (0 # blks', hasnonzero, True, s)
      } else do {
        (blks', hasnonzero, iddirty, s) \<leftarrow> trunc_indirect blocklen (Suc j) blks s;
        Some (blk # blks', blk \<noteq> 0 \<or> hasnonzero, iddirty, s)
      })"

definition trunc_idblock :: "nat \<Rightarrow> nat \<Rightarrow> 'd sfs_fs \<Rightarrow> ('d sfs_fs, unit) kres" where
  "trunc_idblock a blocklen s = do {
     sv \<leftarrow> vn_store s a;
     let idblock = sfi_indirect (sv_i sv);
     let highblock = SFS_NDIRECT + SFS_DBPERIDB - 1;
     if blocklen < highblock \<and> idblock \<noteq> 0 then
       kbind (sfs_rblock idblock s) (\<lambda>bs s. do {
         (idbuf, hasnonzero, iddirty, s) \<leftarrow> trunc_indirect blocklen 0 (dewords SFS_DBPERIDB bs) s;
         if \<not> hasnonzero then do {
           s \<leftarrow> sfs_bfree idblock s;
           kret () (set_vn a (sv\<lparr>sv_i := (sv_i sv)\<lparr>sfi_indirect := 0\<rparr>, sv_dirty := True\<rparr>) s)
         }
         else if iddirty then sfs_wblock (words32 idbuf) idblock s
         else kret () s
       })
     else kret () s
   }"

definition sfs_truncate :: "nat \<Rightarrow> int \<Rightarrow> 'd sfs_fs \<Rightarrow> ('d sfs_fs, unit) kres" where
  "sfs_truncate a len s = do {
     let blocklen = u32 (cdiv (s32 (len + int SFS_BLOCKSIZE - 1)) (int SFS_BLOCKSIZE));
     sv \<leftarrow> vn_store s a;
     (direct, dirty, s) \<leftarrow> trunc_direct blocklen 0 (sfi_direct (sv_i sv)) s;
     let s = set_vn a (sv\<lparr>sv_i := (sv_i sv)\<lparr>sfi_direct := direct\<rparr>, sv_dirty := sv_dirty sv \<or> dirty\<rparr>) s;
     kbind (trunc_idblock a blocklen s) (\<lambda>_ s. do {
       sv \<leftarrow> vn_store s a;
       kret () (set_vn a (sv\<lparr>sv_i := (sv_i sv)\<lparr>sfi_size := u32 len\<rparr>, sv_dirty := True\<rparr>) s)
     })
   }"

text \<open>\<open>VOP_TRUNCATE\<close>: the entry of the two tables.\<close>

definition VOP_TRUNCATE :: "nat \<Rightarrow> int \<Rightarrow> 'd sfs_fs \<Rightarrow> ('d sfs_fs, unit) kres" where
  "VOP_TRUNCATE a len s = do {
     sv \<leftarrow> vn_store s a;
     ops \<leftarrow> vnode_check False sv;
     case ops of sfs_fileops \<Rightarrow> sfs_truncate a len s | sfs_dirops \<Rightarrow> kfail EISDIR s
   }"

fun table_index :: "nat \<Rightarrow> nat \<Rightarrow> nat \<Rightarrow> 'd sfs_fs \<Rightarrow> nat option option" where
  "table_index 0 i a s = Some None"
| "table_index (Suc n) i a s = do {
     a2 \<leftarrow> array_getguy (sfs_vnodes s) (int i);
     if a2 = a then Some (Some i) else table_index n (Suc i) a s
   }"

definition sfs_reclaim :: "nat \<Rightarrow> 'd sfs_fs \<Rightarrow> ('d sfs_fs, unit) kres" where
  "sfs_reclaim a s = do {
     sv \<leftarrow> vn_store s a;
     if vn_refcount sv \<noteq> 1 then do {
       kassert (vn_refcount sv > 1);
       kfail EBUSY (set_vn a (sv\<lparr>vn_refcount := vn_refcount sv - 1\<rparr>) s)
     }
     else
       kbind (if sfi_linkcount (sv_i sv) = 0 then VOP_TRUNCATE a 0 s else kret () s) (\<lambda>_ s.
       kbind (sfs_sync_inode a s) (\<lambda>_ s. do {
         sv \<leftarrow> vn_store s a;
         s \<leftarrow> (if sfi_linkcount (sv_i sv) = 0 then sfs_bfree (sv_ino sv) s else Some s);
         r \<leftarrow> table_index (nat (array_getnum (sfs_vnodes s))) 0 a s;
         ix \<leftarrow> r;
         vs \<leftarrow> array_remove (sfs_vnodes s) (int ix);
         _ \<leftarrow> vnode_kill sv;
         kret () (s\<lparr>sfs_vnodes := vs, vn_store := (vn_store s)(a := None)\<rparr>)
       }))
   }"

text \<open>\<open>vnode_decref\<close> with \<open>VOP_RECLAIM\<close>, whose error code is only reported.\<close>

definition VOP_DECREF :: "nat \<Rightarrow> 'd sfs_fs \<Rightarrow> 'd sfs_fs option" where
  "VOP_DECREF a s = do {
     sv \<leftarrow> vn_store s a;
     (sv, last) \<leftarrow> vnode_decref_count sv;
     if last then do {
       _ \<leftarrow> vnode_check True sv;
       (_, s) \<leftarrow> sfs_reclaim a s;
       Some s
     }
     else Some (set_vn a sv s)
   }"

section \<open>Vnode operations: sfs\_vnode.c\<close>

text \<open>\<open>openflags\<close> is a bit set: \<open>O_ACCMODE\<close> is 3 and \<open>O_APPEND\<close> is 32.\<close>

definition sfs_open :: "nat \<Rightarrow> rc" where
  "sfs_open openflags = (if openflags AND 32 \<noteq> 0 then EUNIMP else OK)"

definition sfs_opendir :: "nat \<Rightarrow> rc" where
  "sfs_opendir openflags =
     (if openflags AND 3 \<noteq> 0 then EISDIR else if openflags AND 32 \<noteq> 0 then EISDIR else OK)"

definition sfs_fsync :: "nat \<Rightarrow> 'd sfs_fs \<Rightarrow> ('d sfs_fs, unit) kres" where
  "sfs_fsync a s = sfs_sync_inode a s"

text \<open>\<open>VOP_FSYNC\<close> is \<open>sfs_fsync\<close> in both tables.\<close>

definition VOP_FSYNC :: "nat \<Rightarrow> 'd sfs_fs \<Rightarrow> ('d sfs_fs, unit) kres" where
  "VOP_FSYNC a s = do { sv \<leftarrow> vn_store s a; _ \<leftarrow> vnode_check False sv; sfs_fsync a s }"

definition sfs_close :: "nat \<Rightarrow> 'd sfs_fs \<Rightarrow> ('d sfs_fs, unit) kres" where
  "sfs_close a s = VOP_FSYNC a s"

definition sfs_read :: "nat \<Rightarrow> uio \<Rightarrow> 'd sfs_fs \<Rightarrow> (uio \<times> 'd sfs_fs, unit) kres" where
  "sfs_read a u s = do { kassert (uio_rw u = UIO_READ); sfs_io a u s }"

definition sfs_write :: "nat \<Rightarrow> uio \<Rightarrow> 'd sfs_fs \<Rightarrow> (uio \<times> 'd sfs_fs, unit) kres" where
  "sfs_write a u s = do { kassert (uio_rw u = UIO_WRITE); sfs_io a u s }"

definition sfs_ioctl :: rc where
  "sfs_ioctl = EINVAL"

text \<open>\<open>S_IFREG\<close> is octal 10000 and \<open>S_IFDIR\<close> octal 20000.\<close>

definition sfs_gettype :: "nat \<Rightarrow> 'd sfs_fs \<Rightarrow> nat option" where
  "sfs_gettype a s = do {
     sv \<leftarrow> vn_store s a;
     if sfi_type (sv_i sv) = SFS_TYPE_FILE then Some 4096
     else if sfi_type (sv_i sv) = SFS_TYPE_DIR then Some 8192
     else None
   }"

record kstat =
  st_mode :: nat
  st_nlink :: nat
  st_size :: int
  st_blocks :: nat

definition sfs_stat :: "nat \<Rightarrow> 'd sfs_fs \<Rightarrow> kstat option" where
  "sfs_stat a s = do {
     sv \<leftarrow> vn_store s a;
     _ \<leftarrow> vnode_check False sv;
     mode \<leftarrow> sfs_gettype a s;
     Some \<lparr>st_mode = mode, st_nlink = 0, st_size = s32 (int (sfi_size (sv_i sv))), st_blocks = 0\<rparr>
   }"

definition sfs_tryseek :: "int \<Rightarrow> rc" where
  "sfs_tryseek pos = (if pos < 0 then EINVAL else OK)"

definition sfs_mmap :: rc where
  "sfs_mmap = EUNIMP"

definition sfs_namefile :: "nat \<Rightarrow> 'd sfs_fs \<Rightarrow> rc option" where
  "sfs_namefile a s = do { sv \<leftarrow> vn_store s a; kassert (sv_ino sv = SFS_ROOT_LOCATION); Some OK }"

text \<open>The link count is 16 bits wide.\<close>

definition add_link :: "nat \<Rightarrow> int \<Rightarrow> 'd sfs_fs \<Rightarrow> 'd sfs_fs option" where
  "add_link a k s = do {
     sv \<leftarrow> vn_store s a;
     Some (set_vn a (sv\<lparr>sv_i := (sv_i sv)\<lparr>sfi_linkcount := nat ((int (sfi_linkcount (sv_i sv)) + k) mod 65536)\<rparr>, sv_dirty := True\<rparr>) s)
   }"

definition sfs_creat :: "load_mem \<Rightarrow> nat \<Rightarrow> byte list \<Rightarrow> bool \<Rightarrow> 'd sfs_fs \<Rightarrow> ('d sfs_fs, nat) kres" where
  "sfs_creat lm a name excl s =
     kbind (sfs_dir_findname a name s) (\<lambda>(found, _) s.
       case found of
         Some (ino, _) \<Rightarrow>
           if excl then kfail EEXIST s else sfs_loadvnode lm ino SFS_TYPE_INVAL s
       | None \<Rightarrow>
           kbind (sfs_makeobj lm SFS_TYPE_FILE s) (\<lambda>newguy s. do {
             sv \<leftarrow> vn_store s newguy;
             (result, s) \<leftarrow> sfs_dir_link a name (sv_ino sv) s;
             case result of
               Inl e \<Rightarrow> do { s \<leftarrow> VOP_DECREF newguy s; kfail e s }
             | Inr _ \<Rightarrow> do { s \<leftarrow> add_link newguy 1 s; kret newguy s }
           }))"

definition sfs_link :: "nat \<Rightarrow> byte list \<Rightarrow> nat \<Rightarrow> 'd sfs_fs \<Rightarrow> ('d sfs_fs, unit) kres" where
  "sfs_link dir name file s = do {
     f \<leftarrow> vn_store s file;
     kbind (sfs_dir_link dir name (sv_ino f) s) (\<lambda>_ s. do { s \<leftarrow> add_link file 1 s; kret () s })
   }"

definition sfs_remove :: "load_mem \<Rightarrow> nat \<Rightarrow> byte list \<Rightarrow> 'd sfs_fs \<Rightarrow> ('d sfs_fs, unit) kres" where
  "sfs_remove lm dir name s =
     kbind (sfs_lookonce lm dir name s) (\<lambda>(victim, slot) s. do {
       (result, s) \<leftarrow> sfs_dir_unlink dir slot s;
       s \<leftarrow> (case result of
              Inl e \<Rightarrow> Some s
            | Inr _ \<Rightarrow> do {
                sv \<leftarrow> vn_store s victim;
                kassert (sfi_linkcount (sv_i sv) > 0);
                add_link victim (- 1) s
              });
       s \<leftarrow> VOP_DECREF victim s;
       Some (result, s)
     })"

text \<open>\<open>sfs_rename\<close>, whose callers pass the same directory twice.\<close>

definition sfs_rename :: "load_mem \<Rightarrow> nat \<Rightarrow> byte list \<Rightarrow> nat \<Rightarrow> byte list \<Rightarrow> 'd sfs_fs \<Rightarrow> ('d sfs_fs, unit) kres" where
  "sfs_rename lm d1 n1 d2 n2 s = do {
     kassert (d1 = d2);
     sv \<leftarrow> vn_store s d1;
     kassert (sv_ino sv = SFS_ROOT_LOCATION);
     kbind (sfs_lookonce lm d1 n1 s) (\<lambda>(g1, slot1) s. do {
       g \<leftarrow> vn_store s g1;
       kassert (sfi_type (sv_i g) = SFS_TYPE_FILE);
       (result, s) \<leftarrow> sfs_dir_link d1 n2 (sv_ino g) s;
       case result of
         Inl e \<Rightarrow> do { s \<leftarrow> VOP_DECREF g1 s; kfail e s }
       | Inr slot2 \<Rightarrow> do {
           s \<leftarrow> add_link g1 1 s;
           (result, s) \<leftarrow> sfs_dir_unlink d1 slot1 s;
           case result of
             Inr _ \<Rightarrow> do {
               g \<leftarrow> vn_store s g1;
               kassert (sfi_linkcount (sv_i g) > 0);
               s \<leftarrow> add_link g1 (- 1) s;
               s \<leftarrow> VOP_DECREF g1 s;
               kret () s
             }
           | Inl e \<Rightarrow> do {
               (result2, s) \<leftarrow> sfs_dir_unlink d1 slot2 s;
               _ \<leftarrow> (case result2 of Inl _ \<Rightarrow> None | Inr _ \<Rightarrow> Some ());
               g \<leftarrow> vn_store s g1;
               s \<leftarrow> VOP_DECREF g1 (set_vn g1
                 (g\<lparr>sv_i := (sv_i g)\<lparr>sfi_linkcount := nat ((int (sfi_linkcount (sv_i g)) - 1) mod 65536)\<rparr>\<rparr>) s);
               kfail e s
             }
         }
     })
   }"

definition sfs_lookparent :: "nat \<Rightarrow> byte list \<Rightarrow> nat \<Rightarrow> 'd sfs_fs \<Rightarrow> ('d sfs_fs, nat \<times> byte list) kres" where
  "sfs_lookparent a path buflen s = do {
     sv \<leftarrow> vn_store s a;
     if sfi_type (sv_i sv) \<noteq> SFS_TYPE_DIR then kfail ENOTDIR s
     else if length path + 1 > buflen then kfail ENAMETOOLONG s
     else do { s \<leftarrow> VOP_INCREF a s; kret (a, path) s }
   }"

definition sfs_lookup :: "load_mem \<Rightarrow> nat \<Rightarrow> byte list \<Rightarrow> 'd sfs_fs \<Rightarrow> ('d sfs_fs, nat) kres" where
  "sfs_lookup lm a path s = do {
     sv \<leftarrow> vn_store s a;
     if sfi_type (sv_i sv) \<noteq> SFS_TYPE_DIR then kfail ENOTDIR s
     else kbind (sfs_lookonce lm a path s) (\<lambda>(final, _) s. kret final s)
   }"

section \<open>The operations tables: sfs\_vnode.c\<close>

text \<open>A call through the table: \<open>vnode_check\<close>, then the entry of the vnode's table.\<close>

definition vop :: "(sfs_ops \<Rightarrow> 'r option) \<Rightarrow> nat \<Rightarrow> 'd sfs_fs \<Rightarrow> 'r option" where
  "vop entry a s = do { sv \<leftarrow> vn_store s a; ops \<leftarrow> vnode_check False sv; entry ops }"

definition VOP_OPEN :: "nat \<Rightarrow> nat \<Rightarrow> 'd sfs_fs \<Rightarrow> rc option" where
  "VOP_OPEN a flags s = vop (\<lambda>ops. Some (case ops of sfs_fileops \<Rightarrow> sfs_open flags | sfs_dirops \<Rightarrow> sfs_opendir flags)) a s"

definition VOP_CLOSE :: "nat \<Rightarrow> 'd sfs_fs \<Rightarrow> ('d sfs_fs, unit) kres" where
  "VOP_CLOSE a s = vop (\<lambda>_. sfs_close a s) a s"

definition VOP_READ :: "nat \<Rightarrow> uio \<Rightarrow> 'd sfs_fs \<Rightarrow> (uio \<times> 'd sfs_fs, unit) kres" where
  "VOP_READ a u s = vop (\<lambda>ops. case ops of sfs_fileops \<Rightarrow> sfs_read a u s | sfs_dirops \<Rightarrow> kfail EISDIR (u, s)) a s"

definition VOP_WRITE :: "nat \<Rightarrow> uio \<Rightarrow> 'd sfs_fs \<Rightarrow> (uio \<times> 'd sfs_fs, unit) kres" where
  "VOP_WRITE a u s = vop (\<lambda>ops. case ops of sfs_fileops \<Rightarrow> sfs_write a u s | sfs_dirops \<Rightarrow> kfail EISDIR (u, s)) a s"

definition VOP_TRYSEEK :: "nat \<Rightarrow> int \<Rightarrow> 'd sfs_fs \<Rightarrow> rc option" where
  "VOP_TRYSEEK a pos s = vop (\<lambda>ops. Some (case ops of sfs_fileops \<Rightarrow> sfs_tryseek pos | sfs_dirops \<Rightarrow> EUNIMP)) a s"

definition VOP_CREAT :: "load_mem \<Rightarrow> nat \<Rightarrow> byte list \<Rightarrow> bool \<Rightarrow> 'd sfs_fs \<Rightarrow> ('d sfs_fs, nat) kres" where
  "VOP_CREAT lm a name excl s = vop (\<lambda>ops. case ops of sfs_fileops \<Rightarrow> kfail ENOTDIR s | sfs_dirops \<Rightarrow> sfs_creat lm a name excl s) a s"

definition VOP_LINK :: "nat \<Rightarrow> byte list \<Rightarrow> nat \<Rightarrow> 'd sfs_fs \<Rightarrow> ('d sfs_fs, unit) kres" where
  "VOP_LINK a name file s = vop (\<lambda>ops. case ops of sfs_fileops \<Rightarrow> kfail ENOTDIR s | sfs_dirops \<Rightarrow> sfs_link a name file s) a s"

definition VOP_REMOVE :: "load_mem \<Rightarrow> nat \<Rightarrow> byte list \<Rightarrow> 'd sfs_fs \<Rightarrow> ('d sfs_fs, unit) kres" where
  "VOP_REMOVE lm a name s = vop (\<lambda>ops. case ops of sfs_fileops \<Rightarrow> kfail ENOTDIR s | sfs_dirops \<Rightarrow> sfs_remove lm a name s) a s"

definition VOP_RENAME :: "load_mem \<Rightarrow> nat \<Rightarrow> byte list \<Rightarrow> nat \<Rightarrow> byte list \<Rightarrow> 'd sfs_fs \<Rightarrow> ('d sfs_fs, unit) kres" where
  "VOP_RENAME lm a n1 a2 n2 s =
     vop (\<lambda>ops. case ops of sfs_fileops \<Rightarrow> kfail ENOTDIR s | sfs_dirops \<Rightarrow> sfs_rename lm a n1 a2 n2 s) a s"

definition VOP_LOOKUP :: "load_mem \<Rightarrow> nat \<Rightarrow> byte list \<Rightarrow> 'd sfs_fs \<Rightarrow> ('d sfs_fs, nat) kres" where
  "VOP_LOOKUP lm a path s = vop (\<lambda>ops. case ops of sfs_fileops \<Rightarrow> kfail ENOTDIR s | sfs_dirops \<Rightarrow> sfs_lookup lm a path s) a s"

definition VOP_LOOKPARENT :: "nat \<Rightarrow> byte list \<Rightarrow> nat \<Rightarrow> 'd sfs_fs \<Rightarrow> ('d sfs_fs, nat \<times> byte list) kres" where
  "VOP_LOOKPARENT a path buflen s =
     vop (\<lambda>ops. case ops of sfs_fileops \<Rightarrow> kfail ENOTDIR s | sfs_dirops \<Rightarrow> sfs_lookparent a path buflen s) a s"

definition VOP_INCOPEN :: "nat \<Rightarrow> 'd sfs_fs \<Rightarrow> 'd sfs_fs option" where
  "VOP_INCOPEN a s = do { sv \<leftarrow> vn_store s a; sv \<leftarrow> vnode_incopen sv; Some (set_vn a sv s) }"

definition VOP_DECOPEN :: "nat \<Rightarrow> 'd sfs_fs \<Rightarrow> 'd sfs_fs option" where
  "VOP_DECOPEN a s = do {
     sv \<leftarrow> vn_store s a;
     (sv, last) \<leftarrow> vnode_decopen_count sv;
     let s = set_vn a sv s;
     if last then do { (_, s) \<leftarrow> VOP_CLOSE a s; Some s } else Some s
   }"

section \<open>The file system as a whole: sfs\_fs.c\<close>

fun sfs_mapio_loop :: "nat \<Rightarrow> nat \<Rightarrow> uio_rw \<Rightarrow> 'd sfs_fs \<Rightarrow> ('d sfs_fs, unit) kres" where
  "sfs_mapio_loop 0 j rw s = kret () s"
| "sfs_mapio_loop (Suc n) j rw s =
     (let bitdata = bitmap_getdata (sfs_freemap s)
      in kbind (if rw = UIO_READ then
                  kbind (sfs_rblock (SFS_MAP_LOCATION + j) s) (\<lambda>bs s. do {
                    kassert (j * SFS_BLOCKSIZE + SFS_BLOCKSIZE \<le> length bitdata);
                    kret () (s\<lparr>sfs_freemap := (sfs_freemap s)\<lparr>b_v := splice_at bitdata (j * SFS_BLOCKSIZE) bs\<rparr>\<rparr>)
                  })
                else do {
                  kassert (j * SFS_BLOCKSIZE + SFS_BLOCKSIZE \<le> length bitdata);
                  sfs_wblock (take SFS_BLOCKSIZE (drop (j * SFS_BLOCKSIZE) bitdata)) (SFS_MAP_LOCATION + j) s
                })
           (\<lambda>_ s. sfs_mapio_loop n (Suc j) rw s))"

definition sfs_mapio :: "uio_rw \<Rightarrow> 'd sfs_fs \<Rightarrow> ('d sfs_fs, unit) kres" where
  "sfs_mapio rw s = sfs_mapio_loop (SFS_BITBLOCKS (sp_nblocks (sfs_super s))) 0 rw s"

text \<open>The results of \<open>VOP_FSYNC\<close> are ignored by \<open>sfs_sync\<close>.\<close>

fun sync_vnodes :: "nat \<Rightarrow> nat \<Rightarrow> 'd sfs_fs \<Rightarrow> 'd sfs_fs option" where
  "sync_vnodes 0 i s = Some s"
| "sync_vnodes (Suc n) i s = do {
     a \<leftarrow> array_getguy (sfs_vnodes s) (int i);
     (_, s) \<leftarrow> VOP_FSYNC a s;
     sync_vnodes n (Suc i) s
   }"

definition sfs_sync :: "'d sfs_fs \<Rightarrow> ('d sfs_fs, unit) kres" where
  "sfs_sync s = do {
     s \<leftarrow> sync_vnodes (nat (array_getnum (sfs_vnodes s))) 0 s;
     kbind (if sfs_freemapdirty s then kbind (sfs_mapio UIO_WRITE s) (\<lambda>_ s. kret () (s\<lparr>sfs_freemapdirty := False\<rparr>))
            else kret () s) (\<lambda>_ s.
     if sfs_superdirty s then
       kbind (sfs_wblock (enc_super (sfs_super s)) SFS_SB_LOCATION s) (\<lambda>_ s. kret () (s\<lparr>sfs_superdirty := False\<rparr>))
     else kret () s)
   }"

definition sfs_getvolname :: "'d sfs_fs \<Rightarrow> byte list" where
  "sfs_getvolname s = sp_volname (sfs_super s)"

text \<open>\<open>sfs_unmount\<close> gives the device back when it succeeds; the rest of the state is freed.\<close>

definition sfs_unmount :: "'d sfs_fs \<Rightarrow> (rc + 'd lhd_softc) option" where
  "sfs_unmount s =
     (if array_getnum (sfs_vnodes s) > 0 then Some (Inl EBUSY)
      else do {
        kassert (\<not> sfs_superdirty s);
        kassert (\<not> sfs_freemapdirty s);
        Some (Inr (sfs_device s))
      })"

text \<open>
  \<open>sfs_domount\<close>: the answers of the allocator are those for the \<open>sfs_fs\<close> structure, the array and the
  bitmap. Until the superblock is read the state has only its device and its table.
\<close>

definition sfs_domount :: "bool \<Rightarrow> kmalloc_outcome \<Rightarrow> kmalloc_outcome \<Rightarrow> 'd lhd_softc
    \<Rightarrow> ((rc + 'd sfs_fs) \<times> 'd lhd_softc) option" where
  "sfs_domount kfs karr kbits dev =
     (if d_blocksize dev \<noteq> SFS_BLOCKSIZE then Some (Inl ENXIO, dev)
      else if \<not> kfs then Some (Inl ENOMEM, dev)
      else case array_create karr of
        NULL \<Rightarrow> Some (Inl ENOMEM, dev)
      | Ptr vs \<Rightarrow> do {
          (result, s) \<leftarrow> sfs_rblock SFS_SB_LOCATION
            \<lparr>sfs_device = dev, sfs_super = dec_super (replicate SFS_BLOCKSIZE 0), sfs_superdirty = False, sfs_vnodes = vs,
             sfs_freemap = \<lparr>b_nbits = 0, b_v = []\<rparr>, sfs_freemapdirty = False, vn_store = Map.empty\<rparr>;
          case result of
            Inl e \<Rightarrow> Some (Inl e, sfs_device s)
          | Inr bs \<Rightarrow>
              (let sp = dec_super bs
               in if sp_magic sp \<noteq> SFS_MAGIC then Some (Inl EINVAL, sfs_device s)
                  else do {
                    let sp = sp\<lparr>sp_volname := (sp_volname sp)[SFS_VOLNAME_SIZE - 1 := 0]\<rparr>;
                    b \<leftarrow> bitmap_create kbits (SFS_BITMAPSIZE (sp_nblocks sp));
                    case b of
                      NULL \<Rightarrow> Some (Inl ENOMEM, sfs_device s)
                    | Ptr fm \<Rightarrow> do {
                        (result, s) \<leftarrow> sfs_mapio UIO_READ (s\<lparr>sfs_super := sp, sfs_freemap := fm\<rparr>);
                        case result of
                          Inl e \<Rightarrow> Some (Inl e, sfs_device s)
                        | Inr _ \<Rightarrow> Some (Inr s, sfs_device s)
                      }
                  })
        })"

end
