(* ===== verification/Sfs_File.thy ===== *)
theory Sfs_File
  imports Sfs
begin

text \<open>
  Files of SFS as byte arrays. The disk is a function from sector numbers to blocks, \<open>dsk sec s\<close>,
  where \<open>sec\<close> reads the sectors off the medium. A file is seen as \<open>fdat\<close>, the bytes of its 143 blocks
  with zeros for the blocks that do not exist, and its size. The lemmas go up the routines of
  \<open>sfs_vnode.c\<close> in the order they call each other and end with reads and writes of any position and
  length. They are for a disk without media errors; every other error is covered.
\<close>

section \<open>Outcomes\<close>

text \<open>A routine returns, with a value that satisfies \<open>Q\<close> or with an error that satisfies \<open>E\<close>.\<close>

definition returns :: "('s, 'a) kres \<Rightarrow> ('a \<Rightarrow> 's \<Rightarrow> bool) \<Rightarrow> (rc \<Rightarrow> 's \<Rightarrow> bool) \<Rightarrow> bool" where
  "returns m Q E \<longleftrightarrow> (\<exists>x s. m = Some (Inr x, s) \<and> Q x s) \<or> (\<exists>e s. m = Some (Inl e, s) \<and> E e s)"

lemma returns_kbind: "returns m (\<lambda>x s. returns (f x s) Q E) E \<Longrightarrow> returns (kbind m f) Q E"
  by (auto simp: returns_def)

lemma returns_kret [simp]: "returns (kret x s) Q E \<longleftrightarrow> Q x s"
  by (auto simp: returns_def kret_def)

lemma returns_kfail [simp]: "returns (kfail e s) Q E \<longleftrightarrow> E e s"
  by (auto simp: returns_def kfail_def)

lemma returns_mono: "returns m Q E \<Longrightarrow> (\<And>x s. Q x s \<Longrightarrow> Q' x s) \<Longrightarrow> (\<And>e s. E e s \<Longrightarrow> E' e s) \<Longrightarrow> returns m Q' E'"
  unfolding returns_def by metis

lemma returns_Inr: "m = Some (Inr x, s) \<Longrightarrow> Q x s \<Longrightarrow> returns m Q E"
  by (auto simp: returns_def)

lemma returns_on_fs: "returns m (\<lambda>x s. Q x (u, s)) (\<lambda>e s. E e (u, s)) \<Longrightarrow> returns (on_fs u m) Q E"
  by (auto simp: returns_def on_fs_def)

section \<open>A healthy file system\<close>

definition dsk :: "('d \<Rightarrow> nat \<Rightarrow> byte list) \<Rightarrow> 'd sfs_fs \<Rightarrow> nat \<Rightarrow> byte list" where
  "dsk sec s = sec (lh_disk (sfs_device s))"

definition nblk :: "'d sfs_fs \<Rightarrow> nat" where
  "nblk s = sp_nblocks (sfs_super s)"

definition taken :: "'d sfs_fs \<Rightarrow> nat set" where
  "taken s = used (sfs_freemap s)"

text \<open>
  The disk works, the free map is well-formed and covers the volume, and the superblock, the root
  inode and the bits past the end of the volume are marked in use.
\<close>

definition fs_ok :: "('d \<Rightarrow> nat \<Rightarrow> byte list) \<Rightarrow> 'd sfs_fs \<Rightarrow> bool" where
  "fs_ok sec s \<longleftrightarrow> lhd_idle sec (sfs_device s) \<and> hw_reliable (d_blocks (sfs_device s)) (lh_hw (sfs_device s))
     \<and> bitmap_inv (sfs_freemap s) \<and> nblk s \<le> d_blocks (sfs_device s) \<and> nblk s \<le> b_nbits (sfs_freemap s)
     \<and> {0, 1} \<subseteq> taken s \<and> (\<forall>i. nblk s \<le> i \<and> i < b_nbits (sfs_freemap s) \<longrightarrow> i \<in> taken s)"

lemma fs_okD:
  assumes "fs_ok sec s"
  shows "lhd_idle sec (sfs_device s)" "hw_reliable (d_blocks (sfs_device s)) (lh_hw (sfs_device s))"
    "bitmap_inv (sfs_freemap s)" "nblk s \<le> d_blocks (sfs_device s)" "nblk s \<le> b_nbits (sfs_freemap s)"
    "nblk s < 4194304" "0 \<in> taken s" "1 \<in> taken s"
    "\<And>i. nblk s \<le> i \<Longrightarrow> i < b_nbits (sfs_freemap s) \<Longrightarrow> i \<in> taken s" "\<And>t. length (dsk sec s t) = 512"
proof -
  have "hw_sound sec (d_blocks (sfs_device s)) (lh_hw (sfs_device s))"
    using assms unfolding fs_ok_def lhd_idle_def by blast
  then show "\<And>t. length (dsk sec s t) = 512" unfolding dsk_def by (rule hw_sound_length)
  show "nblk s < 4194304" using assms unfolding fs_ok_def lhd_idle_def by linarith
  show "0 \<in> taken s" "1 \<in> taken s" "\<And>i. nblk s \<le> i \<Longrightarrow> i < b_nbits (sfs_freemap s) \<Longrightarrow> i \<in> taken s"
    using assms unfolding fs_ok_def by blast+
qed (use assms in \<open>unfold fs_ok_def, blast\<close>)+

text \<open>What a step that only uses the device leaves alone.\<close>

definition dev_step :: "('d \<Rightarrow> nat \<Rightarrow> byte list) \<Rightarrow> 'd sfs_fs \<Rightarrow> (nat \<Rightarrow> byte list) \<Rightarrow> 'd sfs_fs \<Rightarrow> bool" where
  "dev_step sec s D s' \<longleftrightarrow> fs_ok sec s' \<and> (\<exists>lh. s' = s\<lparr>sfs_device := lh\<rparr>) \<and> dsk sec s' = D"

lemma dev_stepD:
  assumes "dev_step sec s D s'"
  shows "fs_ok sec s'" "dsk sec s' = D" "nblk s' = nblk s" "taken s' = taken s" "vn_store s' = vn_store s"
    "sfs_super s' = sfs_super s" "sfs_vnodes s' = sfs_vnodes s" "sfs_freemap s' = sfs_freemap s"
    "sfs_superdirty s' = sfs_superdirty s" "sfs_freemapdirty s' = sfs_freemapdirty s"
  using assms by (auto simp: dev_step_def nblk_def taken_def)

lemma dev_step_trans: "dev_step sec s D s1 \<Longrightarrow> dev_step sec s1 D' s2 \<Longrightarrow> dev_step sec s D' s2"
  unfolding dev_step_def by auto

lemma fs_ok_device:
  assumes "fs_ok sec s" and "lhd_idle sec lh" and "lhd_same (sfs_device s) lh"
  shows "fs_ok sec (s\<lparr>sfs_device := lh\<rparr>)"
  using assms by (auto simp: fs_ok_def nblk_def taken_def lhd_same_def)

section \<open>Block I/O\<close>

lemma sfs_rwblock_read:
  assumes "fs_ok sec s" and "uio_rw u = UIO_READ" and "uio_room 512 u" and "uio_offset u = 512 * int b" and "uio_resid u = 512"
    and "b < nblk s"
  shows "\<exists>s'. sfs_rwblock u s = Some (OK, uio_put (dsk sec s b) u, s') \<and> dev_step sec s (dsk sec s) s'"
proof -
  note F = fs_okD [OF assms(1)]
  have b: "b < 4194304" "\<not> d_blocks (sfs_device s) < b + 1" using F assms(6) by auto
  from lhd_io_loop_read [OF F(1) _ assms(2) _ F(2), of b 1] assms(3) b
  obtain lh where l: "lhd_io_loop 1 1 b u (sfs_device s) = Some (OK, uio_put (dsk sec s b) u, lh)"
      "lhd_idle sec lh" "lhd_same (sfs_device s) lh" "sec (lh_disk lh) = dsk sec s"
    by (auto simp: dsk_def)
  have "lhd_io u (sfs_device s) = Some (OK, uio_put (dsk sec s b) u, lh)"
    using lhd_io_eq [of u b 1 "sfs_device s"] assms b l(1) by simp
  then have "sfs_rwblock u s = Some (OK, uio_put (dsk sec s b) u, s\<lparr>sfs_device := lh\<rparr>)"
    by (simp add: sfs_rwblock_def sfs_rwblock_from.simps [of 0])
  moreover have "dev_step sec s (dsk sec s) (s\<lparr>sfs_device := lh\<rparr>)"
    using fs_ok_device [OF assms(1) l(2,3)] l(4) by (auto simp: dev_step_def dsk_def)
  ultimately show ?thesis by blast
qed

lemma sfs_rwblock_write:
  assumes "fs_ok sec s" and "uio_rw u = UIO_WRITE" and "uio_room 512 u" and "uio_offset u = 512 * int b" and "uio_resid u = 512"
    and "b < nblk s"
  shows "\<exists>s'. sfs_rwblock u s = Some (OK, uio_adv 512 u, s')
    \<and> dev_step sec s ((dsk sec s)(b := block (uio_mem u) (iov_base u) 512)) s'"
proof -
  note F = fs_okD [OF assms(1)]
  have b: "b < 4194304" "\<not> d_blocks (sfs_device s) < b + 1" using F assms(6) by auto
  from lhd_io_loop_write [OF F(1) _ assms(2) _ F(2), of b 1] assms(3) b
  obtain lh where l: "lhd_io_loop 1 3 b u (sfs_device s) = Some (OK, uio_adv 512 u, lh)"
      "lhd_idle sec lh" "lhd_same (sfs_device s) lh" "sec (lh_disk lh) = wrote b 1 u (sec (lh_disk (sfs_device s)))"
    by auto
  have w: "wrote b 1 u (sec (lh_disk (sfs_device s))) = (dsk sec s)(b := block (uio_mem u) (iov_base u) 512)"
    by (auto simp: wrote_def dsk_def fun_eq_iff)
  have "lhd_io u (sfs_device s) = Some (OK, uio_adv 512 u, lh)"
    using lhd_io_eq [of u b 1 "sfs_device s"] assms b l(1) by simp
  then have "sfs_rwblock u s = Some (OK, uio_adv 512 u, s\<lparr>sfs_device := lh\<rparr>)"
    by (simp add: sfs_rwblock_def sfs_rwblock_from.simps [of 0])
  moreover have "dev_step sec s ((dsk sec s)(b := block (uio_mem u) (iov_base u) 512)) (s\<lparr>sfs_device := lh\<rparr>)"
    using fs_ok_device [OF assms(1) l(2,3)] l(4) w by (auto simp: dev_step_def dsk_def)
  ultimately show ?thesis by blast
qed

lemma block_put: "length bs = n \<Longrightarrow> block (put m a bs) a n = bs"
  by (intro nth_equalityI) (auto simp: put_def)

lemma kuio_room:
  assumes "length bs = n" and "n < 4096" and "0 \<le> pos" and "pos + int n \<le> INT_MAX"
  shows "uio_room n (mk_kuio (kmem bs) KBUF n pos rw)"
  using assms by (auto simp: uio_room_def mk_kuio_def kmem_def KBUF_def USERTOP_def mapped_def put_def)

lemma SFSUIO_room:
  assumes "length data = 512" and "b < 4194303"
  shows "uio_room 512 (SFSUIO data b rw)" "uio_offset (SFSUIO data b rw) = 512 * int b" "uio_resid (SFSUIO data b rw) = 512"
    "uio_rw (SFSUIO data b rw) = rw" "uio_mem (SFSUIO data b rw) = kmem data" "iov_base (SFSUIO data b rw) = KBUF"
proof -
  have "s32 (s32 (int b) * int SFS_BLOCKSIZE) = 512 * int b"
    using assms(2) by (simp add: s32_id INT_MAX_def SFS_BLOCKSIZE_def)
  then have e: "SFSUIO data b rw = mk_kuio (kmem data) KBUF 512 (512 * int b) rw"
    by (simp add: SFSUIO_def SFS_BLOCKSIZE_def)
  show "uio_room 512 (SFSUIO data b rw)"
    unfolding e by (rule kuio_room) (use assms in \<open>auto simp: INT_MAX_def\<close>)
  show "uio_offset (SFSUIO data b rw) = 512 * int b" "uio_resid (SFSUIO data b rw) = 512"
    "uio_rw (SFSUIO data b rw) = rw" "uio_mem (SFSUIO data b rw) = kmem data" "iov_base (SFSUIO data b rw) = KBUF"
    by (simp_all add: e mk_kuio_def)
qed

lemma sfs_rblock_spec:
  assumes "fs_ok sec s" and "b < nblk s"
  shows "\<exists>s'. sfs_rblock b s = Some (Inr (dsk sec s b), s') \<and> dev_step sec s (dsk sec s) s'"
proof -
  note F = fs_okD [OF assms(1)]
  have "b < 4194303" using F(6) assms(2) by simp
  note u = SFSUIO_room [of "replicate 512 0" b UIO_READ, OF length_replicate this]
  from sfs_rwblock_read [OF assms(1) u(4,1,2,3) assms(2)] obtain s'
    where r: "sfs_rwblock (SFSUIO (replicate 512 0) b UIO_READ) s = Some (OK, uio_put (dsk sec s b) (SFSUIO (replicate 512 0) b UIO_READ), s')"
      "dev_step sec s (dsk sec s) s'" by blast
  have "block (uio_mem (uio_put (dsk sec s b) (SFSUIO (replicate 512 0) b UIO_READ))) KBUF 512 = dsk sec s b"
    by (simp add: u(6) block_put F(10))
  with r show ?thesis by (simp add: sfs_rblock_def SFS_BLOCKSIZE_def kret_def)
qed

lemma sfs_wblock_spec:
  assumes "fs_ok sec s" and "b < nblk s" and "length data = 512"
  shows "\<exists>s'. sfs_wblock data b s = Some (Inr (), s') \<and> dev_step sec s ((dsk sec s)(b := data)) s'"
proof -
  note F = fs_okD [OF assms(1)]
  have "b < 4194303" using F(6) assms(2) by simp
  note u = SFSUIO_room [OF assms(3) this, of UIO_WRITE]
  have "block (uio_mem (SFSUIO data b UIO_WRITE)) (iov_base (SFSUIO data b UIO_WRITE)) 512 = data"
    by (simp add: u(5,6) kmem_def block_put assms(3))
  with sfs_rwblock_write [OF assms(1) u(4,1,2,3) assms(2)] show ?thesis
    by (auto simp: sfs_wblock_def kret_def)
qed

lemma sfs_bused_spec: "fs_ok sec s \<Longrightarrow> b < nblk s \<Longrightarrow> sfs_bused b s = Some (b \<in> taken s)"
  using bitmap_isset_spec [of "sfs_freemap s" b] fs_okD(3,5) [of sec s]
  by (auto simp: sfs_bused_def nblk_def taken_def)

text \<open>No block of the volume is free.\<close>

definition full :: "'d sfs_fs \<Rightarrow> bool" where
  "full s \<longleftrightarrow> {0..<nblk s} \<subseteq> taken s"

text \<open>An allocation takes a clear block of the volume and zeroes it, or the volume is full.\<close>

definition alloc_step :: "('d \<Rightarrow> nat \<Rightarrow> byte list) \<Rightarrow> 'd sfs_fs \<Rightarrow> nat \<Rightarrow> 'd sfs_fs \<Rightarrow> bool" where
  "alloc_step sec s b s' \<longleftrightarrow> fs_ok sec s' \<and> b \<notin> taken s \<and> 2 \<le> b \<and> b < nblk s \<and> taken s' = insert b (taken s)
     \<and> dsk sec s' = (dsk sec s)(b := replicate 512 0) \<and> vn_store s' = vn_store s
     \<and> sfs_super s' = sfs_super s \<and> sfs_superdirty s' = sfs_superdirty s \<and> sfs_vnodes s' = sfs_vnodes s"

lemma sfs_balloc_spec:
  assumes "fs_ok sec s"
  shows "returns (sfs_balloc s) (\<lambda>b s'. alloc_step sec s b s') (\<lambda>e s'. e = ENOSPC \<and> s' = s \<and> full s)"
proof -
  note F = fs_okD [OF assms]
  from bitmap_alloc_spec [OF F(3)] show ?thesis
  proof
    assume "bitmap_alloc (sfs_freemap s) = Some (Inl ENOSPC, sfs_freemap s) \<and> (\<forall>i < b_nbits (sfs_freemap s). i \<in> used (sfs_freemap s))"
    then show ?thesis using F(5) by (auto simp: sfs_balloc_def returns_def kfail_def full_def taken_def nblk_def)
  next
    assume "\<exists>i b'. bitmap_alloc (sfs_freemap s) = Some (Inr i, b') \<and> bitmap_inv b' \<and> b_nbits b' = b_nbits (sfs_freemap s)
             \<and> i < b_nbits (sfs_freemap s) \<and> i \<notin> used (sfs_freemap s) \<and> (\<forall>j < i. j \<in> used (sfs_freemap s)) \<and> used b' = insert i (used (sfs_freemap s))"
    then obtain b fm where b: "bitmap_alloc (sfs_freemap s) = Some (Inr b, fm)" "bitmap_inv fm" "b_nbits fm = b_nbits (sfs_freemap s)"
        "b < b_nbits (sfs_freemap s)" "b \<notin> used (sfs_freemap s)" "used fm = insert b (used (sfs_freemap s))" by blast
    let ?s = "s\<lparr>sfs_freemap := fm, sfs_freemapdirty := True\<rparr>"
    have lt: "b < nblk s" 
      by (rule ccontr) (use F(9) [of b] b(4,5) in \<open>simp add: taken_def not_less\<close>)
    have "b \<noteq> 0" "b \<noteq> 1" using F(7,8) b(5) unfolding taken_def by metis+
    then have two: "2 \<le> b" by linarith
    have ok: "fs_ok sec ?s"
      using assms b(2,3,6) unfolding fs_ok_def by (auto simp: nblk_def taken_def)
    have "b < nblk ?s" using lt by (simp add: nblk_def)
    from sfs_wblock_spec [OF ok this, of "replicate 512 0"] obtain s'
      where w: "sfs_wblock (replicate 512 0) b ?s = Some (Inr (), s')" "dev_step sec ?s ((dsk sec ?s)(b := replicate 512 0)) s'"
      by auto
    have "alloc_step sec s b s'"
      using dev_stepD [OF w(2)] b(5,6) two lt by (simp add: alloc_step_def taken_def dsk_def del: fun_upd_apply)
    moreover have "sfs_balloc s = Some (Inr b, s')"
      using b(1) lt w(1) by (simp add: sfs_balloc_def sfs_clearblock_def SFS_BLOCKSIZE_def nblk_def kret_def)
    ultimately show ?thesis by (rule returns_Inr [rotated])
  qed
qed

lemma sfs_bfree_spec:
  assumes "fs_ok sec s" and "b \<in> taken s" and "2 \<le> b" and "b < nblk s"
  shows "\<exists>s'. sfs_bfree b s = Some s' \<and> fs_ok sec s' \<and> taken s' = taken s - {b} \<and> dsk sec s' = dsk sec s \<and> vn_store s' = vn_store s
     \<and> sfs_super s' = sfs_super s \<and> sfs_superdirty s' = sfs_superdirty s \<and> sfs_vnodes s' = sfs_vnodes s"
proof -
  note F = fs_okD [OF assms(1)]
  have "b < b_nbits (sfs_freemap s)" "b \<in> used (sfs_freemap s)" using F(5) assms by (auto simp: taken_def)
  from bitmap_unmark_spec [OF F(3) this] obtain fm where fm: "bitmap_unmark (sfs_freemap s) b = Some fm" "bitmap_inv fm"
      "b_nbits fm = b_nbits (sfs_freemap s)" "used fm = used (sfs_freemap s) - {b}" by blast
  have "fs_ok sec (s\<lparr>sfs_freemap := fm, sfs_freemapdirty := True\<rparr>)"
    using assms fm(2-4) unfolding fs_ok_def by (auto simp: nblk_def taken_def)
  with fm show ?thesis by (simp add: sfs_bfree_def taken_def dsk_def)
qed

section \<open>The blocks of a file\<close>

text \<open>
  The block numbers of an inode on the disk \<open>D\<close>: the indirect block, the direct blocks and the entries
  of the indirect block. They are distinct where they are not 0, in use, and on the volume.
\<close>

definition idtab :: "(nat \<Rightarrow> byte list) \<Rightarrow> sfs_inode \<Rightarrow> nat list" where
  "idtab D i = (if sfi_indirect i = 0 then replicate 128 0 else dewords 128 (D (sfi_indirect i)))"

definition blkmap :: "(nat \<Rightarrow> byte list) \<Rightarrow> sfs_inode \<Rightarrow> nat list" where
  "blkmap D i = sfi_direct i @ idtab D i"

definition ptrs :: "(nat \<Rightarrow> byte list) \<Rightarrow> sfs_inode \<Rightarrow> nat list" where
  "ptrs D i = sfi_indirect i # blkmap D i"

definition owned :: "(nat \<Rightarrow> byte list) \<Rightarrow> sfs_inode \<Rightarrow> nat set" where
  "owned D i = set (ptrs D i) - {0}"

definition blocks_ok :: "(nat \<Rightarrow> byte list) \<Rightarrow> nat set \<Rightarrow> nat \<Rightarrow> sfs_inode \<Rightarrow> bool" where
  "blocks_ok D T n i \<longleftrightarrow> length (sfi_direct i) = 15 \<and> owned D i \<subseteq> T \<and> owned D i \<subseteq> {2..<n}
     \<and> (\<forall>j < 144. \<forall>k < 144. ptrs D i ! j = ptrs D i ! k \<longrightarrow> ptrs D i ! j \<noteq> 0 \<longrightarrow> j = k)"

definition blk :: "(nat \<Rightarrow> byte list) \<Rightarrow> nat \<Rightarrow> byte list" where
  "blk D b = (if b = 0 then replicate 512 0 else D b)"

definition fdata :: "(nat \<Rightarrow> byte list) \<Rightarrow> sfs_inode \<Rightarrow> byte list" where
  "fdata D i = concat (map (blk D) (blkmap D i))"

lemma length_idtab [simp]: "length (idtab D i) = 128"
  by (simp add: idtab_def)

lemma length_blkmap: "length (sfi_direct i) = 15 \<Longrightarrow> length (blkmap D i) = 143"
  by (simp add: blkmap_def)

lemma length_ptrs: "length (sfi_direct i) = 15 \<Longrightarrow> length (ptrs D i) = 144"
  by (simp add: ptrs_def length_blkmap)

lemma owned_nth: "blocks_ok D T n i \<Longrightarrow> j < 144 \<Longrightarrow> ptrs D i ! j \<noteq> 0 \<Longrightarrow> ptrs D i ! j \<in> owned D i"
  by (auto simp: owned_def blocks_ok_def length_ptrs)

lemma blkmap_owned: "blocks_ok D T n i \<Longrightarrow> k < 143 \<Longrightarrow> blkmap D i ! k \<noteq> 0 \<Longrightarrow> blkmap D i ! k \<in> owned D i"
  using owned_nth [of D T n i "Suc k"] by (simp add: ptrs_def)

lemma ptrs_update_ok:
  assumes "blocks_ok D T n i" and "ptrs D' i' = (ptrs D i)[j := b]" and "j < 144" and "ptrs D i ! j = 0"
    and "b \<notin> T" and "2 \<le> b" and "b < n" and "length (sfi_direct i') = 15"
  shows "blocks_ok D' (insert b T) n i'" "owned D' i' = insert b (owned D i)"
proof -
  have l: "length (ptrs D i) = 144" using assms(1) by (simp add: blocks_ok_def length_ptrs)
  have "set ((ptrs D i)[j := b]) - {0} = insert b (set (ptrs D i) - {0})"
  proof (intro equalityI subsetI)
    fix x assume "x \<in> set ((ptrs D i)[j := b]) - {0}"
    then show "x \<in> insert b (set (ptrs D i) - {0})" using set_update_subset_insert [of "ptrs D i" j b] by auto
  next
    fix x assume x: "x \<in> insert b (set (ptrs D i) - {0})"
    show "x \<in> set ((ptrs D i)[j := b]) - {0}"
    proof (cases "x = b")
      case True
      then show ?thesis using assms(3,6) l set_update_memI [of j "ptrs D i" b] by auto
    next
      case False
      with x obtain k where k: "k < 144" "ptrs D i ! k = x" "x \<noteq> 0" using l by (auto simp: in_set_conv_nth)
      then have "k \<noteq> j" using assms(4) by auto
      with k have "(ptrs D i)[j := b] ! k = x" by simp
      with k l show ?thesis using nth_mem [of k "(ptrs D i)[j := b]"] by auto
    qed
  qed
  then show o: "owned D' i' = insert b (owned D i)" by (simp add: owned_def assms(2))
  have fresh: "ptrs D i ! k \<noteq> b" if "k < 144" for k
  proof
    assume e: "ptrs D i ! k = b"
    then have "b \<in> owned D i" using owned_nth [OF assms(1) that] assms(6) by auto
    then show False using assms(1,5) by (auto simp: blocks_ok_def)
  qed
  have d: "j' = k'" if "j' < 144" "k' < 144" "(ptrs D i)[j := b] ! j' = (ptrs D i)[j := b] ! k'" "(ptrs D i)[j := b] ! j' \<noteq> 0" for j' k'
  proof -
    have u: "(ptrs D i)[j := b] ! m = (if m = j then b else ptrs D i ! m)" if "m < 144" for m
      using that l assms(3) by (simp add: nth_list_update)
    from that(3,4) fresh [OF that(1)] fresh [OF that(2)] assms(1) that(1,2) show ?thesis
      unfolding u [OF that(1)] u [OF that(2)] blocks_ok_def by (metis (full_types))
  qed
  have "owned D i \<subseteq> T" "owned D i \<subseteq> {2..<n}" using assms(1) by (simp_all add: blocks_ok_def)
  then have "owned D' i' \<subseteq> insert b T" "owned D' i' \<subseteq> {2..<n}" using o assms(6,7) by auto
  with d assms(8) show "blocks_ok D' (insert b T) n i'"
    unfolding blocks_ok_def assms(2) by blast
qed

lemma fdata_eqI:
  assumes "length (blkmap D' i') = length (blkmap D i)"
    and "\<And>k. k < length (blkmap D i) \<Longrightarrow> blk D' (blkmap D' i' ! k) = blk D (blkmap D i ! k)"
  shows "fdata D' i' = fdata D i"
proof -
  have "map (blk D') (blkmap D' i') = map (blk D) (blkmap D i)"
    by (rule nth_equalityI) (use assms in simp_all)
  then show ?thesis by (simp only: fdata_def)
qed

lemma concat_update:
  assumes "\<forall>x \<in> set xs. length x = n" and "k < length xs" and "length y = n"
  shows "concat (xs[k := y]) = splice_at (concat xs) (n * k) y"
  using assms
proof (induction xs arbitrary: k)
  case (Cons x xs)
  show ?case
  proof (cases k)
    case 0
    with Cons.prems show ?thesis by (simp add: splice_at_def)
  next
    case (Suc m)
    have "take (n * Suc m) (x @ concat xs) = x @ take (n * m) (concat xs)"
      "drop (n * Suc m + n) (x @ concat xs) = drop (n * m + n) (concat xs)"
      using Cons.prems(1) by (simp_all add: add.commute)
    with Suc Cons.IH [of m] Cons.prems show ?thesis by (simp add: splice_at_def)
  qed
qed simp

lemma concat_slice:
  assumes "\<forall>x \<in> set xs. length x = n" and "k < length xs"
  shows "take n (drop (n * k) (concat xs)) = xs ! k"
  using assms
proof (induction xs arbitrary: k)
  case (Cons x xs)
  then show ?case by (cases k) simp_all
qed simp

section \<open>Files\<close>

definition inode :: "nat \<Rightarrow> 'd sfs_fs \<Rightarrow> sfs_inode" where
  "inode a s = sv_i (the (vn_store s a))"

definition fdat :: "('d \<Rightarrow> nat \<Rightarrow> byte list) \<Rightarrow> nat \<Rightarrow> 'd sfs_fs \<Rightarrow> byte list" where
  "fdat sec a s = fdata (dsk sec s) (inode a s)"

definition fsize :: "nat \<Rightarrow> 'd sfs_fs \<Rightarrow> nat" where
  "fsize a s = sfi_size (inode a s)"

definition file_ok :: "('d \<Rightarrow> nat \<Rightarrow> byte list) \<Rightarrow> nat \<Rightarrow> 'd sfs_fs \<Rightarrow> bool" where
  "file_ok sec a s \<longleftrightarrow> vn_store s a \<noteq> None \<and> inode_ok (inode a s) \<and> blocks_ok (dsk sec s) (taken s) (nblk s) (inode a s)"

definition meta :: "sfs_vnode \<Rightarrow> int \<times> int \<times> bool \<times> sfs_ops nullable \<times> nat \<times> nat \<times> nat" where
  "meta sv = (vn_refcount sv, vn_opencount sv, vn_countlock sv, vn_ops sv, sv_ino sv, sfi_type (sv_i sv), sfi_linkcount (sv_i sv))"

text \<open>A step that works on the file \<open>a\<close> alone: no block of another file changes, and the blocks it adds were free.\<close>

definition fstep :: "('d \<Rightarrow> nat \<Rightarrow> byte list) \<Rightarrow> nat \<Rightarrow> 'd sfs_fs \<Rightarrow> 'd sfs_fs \<Rightarrow> bool" where
  "fstep sec a s s' \<longleftrightarrow> fs_ok sec s' \<and> file_ok sec a s' \<and> sfs_super s' = sfs_super s \<and> sfs_superdirty s' = sfs_superdirty s
     \<and> sfs_vnodes s' = sfs_vnodes s \<and> taken s \<subseteq> taken s'
     \<and> (\<forall>t \<in> taken s - owned (dsk sec s) (inode a s). dsk sec s' t = dsk sec s t)
     \<and> owned (dsk sec s') (inode a s') = owned (dsk sec s) (inode a s) \<union> (taken s' - taken s)
     \<and> (\<forall>x. x \<noteq> a \<longrightarrow> vn_store s' x = vn_store s x)
     \<and> map_option meta (vn_store s' a) = map_option meta (vn_store s a)"

text \<open>Such a step that changes nothing a reader of the file sees.\<close>

definition gstep :: "('d \<Rightarrow> nat \<Rightarrow> byte list) \<Rightarrow> nat \<Rightarrow> 'd sfs_fs \<Rightarrow> 'd sfs_fs \<Rightarrow> bool" where
  "gstep sec a s s' \<longleftrightarrow> fstep sec a s s' \<and> fdat sec a s' = fdat sec a s \<and> fsize a s' = fsize a s"

lemma fstep_refl: "fs_ok sec s \<Longrightarrow> file_ok sec a s \<Longrightarrow> fstep sec a s s"
  by (auto simp: fstep_def)

lemma gstep_refl: "fs_ok sec s \<Longrightarrow> file_ok sec a s \<Longrightarrow> gstep sec a s s"
  by (simp add: gstep_def fstep_refl)

lemma fstep_trans:
  assumes "fstep sec a s s1" and "fstep sec a s1 s2"
  shows "fstep sec a s s2"
proof -
  have "dsk sec s2 t = dsk sec s t" if "t \<in> taken s - owned (dsk sec s) (inode a s)" for t
  proof -
    have "dsk sec s1 t = dsk sec s t" using assms(1) that unfolding fstep_def by blast
    moreover have "t \<in> taken s1 - owned (dsk sec s1) (inode a s1)" using assms(1) that unfolding fstep_def by blast
    then have "dsk sec s2 t = dsk sec s1 t" using assms(2) unfolding fstep_def by blast
    ultimately show ?thesis by simp
  qed
  moreover have "owned (dsk sec s2) (inode a s2) = owned (dsk sec s) (inode a s) \<union> (taken s2 - taken s)"
    using assms unfolding fstep_def by blast
  ultimately show ?thesis using assms unfolding fstep_def by (simp add: subset_trans [of "taken s" "taken s1" "taken s2"])
qed

lemma gstep_trans: "gstep sec a s s1 \<Longrightarrow> gstep sec a s1 s2 \<Longrightarrow> gstep sec a s s2"
  by (auto simp: gstep_def intro: fstep_trans)

lemma fstepD:
  assumes "fstep sec a s s'"
  shows "fs_ok sec s'" "file_ok sec a s'" "nblk s' = nblk s" "taken s \<subseteq> taken s'"
  using assms by (auto simp: fstep_def nblk_def)

lemma dev_step_gstep:
  assumes "file_ok sec a s" and "dev_step sec s (dsk sec s) s'"
  shows "gstep sec a s s'"
proof -
  note D = dev_stepD [OF assms(2)]
  have "inode a s' = inode a s" by (simp add: inode_def D)
  with assms(1) D show ?thesis by (simp add: gstep_def fstep_def fdat_def fsize_def file_ok_def)
qed

lemma file_okD:
  assumes "file_ok sec a s"
  obtains sv where "vn_store s a = Some sv" "inode a s = sv_i sv" "inode_ok (sv_i sv)" "blocks_ok (dsk sec s) (taken s) (nblk s) (sv_i sv)"
  using assms by (auto simp: file_ok_def inode_def)

text \<open>A new block at the place \<open>j\<close> of the pointers that was 0.\<close>

lemma gstep_alloc:
  assumes "file_ok sec a s" and "vn_store s a = Some sv" and "fs_ok sec s'" and "taken s' = insert b (taken s)"
    and "b \<notin> taken s" and "2 \<le> b" and "b < nblk s"
    and "sfs_super s' = sfs_super s" and "sfs_superdirty s' = sfs_superdirty s" and "sfs_vnodes s' = sfs_vnodes s"
    and "vn_store s' = (vn_store s)(a \<mapsto> sv')" and "meta sv' = meta sv" and "sfi_size (sv_i sv') = sfi_size (sv_i sv)" and "inode_ok (sv_i sv')"
    and "ptrs (dsk sec s') (sv_i sv') = (ptrs (dsk sec s) (sv_i sv))[j := b]" and "j < 144" and "ptrs (dsk sec s) (sv_i sv) ! j = 0"
    and "\<forall>t \<in> taken s - owned (dsk sec s) (sv_i sv). dsk sec s' t = dsk sec s t"
    and "\<forall>k < 143. blk (dsk sec s') (blkmap (dsk sec s') (sv_i sv') ! k) = blk (dsk sec s) (blkmap (dsk sec s) (sv_i sv) ! k)"
  shows "gstep sec a s s'"
proof -
  have i: "inode a s = sv_i sv" "inode a s' = sv_i sv'" by (simp_all add: inode_def assms(2,11))
  have n: "nblk s' = nblk s" by (simp add: nblk_def assms(8))
  have bo: "blocks_ok (dsk sec s) (taken s) (nblk s) (sv_i sv)" "length (sfi_direct (sv_i sv)) = 15" "length (sfi_direct (sv_i sv')) = 15"
    using assms(1,14) i(1) by (auto simp: file_ok_def blocks_ok_def inode_ok_def)
  note pu = ptrs_update_ok [OF bo(1) assms(15-17,5-7) bo(3)]
  have "fdata (dsk sec s') (sv_i sv') = fdata (dsk sec s) (sv_i sv)"
    by (rule fdata_eqI) (use assms(19) bo in \<open>simp_all add: length_blkmap\<close>)
  moreover have "file_ok sec a s'" using pu(1) assms(4,11,14) i n by (simp add: file_ok_def)
  ultimately show ?thesis
    using assms(2-4,5,8-13,18) i pu(2) unfolding gstep_def fstep_def fdat_def fsize_def by auto
qed

section \<open>Block mapping\<close>

lemma bmap_result_spec:
  assumes "fs_ok sec s" and "b = 0 \<or> b \<in> taken s \<and> b < nblk s"
  shows "bmap_result b s = Some (Inr b, s)"
  using assms sfs_bused_spec [of sec s b] by (auto simp: bmap_result_def kret_def)

lemma owned_in: "blocks_ok D T n i \<Longrightarrow> b \<in> owned D i \<Longrightarrow> b \<in> T \<and> 2 \<le> b \<and> b < n"
  by (auto simp: blocks_ok_def)

lemma blkmap_in: "blocks_ok D T n i \<Longrightarrow> k < 143 \<Longrightarrow> blkmap D i ! k = 0 \<or> blkmap D i ! k \<in> T \<and> blkmap D i ! k < n"
  using blkmap_owned [of D T n i k] owned_in [of D T n i "blkmap D i ! k"] by blast

lemma indirect_in: "blocks_ok D T n i \<Longrightarrow> sfi_indirect i = 0 \<or> sfi_indirect i \<in> owned D i \<and> sfi_indirect i \<in> T \<and> sfi_indirect i < n \<and> 2 \<le> sfi_indirect i"
  using owned_in [of D T n i "sfi_indirect i"] by (auto simp: owned_def ptrs_def)

lemma blkmap_direct: "length (sfi_direct i) = 15 \<Longrightarrow> k < 15 \<Longrightarrow> blkmap D i ! k = sfi_direct i ! k"
  by (simp add: blkmap_def nth_append)

lemma blkmap_indirect: "length (sfi_direct i) = 15 \<Longrightarrow> blkmap D i ! (15 + k) = idtab D i ! k"
  by (simp add: blkmap_def nth_append)

lemma sfs_bmap_read:
  assumes "fs_ok sec s" and "file_ok sec a s" and "k < 143"
  shows "\<exists>s'. sfs_bmap a k False s = Some (Inr (blkmap (dsk sec s) (inode a s) ! k), s') \<and> dev_step sec s (dsk sec s) s'"
proof -
  from assms(2) obtain sv where sv: "vn_store s a = Some sv" "inode a s = sv_i sv" "inode_ok (sv_i sv)"
      "blocks_ok (dsk sec s) (taken s) (nblk s) (sv_i sv)" by (rule file_okD)
  have d: "length (sfi_direct (sv_i sv)) = 15" using sv(3) by (simp add: inode_ok_def)
  have refl: "dev_step sec s (dsk sec s) s" using assms(1) unfolding dev_step_def by (metis sfs_fs.surjective sfs_fs.update_convs(1))
  note bin = blkmap_in [OF sv(4) assms(3)]
  show ?thesis
  proof (cases "k < 15")
    case True
    with bmap_result_spec [OF assms(1) bin] d refl sv(1,2) show ?thesis
      by (auto simp: sfs_bmap_def SFS_NDIRECT_def bmap_direct_def blkmap_direct)
  next
    case False
    then obtain m where m: "k = 15 + m" using le_Suc_ex not_less by blast
    have m128: "m < 128" using m assms(3) by simp
    have e: "blkmap (dsk sec s) (sv_i sv) ! k = idtab (dsk sec s) (sv_i sv) ! m" using d m by (simp add: blkmap_indirect)
    show ?thesis
    proof (cases "sfi_indirect (sv_i sv) = 0")
      case True
      with e m m128 refl sv(1,2) show ?thesis by (auto simp: sfs_bmap_def sfs_consts kret_def idtab_def)
    next
      case ind: False
      with indirect_in [OF sv(4)] have "sfi_indirect (sv_i sv) < nblk s" by blast
      from sfs_rblock_spec [OF assms(1) this] obtain s' where r:
          "sfs_rblock (sfi_indirect (sv_i sv)) s = Some (Inr (dsk sec s (sfi_indirect (sv_i sv))), s')" "dev_step sec s (dsk sec s) s'" by blast
      note D = dev_stepD [OF r(2)]
      have t: "idtab (dsk sec s) (sv_i sv) = dewords 128 (dsk sec s (sfi_indirect (sv_i sv)))" using ind by (simp add: idtab_def)
      have "bmap_result (dewords 128 (dsk sec s (sfi_indirect (sv_i sv))) ! m) s' = Some (Inr (dewords 128 (dsk sec s (sfi_indirect (sv_i sv))) ! m), s')"
        by (rule bmap_result_spec [OF D(1)]) (use bin e t D(3,4) in simp)
      then show ?thesis
        using ind e t m m128 sv(1,2) r by (auto simp: sfs_bmap_def bmap_indirect_def bmap_idblock_def sfs_consts kret_def Let_def)
    qed
  qed
qed

lemma sfs_bmap_too_big: "143 \<le> k \<Longrightarrow> sfs_bmap a k doalloc s = Some (Inl EINVAL, s)"
proof -
  assume "143 \<le> k"
  then have "0 < (k - 15) div 128" by (simp add: div_greater_zero_iff)
  with \<open>143 \<le> k\<close> show ?thesis by (simp add: sfs_bmap_def sfs_consts kfail_def)
qed

text \<open>The three places a block can be allocated for.\<close>

lemma alloc_direct_gstep:
  assumes "fs_ok sec s" and "file_ok sec a s" and "vn_store s a = Some sv" and "k < 15" and "sfi_direct (sv_i sv) ! k = 0"
    and "alloc_step sec s b s1"
    and "s' = set_vn a (sv\<lparr>sv_i := (sv_i sv)\<lparr>sfi_direct := (sfi_direct (sv_i sv))[k := b]\<rparr>, sv_dirty := True\<rparr>) s1"
  shows "gstep sec a s s'" "blkmap (dsk sec s') (inode a s') ! k = b" "b \<noteq> 0" "b \<in> taken s'" "b < nblk s'" "fs_ok sec s'"
proof -
  let ?D = "dsk sec s" and ?D' = "(dsk sec s)(b := replicate 512 0)" and ?i = "sv_i sv"
  let ?i' = "?i\<lparr>sfi_direct := (sfi_direct ?i)[k := b]\<rparr>" and ?sv' = "sv\<lparr>sv_i := (sv_i sv)\<lparr>sfi_direct := (sfi_direct (sv_i sv))[k := b]\<rparr>, sv_dirty := True\<rparr>"
  have A: "fs_ok sec s1" "b \<notin> taken s" "2 \<le> b" "b < nblk s" "taken s1 = insert b (taken s)" "dsk sec s1 = ?D'"
      "vn_store s1 = vn_store s" "sfs_super s1 = sfs_super s" "sfs_superdirty s1 = sfs_superdirty s" "sfs_vnodes s1 = sfs_vnodes s"
    using assms(6) by (auto simp: alloc_step_def)
  have S: "dsk sec s' = ?D'" "taken s' = insert b (taken s)" "vn_store s' = (vn_store s)(a \<mapsto> ?sv')" "nblk s' = nblk s"
      "sfs_super s' = sfs_super s" "sfs_superdirty s' = sfs_superdirty s" "sfs_vnodes s' = sfs_vnodes s" "sv_i ?sv' = ?i'" "inode a s' = ?i'"
    using A by (simp_all add: assms(7) set_vn_def dsk_def taken_def nblk_def inode_def del: fun_upd_apply) (simp add: fun_upd_def)
  show ok: "fs_ok sec s'" using A(1) by (simp add: assms(7) set_vn_def fs_ok_def nblk_def taken_def)
  from assms(2,3) have io: "inode_ok ?i" "blocks_ok ?D (taken s) (nblk s) ?i" by (auto simp: file_ok_def inode_def)
  have d: "length (sfi_direct ?i) = 15" using io(1) by (simp add: inode_ok_def)
  have n32: "b < 4294967296" using A(4) fs_okD(6) [OF assms(1)] by simp
  have "sfi_indirect ?i \<noteq> b" using indirect_in [OF io(2)] A(2,3) by auto
  then have t: "idtab ?D' ?i' = idtab ?D ?i" by (simp add: idtab_def)
  have bm: "blkmap ?D' ?i' = (blkmap ?D ?i)[k := b]" using assms(4) d t by (simp add: blkmap_def list_update_append)
  then have p: "ptrs ?D' ?i' = (ptrs ?D ?i)[Suc k := b]" by (simp add: ptrs_def)
  have own: "b \<notin> owned ?D ?i" using owned_in [OF io(2)] A(2) by blast
  have z: "ptrs ?D ?i ! Suc k = 0" using assms(4,5) d by (simp add: ptrs_def blkmap_direct)
  show "gstep sec a s s'"
  proof (rule gstep_alloc [OF assms(2,3) ok S(2) A(2-4) S(5-7) S(3)])
    show "\<forall>m < 143. blk (dsk sec s') (blkmap (dsk sec s') (sv_i ?sv') ! m) = blk ?D (blkmap ?D ?i ! m)"
    proof (intro allI impI)
      fix m :: nat assume m: "m < 143"
      show "blk (dsk sec s') (blkmap (dsk sec s') (sv_i ?sv') ! m) = blk ?D (blkmap ?D ?i ! m)"
      proof (cases "m = k")
        case True
        then show ?thesis using assms(4,5) d A(3) m unfolding S(1,8) bm by (simp add: length_blkmap blkmap_direct blk_def)
      next
        case False
        then have "blkmap ?D ?i ! m \<noteq> b" using blkmap_owned [OF io(2) m] own A(3) by auto
        then show ?thesis using False unfolding S(1,8) bm by (simp add: blk_def)
      qed
    qed
  qed (use S p z A own assms(4) io(1) n32 in \<open>auto simp: meta_def inode_ok_def list_all_length nth_list_update\<close>)
  show "blkmap (dsk sec s') (inode a s') ! k = b" using assms(4) d bm by (simp add: S(1,9) length_blkmap)
  show "b \<noteq> 0" "b \<in> taken s'" "b < nblk s'" using A S by auto
qed

lemma dewords_zeros: "dewords n (replicate (4 * n) 0) = replicate n 0"
proof (induction n)
  case (Suc n)
  have "take 4 (replicate (4 * Suc n) 0) = replicate 4 (0 :: byte)" "drop 4 (replicate (4 * Suc n) 0) = replicate (4 * n) (0 :: byte)"
    by simp_all
  moreover have "debytes (replicate 4 0) = 0" by (simp add: eval_nat_numeral)
  ultimately show ?case using Suc by (simp only: dewords.simps replicate_Suc)
qed simp

lemma alloc_indirect_gstep:
  assumes "fs_ok sec s" and "file_ok sec a s" and "vn_store s a = Some sv" and "sfi_indirect (sv_i sv) = 0"
    and "alloc_step sec s b s1"
    and "s' = set_vn a (sv\<lparr>sv_i := (sv_i sv)\<lparr>sfi_indirect := b\<rparr>, sv_dirty := True\<rparr>) s1"
  shows "gstep sec a s s'" "fs_ok sec s'" "sfi_indirect (inode a s') = b" "b \<noteq> 0" "idtab (dsk sec s') (inode a s') = replicate 128 0"
proof -
  let ?D = "dsk sec s" and ?D' = "(dsk sec s)(b := replicate 512 0)" and ?i = "sv_i sv"
  let ?i' = "?i\<lparr>sfi_indirect := b\<rparr>" and ?sv' = "sv\<lparr>sv_i := (sv_i sv)\<lparr>sfi_indirect := b\<rparr>, sv_dirty := True\<rparr>"
  have A: "fs_ok sec s1" "b \<notin> taken s" "2 \<le> b" "b < nblk s" "taken s1 = insert b (taken s)" "dsk sec s1 = ?D'"
      "vn_store s1 = vn_store s" "sfs_super s1 = sfs_super s" "sfs_superdirty s1 = sfs_superdirty s" "sfs_vnodes s1 = sfs_vnodes s"
    using assms(5) by (auto simp: alloc_step_def)
  have S: "dsk sec s' = ?D'" "taken s' = insert b (taken s)" "vn_store s' = (vn_store s)(a \<mapsto> ?sv')"
      "sfs_super s' = sfs_super s" "sfs_superdirty s' = sfs_superdirty s" "sfs_vnodes s' = sfs_vnodes s" "sv_i ?sv' = ?i'" "inode a s' = ?i'"
    using A by (simp_all add: assms(6) set_vn_def dsk_def taken_def inode_def del: fun_upd_apply) (simp add: fun_upd_def)
  show ok: "fs_ok sec s'" using A(1) by (simp add: assms(6) set_vn_def fs_ok_def nblk_def taken_def)
  from assms(2,3) have io: "inode_ok ?i" "blocks_ok ?D (taken s) (nblk s) ?i" by (auto simp: file_ok_def inode_def)
  have n32: "b < 4294967296" using A(4) fs_okD(6) [OF assms(1)] by simp
  have t': "idtab ?D' ?i' = replicate 128 0" using dewords_zeros [of 128] A(3) by (simp add: idtab_def)
  then have bm: "blkmap ?D' ?i' = blkmap ?D ?i" using assms(4) by (simp add: blkmap_def idtab_def)
  then have p: "ptrs ?D' ?i' = (ptrs ?D ?i)[0 := b]" by (simp add: ptrs_def)
  have own: "b \<notin> owned ?D ?i" using owned_in [OF io(2)] A(2) by blast
  show "gstep sec a s s'"
  proof (rule gstep_alloc [where j = 0, OF assms(2,3) ok S(2) A(2-4) S(4-6) S(3)])
    show "\<forall>m < 143. blk (dsk sec s') (blkmap (dsk sec s') (sv_i ?sv') ! m) = blk ?D (blkmap ?D ?i ! m)"
    proof (intro allI impI)
      fix m :: nat assume m: "m < 143"
      have "blkmap ?D ?i ! m \<noteq> b" using blkmap_owned [OF io(2) m] own A(3) by auto
      then show "blk (dsk sec s') (blkmap (dsk sec s') (sv_i ?sv') ! m) = blk ?D (blkmap ?D ?i ! m)"
        unfolding S(1,7) bm by (simp add: blk_def)
    qed
  qed (use S p A own io(1) n32 assms(4) in \<open>auto simp: meta_def inode_ok_def ptrs_def\<close>)
  show "sfi_indirect (inode a s') = b" "b \<noteq> 0" "idtab (dsk sec s') (inode a s') = replicate 128 0"
    using S A(3) t' by auto
qed

lemma alloc_entry_gstep:
  assumes "fs_ok sec s" and "file_ok sec a s" and "sfi_indirect (inode a s) = d" and "d \<noteq> 0" and "k < 128"
    and "idtab (dsk sec s) (inode a s) ! k = 0" and "alloc_step sec s b s1"
    and "dev_step sec s1 ((dsk sec s1)(d := words32 ((idtab (dsk sec s) (inode a s))[k := b]))) s'"
  shows "gstep sec a s s'" "blkmap (dsk sec s') (inode a s') ! (15 + k) = b" "b \<noteq> 0" "b \<in> taken s'" "b < nblk s'" "fs_ok sec s'"
proof -
  from assms(2) obtain sv where sv: "vn_store s a = Some sv" "inode a s = sv_i sv" "inode_ok (sv_i sv)"
      "blocks_ok (dsk sec s) (taken s) (nblk s) (sv_i sv)" by (rule file_okD)
  let ?D = "dsk sec s" and ?i = "sv_i sv"
  let ?D' = "(?D(b := replicate 512 0))(d := words32 ((idtab ?D ?i)[k := b]))"
  have A: "b \<notin> taken s" "2 \<le> b" "b < nblk s" "taken s1 = insert b (taken s)" "dsk sec s1 = ?D(b := replicate 512 0)"
      "vn_store s1 = vn_store s" "sfs_super s1 = sfs_super s" "sfs_superdirty s1 = sfs_superdirty s" "sfs_vnodes s1 = sfs_vnodes s"
    using assms(7) by (auto simp: alloc_step_def)
  note D = dev_stepD [OF assms(8)]
  have S: "dsk sec s' = ?D'" "taken s' = insert b (taken s)" "vn_store s' = (vn_store s)(a \<mapsto> sv)" "nblk s' = nblk s"
      "sfs_super s' = sfs_super s" "sfs_superdirty s' = sfs_superdirty s" "sfs_vnodes s' = sfs_vnodes s" "inode a s' = ?i"
    using D A sv(1,2) by (auto simp: nblk_def inode_def fun_eq_iff)
  show ok: "fs_ok sec s'" by (rule D(1))
  have dd: "d \<in> owned ?D ?i" "d \<in> taken s" using indirect_in [OF sv(4)] assms(3,4) sv(2) by auto
  have db: "d \<noteq> b" using dd(2) A(1) by auto
  have len: "length (sfi_direct ?i) = 15" using sv(3) by (simp add: inode_ok_def)
  have tb: "list_all (\<lambda>n. n < 4294967296) (idtab ?D ?i)"
    using dewords_bound [of "?D d" 128] fs_okD(10) [OF assms(1), of d] assms(3,4) sv(2) by (simp add: idtab_def)
  then have "list_all (\<lambda>n. n < 4294967296) ((idtab ?D ?i)[k := b])"
    using A(3) assms(5) fs_okD(6) [OF assms(1)] by (simp add: list_all_length nth_list_update)
  from dewords_words32 [OF this, of "[]"] have t': "idtab ?D' ?i = (idtab ?D ?i)[k := b]"
    using assms(3,4) sv(2) by (simp add: idtab_def)
  then have bm: "blkmap ?D' ?i = (blkmap ?D ?i)[15 + k := b]" using len by (simp add: blkmap_def list_update_append)
  then have p: "ptrs ?D' ?i = (ptrs ?D ?i)[16 + k := b]" by (simp add: ptrs_def)
  have z: "blkmap ?D ?i ! (15 + k) = 0" using assms(6) len sv(2) by (simp add: blkmap_indirect)
  have own: "b \<notin> owned ?D ?i" using owned_in [OF sv(4)] A(1) by blast
  have nd: "blkmap ?D ?i ! m \<noteq> d" if "m < 143" for m
  proof
    assume "blkmap ?D ?i ! m = d"
    then have "ptrs ?D ?i ! Suc m = ptrs ?D ?i ! 0" "ptrs ?D ?i ! Suc m \<noteq> 0" using assms(3,4) sv(2) by (auto simp: ptrs_def)
    moreover have "Suc m < 144" using that by simp
    ultimately show False using sv(4) unfolding blocks_ok_def by (metis Zero_not_Suc zero_less_numeral)
  qed
  show "gstep sec a s s'"
  proof (rule gstep_alloc [OF assms(2) sv(1) ok S(2) A(1-3) S(5-7) S(3) refl refl sv(3)])
    show "\<forall>m < 143. blk (dsk sec s') (blkmap (dsk sec s') ?i ! m) = blk ?D (blkmap ?D ?i ! m)"
    proof (intro allI impI)
      fix m :: nat assume m: "m < 143"
      show "blk (dsk sec s') (blkmap (dsk sec s') ?i ! m) = blk ?D (blkmap ?D ?i ! m)"
      proof (cases "m = 15 + k")
        case True
        then show ?thesis using z A(2) db m len unfolding S(1) bm by (simp add: length_blkmap blk_def)
      next
        case False
        then have "blkmap ?D ?i ! m \<noteq> b" using blkmap_owned [OF sv(4) m] own A(2) by auto
        then show ?thesis using False nd [OF m] unfolding S(1) bm by (simp add: blk_def)
      qed
    qed
    show "ptrs (dsk sec s') ?i = (ptrs ?D ?i)[16 + k := b]" unfolding S(1) by (rule p)
    show "16 + k < 144" using assms(5) by simp
    show "ptrs ?D ?i ! (16 + k) = 0" using z by (simp add: ptrs_def)
    show "\<forall>t \<in> taken s - owned ?D ?i. dsk sec s' t = ?D t" unfolding S(1) using dd(1) A(1) by auto
  qed
  show "blkmap (dsk sec s') (inode a s') ! (15 + k) = b" using assms(5) len unfolding S(1,8) bm by (simp add: length_blkmap)
  show "b \<noteq> 0" "b \<in> taken s'" "b < nblk s'" using A S by auto
qed

text \<open>What a mapping that may allocate gives: the block of place \<open>k\<close>, or the volume is full.\<close>

definition mapped_to :: "('d \<Rightarrow> nat \<Rightarrow> byte list) \<Rightarrow> nat \<Rightarrow> 'd sfs_fs \<Rightarrow> nat \<Rightarrow> nat \<Rightarrow> 'd sfs_fs \<Rightarrow> bool" where
  "mapped_to sec a s k b s' \<longleftrightarrow> gstep sec a s s' \<and> b = blkmap (dsk sec s') (inode a s') ! k \<and> b \<noteq> 0"

definition no_space :: "('d \<Rightarrow> nat \<Rightarrow> byte list) \<Rightarrow> nat \<Rightarrow> 'd sfs_fs \<Rightarrow> rc \<Rightarrow> 'd sfs_fs \<Rightarrow> bool" where
  "no_space sec a s e s' \<longleftrightarrow> e = ENOSPC \<and> full s' \<and> gstep sec a s s'"

definition idblock_at :: "('d \<Rightarrow> nat \<Rightarrow> byte list) \<Rightarrow> nat \<Rightarrow> 'd sfs_fs \<Rightarrow> nat \<times> nat list \<Rightarrow> 'd sfs_fs \<Rightarrow> bool" where
  "idblock_at sec a s x s' \<longleftrightarrow> gstep sec a s s' \<and> sfi_indirect (inode a s') = fst x \<and> fst x \<noteq> 0
     \<and> snd x = idtab (dsk sec s') (inode a s')"

lemma balloc_then:
  assumes "fs_ok sec s" and "file_ok sec a s" and "\<And>b s1. alloc_step sec s b s1 \<Longrightarrow> returns (f b s1) Q (no_space sec a s)"
  shows "returns (kbind (sfs_balloc s) f) Q (no_space sec a s)"
proof (rule returns_kbind, rule returns_mono [OF sfs_balloc_spec [OF assms(1)] assms(3)])
  show "no_space sec a s e s'" if "e = ENOSPC \<and> s' = s \<and> full s" for e s'
    using that gstep_refl [OF assms(1,2)] by (simp add: no_space_def)
qed

lemma bmap_result_returns:
  assumes "fs_ok sec s'" and "b \<in> taken s'" and "b < nblk s'" and "gstep sec a s s'" and "blkmap (dsk sec s') (inode a s') ! k = b" and "b \<noteq> 0"
  shows "returns (bmap_result b s') (mapped_to sec a s k) E"
  using bmap_result_spec [OF assms(1), of b] assms(2-6) by (auto simp: mapped_to_def intro!: returns_Inr)

lemma bmap_direct_alloc:
  assumes "fs_ok sec s" and "file_ok sec a s" and "k < 15"
  shows "returns (bmap_direct a k True s) (mapped_to sec a s k) (no_space sec a s)"
proof -
  from assms(2) obtain sv where sv: "vn_store s a = Some sv" "inode a s = sv_i sv" "inode_ok (sv_i sv)"
      "blocks_ok (dsk sec s) (taken s) (nblk s) (sv_i sv)" by (rule file_okD)
  have d: "length (sfi_direct (sv_i sv)) = 15" using sv(3) by (simp add: inode_ok_def)
  show ?thesis
  proof (cases "sfi_direct (sv_i sv) ! k = 0")
    case True
    have "bmap_direct a k True s = kbind (sfs_balloc s) (\<lambda>blk s. bmap_result blk
        (set_vn a (sv\<lparr>sv_i := (sv_i sv)\<lparr>sfi_direct := (sfi_direct (sv_i sv))[k := blk]\<rparr>, sv_dirty := True\<rparr>) s))"
      using True sv(1) d assms(3) by (simp add: bmap_direct_def)
    also have "returns \<dots> (mapped_to sec a s k) (no_space sec a s)"
    proof (rule balloc_then [OF assms(1,2)])
      fix b s1 assume "alloc_step sec s b s1"
      note g = alloc_direct_gstep [OF assms(1,2) sv(1) assms(3) True this refl]
      show "returns (bmap_result b (set_vn a (sv\<lparr>sv_i := (sv_i sv)\<lparr>sfi_direct := (sfi_direct (sv_i sv))[k := b]\<rparr>, sv_dirty := True\<rparr>) s1))
          (mapped_to sec a s k) (no_space sec a s)"
        by (rule bmap_result_returns [OF g(6,4,5,1,2,3)])
    qed
    finally show ?thesis .
  next
    case False
    let ?b = "sfi_direct (sv_i sv) ! k"
    have b: "blkmap (dsk sec s) (inode a s) ! k = ?b" using d assms(3) sv(2) by (simp add: blkmap_direct)
    then have "?b \<in> taken s" "?b < nblk s" using blkmap_in [OF sv(4), of k] assms(3) False sv(2) by auto
    from bmap_result_returns [OF assms(1) this gstep_refl [OF assms(1,2)] b False] show ?thesis
      using False sv(1) d assms(3) by (simp add: bmap_direct_def)
  qed
qed

lemma bmap_idblock_alloc:
  assumes "fs_ok sec s" and "file_ok sec a s"
  shows "returns (bmap_idblock a s) (idblock_at sec a s) (no_space sec a s)"
proof -
  from assms(2) obtain sv where sv: "vn_store s a = Some sv" "inode a s = sv_i sv" "inode_ok (sv_i sv)"
      "blocks_ok (dsk sec s) (taken s) (nblk s) (sv_i sv)" by (rule file_okD)
  show ?thesis
  proof (cases "sfi_indirect (sv_i sv) = 0")
    case True
    have "bmap_idblock a s = kbind (sfs_balloc s) (\<lambda>idblock s. kret (idblock, replicate SFS_DBPERIDB 0)
        (set_vn a (sv\<lparr>sv_i := (sv_i sv)\<lparr>sfi_indirect := idblock\<rparr>, sv_dirty := True\<rparr>) s))"
      using True sv(1) by (simp add: bmap_idblock_def)
    also have "returns \<dots> (idblock_at sec a s) (no_space sec a s)"
    proof (rule balloc_then [OF assms])
      fix b s1 assume "alloc_step sec s b s1"
      note g = alloc_indirect_gstep [OF assms sv(1) True this refl]
      show "returns (kret (b, replicate SFS_DBPERIDB 0) (set_vn a (sv\<lparr>sv_i := (sv_i sv)\<lparr>sfi_indirect := b\<rparr>, sv_dirty := True\<rparr>) s1))
          (idblock_at sec a s) (no_space sec a s)"
        using g by (simp add: SFS_DBPERIDB_def idblock_at_def)
    qed
    finally show ?thesis .
  next
    case False
    with indirect_in [OF sv(4)] have "sfi_indirect (sv_i sv) < nblk s" by blast
    from sfs_rblock_spec [OF assms(1) this] obtain s' where r:
        "sfs_rblock (sfi_indirect (sv_i sv)) s = Some (Inr (dsk sec s (sfi_indirect (sv_i sv))), s')" "dev_step sec s (dsk sec s) s'" by blast
    have "inode a s' = sv_i sv" "dsk sec s' = dsk sec s" using dev_stepD [OF r(2)] sv(1) by (simp_all add: inode_def)
    with False sv(1) r dev_step_gstep [OF assms(2) r(2)] show ?thesis
      by (simp add: bmap_idblock_def SFS_DBPERIDB_def idtab_def idblock_at_def Let_def)
  qed
qed

lemma gstep_ok: "gstep sec a s s' \<Longrightarrow> fs_ok sec s' \<and> file_ok sec a s'"
  by (auto simp: gstep_def dest: fstepD)

lemma bmap_entry_alloc:
  assumes "fs_ok sec s" and "file_ok sec a s" and "m < 128" and "idblock_at sec a s (idb, tab) s1"
  shows "returns (if tab ! m = 0
        then kbind (sfs_balloc s1) (\<lambda>b s. kbind (sfs_wblock (words32 (tab[m := b])) idb s) (\<lambda>_ s. bmap_result b s))
        else bmap_result (tab ! m) s1)
      (mapped_to sec a s (15 + m)) (no_space sec a s)"
proof -
  have x: "gstep sec a s s1" "sfi_indirect (inode a s1) = idb" "idb \<noteq> 0" "tab = idtab (dsk sec s1) (inode a s1)"
    using assms(4) by (auto simp: idblock_at_def)
  have f: "fs_ok sec s1" "file_ok sec a s1" using gstep_ok [OF x(1)] by auto
  have bo: "blocks_ok (dsk sec s1) (taken s1) (nblk s1) (inode a s1)" "length (sfi_direct (inode a s1)) = 15"
    using f(2) by (simp_all add: file_ok_def inode_ok_def)
  have e: "blkmap (dsk sec s1) (inode a s1) ! (15 + m) = tab ! m" using bo(2) x(4) by (simp add: blkmap_indirect)
  have "returns (if tab ! m = 0
        then kbind (sfs_balloc s1) (\<lambda>b s. kbind (sfs_wblock (words32 (tab[m := b])) idb s) (\<lambda>_ s. bmap_result b s))
        else bmap_result (tab ! m) s1)
      (mapped_to sec a s1 (15 + m)) (no_space sec a s1)"
  proof (cases "tab ! m = 0")
    case True
    have "returns (kbind (sfs_balloc s1) (\<lambda>b s. kbind (sfs_wblock (words32 (tab[m := b])) idb s) (\<lambda>_ s. bmap_result b s)))
        (mapped_to sec a s1 (15 + m)) (no_space sec a s1)"
    proof (rule balloc_then [OF f])
      fix b s2 assume al: "alloc_step sec s1 b s2"
      have "idb < nblk s2" "fs_ok sec s2" using indirect_in [OF bo(1)] x(2,3) al by (auto simp: alloc_step_def nblk_def)
      from sfs_wblock_spec [OF this(2,1), of "words32 (tab[m := b])"] x(4) obtain s3
        where w: "sfs_wblock (words32 (tab[m := b])) idb s2 = Some (Inr (), s3)"
          "dev_step sec s2 ((dsk sec s2)(idb := words32 ((idtab (dsk sec s1) (inode a s1))[m := b]))) s3" by auto
      note g = alloc_entry_gstep [OF f x(2,3) assms(3) _ al w(2)]
      show "returns (kbind (sfs_wblock (words32 (tab[m := b])) idb s2) (\<lambda>_ s. bmap_result b s)) (mapped_to sec a s1 (15 + m)) (no_space sec a s1)"
        using bmap_result_returns [OF g(6,4,5,1,2,3)] True x(4) w(1) by simp
    qed
    with True show ?thesis by simp
  next
    case False
    have "tab ! m \<in> taken s1" "tab ! m < nblk s1" using blkmap_in [OF bo(1), of "15 + m"] assms(3) e False by auto
    with bmap_result_returns [OF f(1) this gstep_refl [OF f] e False] False show ?thesis by simp
  qed
  then show ?thesis
    by (rule returns_mono) (auto simp: mapped_to_def no_space_def intro: gstep_trans [OF x(1)])
qed

lemma sfs_bmap_alloc:
  assumes "fs_ok sec s" and "file_ok sec a s" and "k < 143"
  shows "returns (sfs_bmap a k True s) (mapped_to sec a s k) (no_space sec a s)"
proof (cases "k < 15")
  case True
  with bmap_direct_alloc [OF assms(1,2) True] show ?thesis by (simp add: sfs_bmap_def SFS_NDIRECT_def)
next
  case False
  then obtain m where m: "k = 15 + m" using le_Suc_ex not_less by blast
  have m128: "m < 128" using m assms(3) by simp
  from assms(2) obtain sv where sv: "vn_store s a = Some sv" by (auto simp: file_ok_def)
  have "returns (bmap_indirect a m True s) (mapped_to sec a s k) (no_space sec a s)"
    unfolding bmap_indirect_def
  proof (rule returns_kbind, rule returns_mono [OF bmap_idblock_alloc [OF assms(1,2)]])
    fix x s1 assume x: "idblock_at sec a s x s1"
    obtain idb tab where xx: "x = (idb, tab)" by (cases x)
    have "rd tab (int m) = Some (tab ! m)" using m128 x xx by (simp add: idblock_at_def)
    with bmap_entry_alloc [OF assms(1,2) m128, of idb tab s1] x xx m
    show "returns ((case x of (idblock, idbuf) \<Rightarrow> \<lambda>s. do {
          blk \<leftarrow> rd idbuf (int m);
          if blk = 0 \<and> True then kbind (sfs_balloc s) (\<lambda>blk s. kbind (sfs_wblock (words32 (idbuf[m := blk])) idblock s) (\<lambda>_ s. bmap_result blk s))
          else bmap_result blk s }) s1) (mapped_to sec a s k) (no_space sec a s)" by simp
  qed
  then show ?thesis using m m128 sv by (simp add: sfs_bmap_def sfs_consts)
qed

section \<open>Writing one block\<close>

definition wstep :: "('d \<Rightarrow> nat \<Rightarrow> byte list) \<Rightarrow> nat \<Rightarrow> nat \<Rightarrow> byte list \<Rightarrow> 'd sfs_fs \<Rightarrow> 'd sfs_fs \<Rightarrow> bool" where
  "wstep sec a off bs s s' \<longleftrightarrow> fstep sec a s s' \<and> fdat sec a s' = splice_at (fdat sec a s) off bs \<and> fsize a s' = fsize a s"

lemma blk_length: "fs_ok sec s \<Longrightarrow> length (blk (dsk sec s) b) = 512"
  by (simp add: blk_def fs_okD(10))

lemma fdat_length: "fs_ok sec s \<Longrightarrow> file_ok sec a s \<Longrightarrow> length (fdat sec a s) = 73216"
  by (simp add: fdat_def fdata_def length_concat comp_def blk_length sum_list_triv file_ok_def inode_ok_def length_blkmap)

lemma fdat_slice:
  assumes "fs_ok sec s" and "file_ok sec a s" and "k < 143"
  shows "take 512 (drop (512 * k) (fdat sec a s)) = blk (dsk sec s) (blkmap (dsk sec s) (inode a s) ! k)"
proof -
  have "k < length (map (blk (dsk sec s)) (blkmap (dsk sec s) (inode a s)))"
    using assms(2,3) by (simp add: file_ok_def inode_ok_def length_blkmap)
  from concat_slice [OF _ this, of 512] this show ?thesis
    by (simp add: fdat_def fdata_def blk_length [OF assms(1)])
qed

lemma write_block:
  assumes "fs_ok sec s" and "file_ok sec a s" and "k < 143" and "blkmap (dsk sec s) (inode a s) ! k = b" and "b \<noteq> 0"
    and "length data = 512" and "dev_step sec s ((dsk sec s)(b := data)) s'"
  shows "wstep sec a (512 * k) data s s'"
proof -
  let ?D = "dsk sec s" and ?i = "inode a s"
  note D = dev_stepD [OF assms(7)]
  have i: "inode a s' = ?i" by (simp add: inode_def D)
  have bo: "blocks_ok ?D (taken s) (nblk s) ?i" "length (sfi_direct ?i) = 15"
    using assms(2) by (simp_all add: file_ok_def inode_ok_def)
  have uniq: "m = k" if "m < 143" "blkmap ?D ?i ! m = b" for m
  proof -
    have "ptrs ?D ?i ! Suc m = ptrs ?D ?i ! Suc k" "ptrs ?D ?i ! Suc m \<noteq> 0" using that assms(4,5) by (simp_all add: ptrs_def)
    moreover have "Suc m < 144" "Suc k < 144" using that assms(3) by simp_all
    ultimately have "Suc m = Suc k" using bo(1) unfolding blocks_ok_def by blast
    then show ?thesis by simp
  qed
  have "sfi_indirect ?i \<noteq> b"
  proof
    assume "sfi_indirect ?i = b"
    then have "ptrs ?D ?i ! 0 = ptrs ?D ?i ! Suc k" "ptrs ?D ?i ! 0 \<noteq> 0" using assms(4,5) by (simp_all add: ptrs_def)
    moreover have "(0::nat) < 144" "Suc k < 144" using assms(3) by simp_all
    ultimately have "0 = Suc k" using bo(1) unfolding blocks_ok_def by blast
    then show False by simp
  qed
  then have "idtab (?D(b := data)) ?i = idtab ?D ?i" by (simp add: idtab_def)
  then have bm: "blkmap (dsk sec s') ?i = blkmap ?D ?i" and pt: "ptrs (dsk sec s') ?i = ptrs ?D ?i"
    by (simp_all add: D(2) blkmap_def ptrs_def)
  have own: "b \<in> owned ?D ?i" using blkmap_owned [OF bo(1) assms(3)] assms(4,5) by simp
  have "map (blk (dsk sec s')) (blkmap ?D ?i) = (map (blk ?D) (blkmap ?D ?i))[k := data]"
  proof (rule nth_equalityI)
    fix m assume "m < length (map (blk (dsk sec s')) (blkmap ?D ?i))"
    then have m: "m < 143" using bo(2) by (simp add: length_blkmap)
    then show "map (blk (dsk sec s')) (blkmap ?D ?i) ! m = (map (blk ?D) (blkmap ?D ?i))[k := data] ! m"
      using uniq [OF m] assms(3-5) bo(2) by (auto simp: D(2) blk_def length_blkmap nth_list_update)
  qed simp
  then have "fdat sec a s' = concat ((map (blk ?D) (blkmap ?D ?i))[k := data])"
    by (simp add: fdat_def fdata_def i bm)
  also have "\<dots> = splice_at (fdat sec a s) (512 * k) data"
    unfolding fdat_def fdata_def using assms(3,6) bo(2) by (intro concat_update) (simp_all add: blk_length [OF assms(1)] length_blkmap)
  finally have fd: "fdat sec a s' = splice_at (fdat sec a s) (512 * k) data" .
  have "file_ok sec a s'" using assms(2) D i pt by (simp add: file_ok_def blocks_ok_def owned_def)
  then have "fstep sec a s s'" using D own i pt unfolding fstep_def by (auto simp: owned_def)
  with fd i show ?thesis by (simp add: wstep_def fsize_def)
qed

lemma splice_inner:
  assumes "p + n \<le> length xs" and "q + length bs \<le> n"
  shows "splice_at xs p (splice_at (take n (drop p xs)) q bs) = splice_at xs (p + q) bs"
proof (rule nth_equalityI)
  have l: "length (splice_at (take n (drop p xs)) q bs) = n" using assms by simp
  have lens: "p + length (splice_at (take n (drop p xs)) q bs) \<le> length xs" "p + q + length bs \<le> length xs" using assms l by simp_all
  show "length (splice_at xs p (splice_at (take n (drop p xs)) q bs)) = length (splice_at xs (p + q) bs)"
    using splice_at_length [OF lens(1)] splice_at_length [OF lens(2)] by simp
  fix i assume "i < length (splice_at xs p (splice_at (take n (drop p xs)) q bs))"
  then have i: "i < length xs" using splice_at_length [OF lens(1)] by simp
  show "splice_at xs p (splice_at (take n (drop p xs)) q bs) ! i = splice_at xs (p + q) bs ! i"
    using splice_at_nth [OF lens(1) i] splice_at_nth [OF lens(2) i] l assms i
    by (auto simp: splice_at_nth)
qed

lemma splice_append: "p + length xs + length ys \<le> length zs \<Longrightarrow> splice_at (splice_at zs p xs) (p + length xs) ys = splice_at zs p (xs @ ys)"
  by (simp add: splice_at_def ac_simps)

lemma wstep_trans:
  assumes "fs_ok sec s" and "file_ok sec a s" and "wstep sec a off xs s s1" and "wstep sec a (off + length xs) ys s1 s2"
    and "off + length xs + length ys \<le> 73216"
  shows "wstep sec a off (xs @ ys) s s2"
  using assms fdat_length [OF assms(1,2)] by (auto simp: wstep_def splice_append intro: fstep_trans)

lemma gstep_wstep: "gstep sec a s s1 \<Longrightarrow> wstep sec a off bs s1 s2 \<Longrightarrow> wstep sec a off bs s s2"
  by (auto simp: gstep_def wstep_def intro: fstep_trans)

end
