(* ===== verification/Sfs_Rw.thy ===== *)
theory Sfs_Rw
  imports Sfs_File
begin

text \<open>
  Reads and writes of SFS files: \<open>sfs_partialio\<close>, \<open>sfs_blockio\<close> and \<open>sfs_io\<close> on the byte array of a
  file. A read delivers the bytes of the array, a write replaces them; a write that stops early has
  stored a prefix and says so in the uio.
\<close>

section \<open>Parts of a block\<close>

definition off_nat :: "uio \<Rightarrow> nat" where
  "off_nat u = nat (uio_offset u)"

lemma uio_room_off: "uio_room n u \<Longrightarrow> uio_offset u = int (off_nat u) \<and> int (off_nat u + n) \<le> INT_MAX"
  by (auto simp: uio_room_def off_nat_def)

lemma fileblock_eq:
  assumes "uio_room n u"
  shows "fileblock_of u = off_nat u div 512"
proof -
  have "uio_offset u = int (off_nat u)" "int (off_nat u) \<le> INT_MAX" using uio_room_off [OF assms] by auto
  then have "cdiv (uio_offset u) (int SFS_BLOCKSIZE) = int (off_nat u div 512)"
    by (simp add: SFS_BLOCKSIZE_def cdiv_nonneg zdiv_int)
  moreover have "u32 (int (off_nat u div 512)) = off_nat u div 512"
    using \<open>int (off_nat u) \<le> INT_MAX\<close> by (subst u32_id) (auto simp: INT_MAX_def)
  ultimately show ?thesis by (simp add: fileblock_of_def)
qed

lemma take_drop_take: "q + n \<le> m \<Longrightarrow> take n (drop q (take m xs)) = take n (drop q xs)"
  by (simp add: drop_take min_def)

lemma partialio_read:
  assumes "fs_ok sec s" and "file_ok sec a s" and "uio_rw u = UIO_READ" and "uio_room n u"
    and "off_nat u = 512 * k + q" and "q + n \<le> 512" and "q < 512" and "k < 143"
  shows "\<exists>s'. sfs_partialio a u q n s = Some (Inr (), uio_put (take n (drop (off_nat u) (fdat sec a s))) u, s') \<and> gstep sec a s s'"
proof -
  let ?b = "blkmap (dsk sec s) (inode a s) ! k"
  have fb: "fileblock_of u = k" using fileblock_eq [OF assms(4)] assms(5,7) by simp
  from sfs_bmap_read [OF assms(1,2,8)] obtain s1 where m: "sfs_bmap a k False s = Some (Inr ?b, s1)" "dev_step sec s (dsk sec s) s1" by blast
  note D = dev_stepD [OF m(2)]
  have bo: "blocks_ok (dsk sec s) (taken s) (nblk s) (inode a s)" using assms(2) by (simp add: file_ok_def)
  let ?buf = "blk (dsk sec s) ?b"
  have "\<exists>s2. (if ?b = 0 then do { kassert (uio_rw u = UIO_READ); kret (replicate SFS_BLOCKSIZE 0) (u, s1) } else on_fs u (sfs_rblock ?b s1))
      = Some (Inr ?buf, u, s2) \<and> dev_step sec s (dsk sec s) s2"
  proof (cases "?b = 0")
    case True
    with m(2) assms(3) show ?thesis by (simp add: kret_def blk_def SFS_BLOCKSIZE_def)
  next
    case False
    then have "?b < nblk s1" using blkmap_in [OF bo assms(8)] D(3) by auto
    from sfs_rblock_spec [OF D(1) this] obtain s2 where "sfs_rblock ?b s1 = Some (Inr (dsk sec s1 ?b), s2)" "dev_step sec s1 (dsk sec s1) s2" by blast
    with False D(2) m(2) show ?thesis by (auto simp: on_fs_def blk_def dev_step_def)
  qed
  then obtain s2 where r: "(if ?b = 0 then do { kassert (uio_rw u = UIO_READ); kret (replicate SFS_BLOCKSIZE 0) (u, s1) } else on_fs u (sfs_rblock ?b s1))
      = Some (Inr ?buf, u, s2)" "dev_step sec s (dsk sec s) s2" by blast
  have mv: "uiomove ?buf q n u = Some (OK, ?buf, uio_put (take n (drop q ?buf)) u)"
    by (rule uiomove_read [OF assms(4) _ assms(3)]) (use assms(6) blk_length [OF assms(1)] in simp)
  have sl: "take n (drop q ?buf) = take n (drop (off_nat u) (fdat sec a s))"
    unfolding fdat_slice [OF assms(1,2,8), symmetric] take_drop_take [OF assms(6)] by (simp add: assms(5) add.commute)
  have "sfs_partialio a u q n s = Some (Inr (), uio_put (take n (drop q ?buf)) u, s2)"
    using m(1) r(1) mv assms(3,6) fb by (simp add: sfs_partialio_def partialio_at_def on_fs_def SFS_BLOCKSIZE_def kret_def)
  with sl dev_step_gstep [OF assms(2) r(2)] show ?thesis by auto
qed

text \<open>A transfer that wrote \<open>bs\<close>, and one that found no space before it wrote anything.\<close>

definition wrote_bytes :: "('d \<Rightarrow> nat \<Rightarrow> byte list) \<Rightarrow> nat \<Rightarrow> uio \<Rightarrow> nat \<Rightarrow> 'd sfs_fs \<Rightarrow> uio \<times> 'd sfs_fs \<Rightarrow> bool" where
  "wrote_bytes sec a u n s st \<longleftrightarrow> fst st = uio_adv n u \<and> (n = 0 \<or> off_nat u + n \<le> 73216)
     \<and> wstep sec a (off_nat u) (block (uio_mem u) (iov_base u) n) s (snd st)"

definition stopped :: "uio \<Rightarrow> rc \<Rightarrow> 'd sfs_fs \<Rightarrow> bool" where
  "stopped u e s' \<longleftrightarrow> e = ENOSPC \<and> full s' \<or> e = EINVAL \<and> 73216 < off_nat u + uio_resid u"

definition wrote_none :: "('d \<Rightarrow> nat \<Rightarrow> byte list) \<Rightarrow> nat \<Rightarrow> uio \<Rightarrow> 'd sfs_fs \<Rightarrow> rc \<Rightarrow> uio \<times> 'd sfs_fs \<Rightarrow> bool" where
  "wrote_none sec a u s e st \<longleftrightarrow> stopped u e (snd st) \<and> fst st = u \<and> gstep sec a s (snd st)"

lemma bmap_alloc_then:
  assumes "fs_ok sec s" and "file_ok sec a s" and "k < 143"
    and "\<And>b s1. mapped_to sec a s k b s1 \<Longrightarrow> returns (f b (u, s1)) Q (wrote_none sec a u s)"
  shows "returns (kbind (on_fs u (sfs_bmap a k True s)) f) Q (wrote_none sec a u s)"
proof (rule returns_kbind, rule returns_on_fs, rule returns_mono [OF sfs_bmap_alloc [OF assms(1-3)] assms(4)])
  show "wrote_none sec a u s e (u, s')" if "no_space sec a s e s'" for e s'
    using that by (simp add: wrote_none_def no_space_def stopped_def)
qed

lemma mapped_toD:
  assumes "mapped_to sec a s k b s1" and "k < 143"
  shows "fs_ok sec s1" "file_ok sec a s1" "gstep sec a s s1" "blkmap (dsk sec s1) (inode a s1) ! k = b" "b \<noteq> 0" "b < nblk s1"
    "fdat sec a s1 = fdat sec a s" "dsk sec s1 b = take 512 (drop (512 * k) (fdat sec a s))"
proof -
  show g: "gstep sec a s s1" "blkmap (dsk sec s1) (inode a s1) ! k = b" "b \<noteq> 0" using assms(1) by (auto simp: mapped_to_def)
  show f: "fs_ok sec s1" "file_ok sec a s1" using gstep_ok [OF g(1)] by auto
  show "b < nblk s1" using blkmap_in [of "dsk sec s1" "taken s1" "nblk s1" "inode a s1" k] f(2) g assms(2) by (auto simp: file_ok_def)
  show d: "fdat sec a s1 = fdat sec a s" using g(1) by (simp add: gstep_def)
  show "dsk sec s1 b = take 512 (drop (512 * k) (fdat sec a s))"
    using fdat_slice [OF f assms(2)] g d by (simp add: blk_def)
qed

lemma partialio_write:
  assumes "fs_ok sec s" and "file_ok sec a s" and "uio_rw u = UIO_WRITE" and "uio_room n u"
    and "off_nat u = 512 * k + q" and "q + n \<le> 512" and "q < 512" and "k < 143"
  shows "returns (sfs_partialio a u q n s) (\<lambda>_. wrote_bytes sec a u n s) (wrote_none sec a u s)"
proof -
  let ?bs = "block (uio_mem u) (iov_base u) n"
  have fb: "fileblock_of u = k" using fileblock_eq [OF assms(4)] assms(5,7) by simp
  have ks: "512 * k + 512 \<le> length (fdat sec a s)" using fdat_length [OF assms(1,2)] assms(8) by simp
  have "returns (kbind (on_fs u (sfs_bmap a k True s)) (\<lambda>diskblock (u, s). partialio_at q n diskblock u s))
      (\<lambda>_. wrote_bytes sec a u n s) (wrote_none sec a u s)"
  proof (rule bmap_alloc_then [OF assms(1,2,8)])
    fix b s1 assume "mapped_to sec a s k b s1"
    note M = mapped_toD [OF this assms(8)]
    let ?old = "take 512 (drop (512 * k) (fdat sec a s))"
    from sfs_rblock_spec [OF M(1,6)] obtain s2 where r: "sfs_rblock b s1 = Some (Inr ?old, s2)" "dev_step sec s1 (dsk sec s1) s2"
      unfolding M(8) by blast
    note D = dev_stepD [OF r(2)]
    have lo: "length ?old = 512" using ks by simp
    have mv: "uiomove ?old q n u = Some (OK, splice_at ?old q ?bs, uio_adv n u)"
      by (rule uiomove_write [OF assms(4) _ assms(3)]) (use assms(6) lo in simp)
    have ls: "length (splice_at ?old q ?bs) = 512" using splice_at_length [of q ?bs ?old] assms(6) lo by simp
    have b2: "b < nblk s2" using M(6) D(3) by simp
    from sfs_wblock_spec [OF D(1) b2 ls] obtain s3 where w: "sfs_wblock (splice_at ?old q ?bs) b s2 = Some (Inr (), s3)"
        "dev_step sec s2 ((dsk sec s2)(b := splice_at ?old q ?bs)) s3" by blast
    have g2: "gstep sec a s s2" using gstep_trans [OF M(3) dev_step_gstep [OF M(2) r(2)]] .
    have "blkmap (dsk sec s2) (inode a s2) ! k = b" using M(4) D by (simp add: inode_def)
    from write_block [OF _ _ assms(8) this M(5) ls w(2)] gstep_ok [OF g2]
    have "wstep sec a (512 * k) (splice_at ?old q ?bs) s2 s3" by blast
    then have "wstep sec a (512 * k) (splice_at ?old q ?bs) s s3" by (rule gstep_wstep [OF g2])
    then have "wstep sec a (off_nat u) ?bs s s3"
      using splice_inner [OF ks, of q ?bs] assms(5,6) by (simp add: wstep_def)
    then show "returns (case (u, s1) of (u, s) \<Rightarrow> partialio_at q n b u s) (\<lambda>_. wrote_bytes sec a u n s) (wrote_none sec a u s)"
      using M(5) r(1) mv w(1) assms(3,5,6,8) by (simp add: partialio_at_def on_fs_def wrote_bytes_def returns_def)
  qed
  then show ?thesis using assms(3,6) fb by (simp add: sfs_partialio_def SFS_BLOCKSIZE_def)
qed

section \<open>Whole blocks\<close>

text \<open>The uio handed to the device for block \<open>b\<close>, and the uio put back together afterwards.\<close>

definition dev_uio :: "nat \<Rightarrow> uio \<Rightarrow> uio" where
  "dev_uio b u = u\<lparr>uio_offset := 512 * int b, uio_resid := 512\<rparr>"

lemma dev_uio_room:
  assumes "uio_room (uio_resid u) u" and "512 \<le> uio_resid u" and "b < 4194303"
  shows "uio_room 512 (dev_uio b u)" "uio_offset (dev_uio b u) = 512 * int b" "uio_resid (dev_uio b u) = 512"
    "uio_rw (dev_uio b u) = uio_rw u" "uio_mem (dev_uio b u) = uio_mem u" "iov_base (dev_uio b u) = iov_base u"
proof -
  have "mapped (uio_mem u) (iov_base u) 512" using assms(1,2) mapped_sub [of "uio_mem u" "iov_base u" "uio_resid u" 0 512] by (simp add: uio_room_def)
  with assms show "uio_room 512 (dev_uio b u)" by (auto simp: uio_room_def dev_uio_def INT_MAX_def split: if_splits)
qed (simp_all add: dev_uio_def)

lemma blockio_disk:
  assumes "diskblock \<noteq> 0" and "diskblock < 4194303" and "512 \<le> uio_resid u" and "uio_resid u < 4294967296"
  shows "blockio_at diskblock u s = do {
         (result, u', s) \<leftarrow> sfs_rwblock (dev_uio diskblock u) s;
         let u' = u'\<lparr>uio_offset := s32 (uio_offset u' - 512 * int diskblock + uio_offset u),
                   uio_resid := u32 (int (uio_resid u') - 512 + s32 (int (uio_resid u)))\<rparr>;
         if result \<noteq> OK then kfail result (u', s) else kret () (u', s)
       }"
proof -
  have "u32 (int diskblock * 512) = 512 * diskblock" using assms(2) by (subst u32_id) auto
  then have "s32 (int (u32 (int diskblock * int SFS_BLOCKSIZE))) = 512 * int diskblock"
    using assms(2) by (simp add: SFS_BLOCKSIZE_def s32_id INT_MAX_def)
  with assms show ?thesis by (simp add: blockio_at_def dev_uio_def SFS_BLOCKSIZE_def Let_def)
qed

lemma blockio_back:
  assumes "uio_room (uio_resid u) u" and "512 \<le> uio_resid u"
  shows "(uio_adv 512 (dev_uio b u))\<lparr>uio_offset := s32 (uio_offset (uio_adv 512 (dev_uio b u)) - 512 * int b + uio_offset u),
      uio_resid := u32 (int (uio_resid (uio_adv 512 (dev_uio b u))) - 512 + s32 (int (uio_resid u)))\<rparr> = uio_adv 512 u"
proof -
  have o: "0 \<le> uio_offset u" "uio_offset u + int (uio_resid u) \<le> INT_MAX" using assms(1) by (auto simp: uio_room_def)
  then have "s32 (512 + uio_offset u) = uio_offset u + 512" "s32 (int (uio_resid u)) = int (uio_resid u)"
    using assms(2) by (simp_all add: s32_id INT_MAX_def)
  moreover have "u32 (int (uio_resid u) - 512) = uio_resid u - 512" using o assms(2) by (subst u32_id) (auto simp: INT_MAX_def nat_diff_distrib)
  ultimately show ?thesis by (simp add: uio_adv_def dev_uio_def)
qed

lemma blockio_back_put:
  assumes "uio_room (uio_resid u) u" and "512 \<le> uio_resid u" and "length bs = 512"
  shows "(uio_put bs (dev_uio b u))\<lparr>uio_offset := s32 (uio_offset (uio_put bs (dev_uio b u)) - 512 * int b + uio_offset u),
      uio_resid := u32 (int (uio_resid (uio_put bs (dev_uio b u))) - 512 + s32 (int (uio_resid u)))\<rparr> = uio_put bs u"
proof -
  have o: "0 \<le> uio_offset u" "uio_offset u + int (uio_resid u) \<le> INT_MAX" using assms(1) by (auto simp: uio_room_def)
  then have "s32 (512 + uio_offset u) = uio_offset u + 512" "s32 (int (uio_resid u)) = int (uio_resid u)"
    using assms(2) by (simp_all add: s32_id INT_MAX_def)
  moreover have "u32 (int (uio_resid u) - 512) = uio_resid u - 512" using o assms(2) by (subst u32_id) (auto simp: INT_MAX_def nat_diff_distrib)
  ultimately show ?thesis using assms(3) by (simp add: uio_put_def uio_adv_def dev_uio_def)
qed

lemma blockio_read:
  assumes "fs_ok sec s" and "file_ok sec a s" and "uio_rw u = UIO_READ" and "uio_room (uio_resid u) u" and "512 \<le> uio_resid u"
    and "off_nat u = 512 * k" and "k < 143"
  shows "\<exists>s'. sfs_blockio a u s = Some (Inr (), uio_put (take 512 (drop (off_nat u) (fdat sec a s))) u, s') \<and> gstep sec a s s'"
proof -
  let ?b = "blkmap (dsk sec s) (inode a s) ! k"
  have fb: "fileblock_of u = k" using fileblock_eq [OF assms(4)] assms(6) by simp
  from sfs_bmap_read [OF assms(1,2,7)] obtain s1 where m: "sfs_bmap a k False s = Some (Inr ?b, s1)" "dev_step sec s (dsk sec s) s1" by blast
  note D = dev_stepD [OF m(2)]
  have bo: "blocks_ok (dsk sec s) (taken s) (nblk s) (inode a s)" using assms(2) by (simp add: file_ok_def)
  have sl: "take 512 (drop (off_nat u) (fdat sec a s)) = blk (dsk sec s) ?b" using fdat_slice [OF assms(1,2,7)] assms(6) by simp
  show ?thesis
  proof (cases "?b = 0")
    case True
    have "uiomovezeros SFS_BLOCKSIZE u = Some (OK, uio_put (replicate 512 0) u)"
      using uiomovezeros_read [OF uio_room_le [OF assms(4,5)] assms(3)] by (simp add: SFS_BLOCKSIZE_def)
    with True m(1) assms(3) fb have "sfs_blockio a u s = Some (Inr (), uio_put (replicate 512 0) u, s1)"
      by (simp add: sfs_blockio_def blockio_at_def on_fs_def kret_def)
    with True sl dev_step_gstep [OF assms(2) m(2)] show ?thesis by (auto simp: blk_def)
  next
    case False
    have lt: "?b < nblk s1" "?b < 4194303" using blkmap_in [OF bo assms(7)] D(3) False fs_okD(6) [OF assms(1)] by auto
    note u = dev_uio_room [OF assms(4,5) lt(2)]
    from sfs_rwblock_read [OF D(1) _ u(1,2,3) lt(1)] assms(3) u(4) obtain s2
      where r: "sfs_rwblock (dev_uio ?b u) s1 = Some (OK, uio_put (dsk sec s ?b) (dev_uio ?b u), s2)" "dev_step sec s1 (dsk sec s1) s2"
      using D(2) by auto
    have "sfs_blockio a u s = Some (Inr (), uio_put (dsk sec s ?b) u, s2)"
      using m(1) assms(3) fb r(1) blockio_disk [OF False lt(2) assms(5), of s1] blockio_back_put [OF assms(4,5), of "dsk sec s ?b" ?b]
        fs_okD(10) [OF assms(1), of ?b] assms(4) by (simp add: sfs_blockio_def on_fs_def kret_def uio_room_def Let_def)
    moreover have "gstep sec a s s2"
      using dev_step_gstep [OF assms(2)] dev_step_trans [OF m(2) r(2)] D(2) by simp
    ultimately show ?thesis using False sl by (auto simp: blk_def)
  qed
qed

lemma blockio_write:
  assumes "fs_ok sec s" and "file_ok sec a s" and "uio_rw u = UIO_WRITE" and "uio_room (uio_resid u) u" and "512 \<le> uio_resid u"
    and "off_nat u = 512 * k" and "k < 143"
  shows "returns (sfs_blockio a u s) (\<lambda>_. wrote_bytes sec a u 512 s) (wrote_none sec a u s)"
proof -
  let ?bs = "block (uio_mem u) (iov_base u) 512"
  have fb: "fileblock_of u = k" using fileblock_eq [OF assms(4)] assms(6) by simp
  show ?thesis
    unfolding sfs_blockio_def fb using assms(3)
  proof (simp only: refl if_True simp_thms, intro bmap_alloc_then [OF assms(1,2,7)])
    fix b s1 assume "mapped_to sec a s k b s1"
    note M = mapped_toD [OF this assms(7)]
    have lt: "b < 4194303" using M(6) fs_okD(6) [OF M(1)] by simp
    note u = dev_uio_room [OF assms(4,5) lt]
    from sfs_rwblock_write [OF M(1) _ u(1,2,3) M(6)] assms(3) u(4-6) obtain s2
      where w: "sfs_rwblock (dev_uio b u) s1 = Some (OK, uio_adv 512 (dev_uio b u), s2)" "dev_step sec s1 ((dsk sec s1)(b := ?bs)) s2"
      by auto
    have "wstep sec a (512 * k) ?bs s1 s2" by (rule write_block [OF M(1,2) assms(7) M(4,5) length_block w(2)])
    then have "wstep sec a (off_nat u) ?bs s s2" unfolding assms(6) by (rule gstep_wstep [OF M(3)])
    moreover have "uio_resid u < 4294967296" using assms(4) by (simp add: uio_room_def)
    ultimately show "returns (case (u, s1) of (u, s) \<Rightarrow> blockio_at b u s) (\<lambda>_. wrote_bytes sec a u 512 s) (wrote_none sec a u s)"
      using blockio_disk [OF M(5) lt assms(5), of s1] w(1) blockio_back [OF assms(4,5), of b] assms(6,7)
      by (simp add: wrote_bytes_def)
  qed
qed

section \<open>Runs of blocks\<close>

lemma off_nat_adv: "0 \<le> uio_offset u \<Longrightarrow> off_nat (uio_adv n u) = off_nat u + n"
  by (simp add: off_nat_def nat_add_distrib)

lemma off_nat_put: "0 \<le> uio_offset u \<Longrightarrow> off_nat (uio_put bs u) = off_nat u + length bs"
  by (simp add: off_nat_def nat_add_distrib)

lemma block_append: "block m a (n + k) = block m a n @ block m (a + n) k"
  by (rule nth_equalityI) (auto simp: nth_append add.assoc)

lemma take_drop_more: "take (n + m) (drop p xs) = take n (drop p xs) @ take m (drop (p + n) xs)"
  unfolding take_add drop_drop by (simp only: add.commute)

lemma io_blocks_read:
  assumes "fs_ok sec s" and "file_ok sec a s" and "uio_rw u = UIO_READ" and "uio_room (uio_resid u) u" and "512 * n \<le> uio_resid u"
    and "off_nat u = 512 * k" and "k + n \<le> 143"
  shows "\<exists>s'. sfs_io_blocks n a u s = Some (Inr (), uio_put (take (512 * n) (drop (off_nat u) (fdat sec a s))) u, s') \<and> gstep sec a s s'"
  using assms
proof (induction n arbitrary: u s k)
  case 0
  then show ?case by (simp add: kret_def gstep_refl)
next
  case (Suc n)
  let ?x = "take 512 (drop (off_nat u) (fdat sec a s))"
  have k: "k < 143" "512 \<le> uio_resid u" using Suc.prems(5,7) by simp_all
  from blockio_read [OF Suc.prems(1-4) k(2) Suc.prems(6) k(1)] obtain s1
    where b: "sfs_blockio a u s = Some (Inr (), uio_put ?x u, s1)" "gstep sec a s s1" by blast
  have lx: "length ?x = 512" using fdat_length [OF Suc.prems(1,2)] Suc.prems(6) k(1) by simp
  have o: "off_nat (uio_put ?x u) = off_nat u + 512" using off_nat_put [of u ?x] Suc.prems(4) lx by (simp add: uio_room_def)
  have rm: "uio_room (uio_resid (uio_put ?x u)) (uio_put ?x u)" using uio_room_put [OF Suc.prems(4), of ?x] lx k(2) by simp
  have f: "fs_ok sec s1" "file_ok sec a s1" "fdat sec a s1 = fdat sec a s" using gstep_ok [OF b(2)] b(2) by (auto simp: gstep_def)
  have "512 * n \<le> uio_resid (uio_put ?x u)" "off_nat (uio_put ?x u) = 512 * Suc k" using Suc.prems(5,6) lx o by simp_all
  from Suc.IH [OF f(1,2) _ rm this] Suc.prems(3,7) obtain s2
    where r: "sfs_io_blocks n a (uio_put ?x u) s1
      = Some (Inr (), uio_put (take (512 * n) (drop (off_nat u + 512) (fdat sec a s))) (uio_put ?x u), s2)" "gstep sec a s1 s2"
    unfolding f(3) o by auto
  have "take (512 * Suc n) (drop (off_nat u) (fdat sec a s)) = ?x @ take (512 * n) (drop (off_nat u + 512) (fdat sec a s))"
    using take_drop_more [of 512 "512 * n"] by simp
  with b r show ?case by (auto simp: uio_put_append intro: gstep_trans)
qed

text \<open>A transfer that stopped with an error after \<open>p\<close> of \<open>n\<close> bytes.\<close>

definition wrote_part :: "('d \<Rightarrow> nat \<Rightarrow> byte list) \<Rightarrow> nat \<Rightarrow> uio \<Rightarrow> nat \<Rightarrow> 'd sfs_fs \<Rightarrow> rc \<Rightarrow> uio \<times> 'd sfs_fs \<Rightarrow> bool" where
  "wrote_part sec a u n s e st \<longleftrightarrow> stopped u e (snd st) \<and> (\<exists>p \<le> n. wrote_bytes sec a u p s st)"

lemma splice_Nil: "splice_at xs p [] = xs"
  by (simp add: splice_at_def)

lemma gstep_wrote: "gstep sec a s s' \<Longrightarrow> wrote_bytes sec a u 0 s (u, s')"
  by (simp add: wrote_bytes_def wstep_def gstep_def block_def splice_Nil)

lemma wrote_none_part: "wrote_none sec a u s e st \<Longrightarrow> wrote_part sec a u n s e st"
  using gstep_wrote [of sec a s "snd st" u] by (cases st) (auto simp: wrote_none_def wrote_part_def intro!: exI [of _ 0])

lemma wrote_ok:
  assumes "wrote_bytes sec a u n s (u1, s1)" and "uio_room m u" and "n \<le> m"
  shows "fs_ok sec s1" "file_ok sec a s1" "u1 = uio_adv n u" "uio_room (m - n) u1" "uio_rw u1 = uio_rw u" "off_nat u1 = off_nat u + n"
  using assms uio_room_adv [OF assms(2,3)] by (auto simp: wrote_bytes_def wstep_def uio_room_def off_nat_def nat_add_distrib dest: fstepD)

lemma wrote_more:
  assumes "fs_ok sec s" and "file_ok sec a s" and "uio_room n u" and "wrote_bytes sec a u n s (u1, s1)" and "wrote_bytes sec a u1 m s1 st"
  shows "wrote_bytes sec a u (n + m) s st"
proof -
  note W = wrote_ok [OF assms(4,3) order_refl]
  have e: "block (uio_mem u) (iov_base u) (n + m) = block (uio_mem u) (iov_base u) n @ block (uio_mem u1) (iov_base u1) m"
    using W(3) by (simp add: block_append)
  have w1: "wstep sec a (off_nat u) (block (uio_mem u) (iov_base u) n) s s1" "n = 0 \<or> off_nat u + n \<le> 73216"
    using assms(4) by (auto simp: wrote_bytes_def)
  have w2: "wstep sec a (off_nat u + n) (block (uio_mem u1) (iov_base u1) m) s1 (snd st)" "m = 0 \<or> off_nat u + n + m \<le> 73216"
      "fst st = uio_adv m u1"
    using assms(5) W(6) by (auto simp: wrote_bytes_def)
  have "wstep sec a (off_nat u) (block (uio_mem u) (iov_base u) (n + m)) s (snd st)"
  proof (cases "m = 0")
    case True
    with w1 w2 show ?thesis by (auto simp: wstep_def splice_Nil block_def intro: fstep_trans)
  next
    case False
    with wstep_trans [OF assms(1,2) w1(1), of "block (uio_mem u1) (iov_base u1) m" "snd st"] w2 show ?thesis unfolding e by simp
  qed
  moreover have "n + m = 0 \<or> off_nat u + (n + m) \<le> 73216" using w1(2) w2(2) by auto
  ultimately show ?thesis using W(3) w2(3) by (simp add: wrote_bytes_def uio_adv_add)
qed

lemma wrote_more_part:
  assumes "fs_ok sec s" and "file_ok sec a s" and "uio_room n u" and "wrote_bytes sec a u n s (u1, s1)" and "wrote_part sec a u1 m s1 e st"
    and "n \<le> uio_resid u"
  shows "wrote_part sec a u (n + m) s e st"
proof -
  note W = wrote_ok [OF assms(4,3) order_refl]
  have "off_nat u1 + uio_resid u1 = off_nat u + uio_resid u" using W(3,6) assms(6) by simp
  then show ?thesis using assms(5) wrote_more [OF assms(1-4)] unfolding wrote_part_def stopped_def by (metis add_left_mono)
qed

lemma returns_then:
  assumes "fs_ok sec s" and "file_ok sec a s" and "uio_room n u" and "n \<le> uio_resid u"
    and "returns g (\<lambda>_. wrote_bytes sec a u n s) (wrote_none sec a u s)"
    and "\<And>u1 s1. wrote_bytes sec a u n s (u1, s1) \<Longrightarrow> returns (f u1 s1) (\<lambda>_. wrote_bytes sec a u1 m s1) (wrote_part sec a u1 m s1)"
  shows "returns (kbind g (\<lambda>_ (u, s). f u s)) (\<lambda>_. wrote_bytes sec a u (n + m) s) (wrote_part sec a u (n + m) s)"
proof (rule returns_kbind, rule returns_mono [OF assms(5)])
  fix x st assume w: "wrote_bytes sec a u n s st"
  obtain u1 s1 where st: "st = (u1, s1)" by (cases st)
  from returns_mono [OF assms(6) [OF w [unfolded st]]] wrote_more [OF assms(1-3) w [unfolded st]] wrote_more_part [OF assms(1-3) w [unfolded st] _ assms(4)]
  show "returns (case st of (u, s) \<Rightarrow> f u s) (\<lambda>_. wrote_bytes sec a u (n + m) s) (wrote_part sec a u (n + m) s)"
    unfolding st by simp
qed (rule wrote_none_part)

lemma blockio_write_any:
  assumes "fs_ok sec s" and "file_ok sec a s" and "uio_rw u = UIO_WRITE" and "uio_room (uio_resid u) u" and "512 \<le> uio_resid u"
    and "off_nat u = 512 * k"
  shows "returns (sfs_blockio a u s) (\<lambda>_. wrote_bytes sec a u 512 s) (wrote_none sec a u s)"
proof (cases "k < 143")
  case True
  show ?thesis by (rule blockio_write [OF assms True])
next
  case False
  have "fileblock_of u = k" using fileblock_eq [OF assms(4)] assms(6) by simp
  with False assms(5,6) show ?thesis
    using gstep_refl [OF assms(1,2)] by (simp add: sfs_blockio_def sfs_bmap_too_big on_fs_def returns_def wrote_none_def stopped_def)
qed

lemma io_blocks_write:
  assumes "fs_ok sec s" and "file_ok sec a s" and "uio_rw u = UIO_WRITE" and "uio_room (uio_resid u) u" and "512 * n \<le> uio_resid u"
    and "off_nat u = 512 * k"
  shows "returns (sfs_io_blocks n a u s) (\<lambda>_. wrote_bytes sec a u (512 * n) s) (wrote_part sec a u (512 * n) s)"
  using assms
proof (induction n arbitrary: u s k)
  case 0
  then show ?case using gstep_wrote [OF gstep_refl] by simp
next
  case (Suc n)
  have r: "512 \<le> uio_resid u" using Suc.prems(5) by simp
  have "returns (kbind (sfs_blockio a u s) (\<lambda>_ (u, s). sfs_io_blocks n a u s))
      (\<lambda>_. wrote_bytes sec a u (512 + 512 * n) s) (wrote_part sec a u (512 + 512 * n) s)"
  proof (rule returns_then [OF Suc.prems(1,2) uio_room_le [OF Suc.prems(4) r] r blockio_write_any [OF Suc.prems(1-4) r Suc.prems(6)]])
    fix u1 s1 assume "wrote_bytes sec a u 512 s (u1, s1)"
    note W = wrote_ok [OF this Suc.prems(4) r]
    show "returns (sfs_io_blocks n a u1 s1) (\<lambda>_. wrote_bytes sec a u1 (512 * n) s1) (wrote_part sec a u1 (512 * n) s1)"
      using Suc.IH [OF W(1,2), of u1 "Suc k"] W Suc.prems(3,5,6) by simp
  qed
  then show ?case by (simp add: add.commute)
qed

section \<open>sfs\_io\<close>

lemma crem_off:
  assumes "uio_room n u"
  shows "crem (uio_offset u) (int SFS_BLOCKSIZE) = int (off_nat u mod 512)"
    "u32 (crem (uio_offset u) (int SFS_BLOCKSIZE)) = off_nat u mod 512"
proof -
  show e: "crem (uio_offset u) (int SFS_BLOCKSIZE) = int (off_nat u mod 512)"
    using uio_room_off [OF assms] by (simp add: SFS_BLOCKSIZE_def crem_mod zmod_int)
  have "off_nat u mod 512 < 512" by simp
  then show "u32 (crem (uio_offset u) (int SFS_BLOCKSIZE)) = off_nat u mod 512"
    unfolding e by (subst u32_id) auto
qed

lemma io_tail_read:
  assumes "fs_ok sec s" and "file_ok sec a s" and "uio_rw u = UIO_READ" and "uio_room (uio_resid u) u"
    and "uio_resid u = 0 \<or> off_nat u mod 512 = 0" and "uio_resid u = 0 \<or> off_nat u + uio_resid u \<le> 73216"
  shows "\<exists>s'. sfs_io_tail a u s = Some (Inr (), uio_put (take (uio_resid u) (drop (off_nat u) (fdat sec a s))) u, s') \<and> gstep sec a s s'"
proof (cases "uio_resid u = 0")
  case True
  then show ?thesis using gstep_refl [OF assms(1,2)] by (simp add: sfs_io_tail_def kret_def)
next
  case False
  let ?n = "uio_resid u div 512" and ?r = "uio_resid u mod 512"
  define k where "k = off_nat u div 512"
  have k: "off_nat u = 512 * k" using mult_div_mod_eq [of 512 "off_nat u"] assms(5) False unfolding k_def by linarith
  let ?x = "take (512 * ?n) (drop (off_nat u) (fdat sec a s))"
  have sum: "uio_resid u = 512 * ?n + ?r" by simp
  have bound: "512 * k + (512 * ?n + ?r) \<le> 73216" using assms(6) False k sum by simp
  then have kn: "k + ?n \<le> 143" by simp
  have nle: "512 * ?n \<le> uio_resid u" by simp
  from io_blocks_read [OF assms(1-4) nle k kn] obtain s1
    where b: "sfs_io_blocks ?n a u s = Some (Inr (), uio_put ?x u, s1)" "gstep sec a s s1" by blast
  have lx: "length ?x = 512 * ?n" using fdat_length [OF assms(1,2)] k bound by simp
  have f: "fs_ok sec s1" "file_ok sec a s1" "fdat sec a s1 = fdat sec a s" using gstep_ok [OF b(2)] b(2) by (auto simp: gstep_def)
  have o: "off_nat (uio_put ?x u) = off_nat u + 512 * ?n" using off_nat_put [of u ?x] assms(4) lx by (simp add: uio_room_def)
  have rs: "uio_resid (uio_put ?x u) = ?r" using lx minus_mult_div_eq_mod [of "uio_resid u" 512] by simp
  have rm: "uio_room ?r (uio_put ?x u)"
    using uio_room_put [OF assms(4), of ?x] lx minus_mult_div_eq_mod [of "uio_resid u" 512] by simp
  have c: "crem (uio_offset u) (int SFS_BLOCKSIZE) = 0" using crem_off(1) [OF assms(4)] assms(5) False by simp
  have split: "take (uio_resid u) (drop (off_nat u) (fdat sec a s)) = ?x @ take ?r (drop (off_nat u + 512 * ?n) (fdat sec a s))"
    using take_drop_more [of "512 * ?n" ?r] sum by simp
  show ?thesis
  proof (cases "?r = 0")
    case True
    with split have "take (uio_resid u) (drop (off_nat u) (fdat sec a s)) = ?x" by simp
    with True False b c rs show ?thesis by (auto simp: sfs_io_tail_def SFS_BLOCKSIZE_def kret_def)
  next
    case r: False
    have lt: "k + ?n < 143" using bound r by linarith
    have "off_nat (uio_put ?x u) = 512 * (k + ?n) + 0" "0 + ?r \<le> 512" "uio_rw (uio_put ?x u) = UIO_READ"
      using o k assms(3) by (simp_all add: less_imp_le)
    from partialio_read [OF f(1,2) this(3) rm this(1,2) _ lt] obtain s2
      where p: "sfs_partialio a (uio_put ?x u) 0 ?r s1 = Some (Inr (), uio_put (take ?r (drop (off_nat u + 512 * ?n) (fdat sec a s))) (uio_put ?x u), s2)"
        "gstep sec a s1 s2" unfolding f(3) o by auto
    have "sfs_io_tail a u s = Some (Inr (), uio_put (?x @ take ?r (drop (off_nat u + 512 * ?n) (fdat sec a s))) u, s2)"
      using False r b(1) c rs p(1) by (simp add: sfs_io_tail_def SFS_BLOCKSIZE_def uio_put_append)
    with split gstep_trans [OF b(2) p(2)] show ?thesis by auto
  qed
qed

lemma align_next:
  assumes "l = min (512 - n mod 512) r"
  shows "r - l = 0 \<or> (n + l) mod 512 = (0 :: nat)"
proof (cases "512 - n mod 512 < r")
  case True
  then have "l = 512 - n mod 512" using assms by simp
  moreover have "512 * d + x + (512 - x) = 512 * (d + 1)" if "x < 512" for d x :: nat using that by simp
  from this [of "n mod 512" "n div 512"] have "n + (512 - n mod 512) = 512 * (n div 512 + 1)" unfolding mult_div_mod_eq by simp
  ultimately have "n + l = 512 * (n div 512 + 1)" by simp
  then show ?thesis by simp
qed (use assms in simp)

lemma io_body_read:
  assumes "fs_ok sec s" and "file_ok sec a s" and "uio_rw u = UIO_READ" and "uio_room (uio_resid u) u"
    and "off_nat u + uio_resid u \<le> 73216"
  shows "\<exists>s'. sfs_io_body a u s = Some (Inr (), uio_put (take (uio_resid u) (drop (off_nat u) (fdat sec a s))) u, s') \<and> gstep sec a s s'"
proof -
  let ?q = "off_nat u mod 512" and ?k = "off_nat u div 512"
  note q = crem_off(2) [OF assms(4)]
  show ?thesis
  proof (cases "?q = 0")
    case True
    with io_tail_read [OF assms(1-4)] assms(5) q show ?thesis by (simp add: sfs_io_body_def)
  next
    case False
    define l where "l = min (512 - ?q) (uio_resid u)"
    have len: "u32 (int SFS_BLOCKSIZE - int ?q) = 512 - ?q" by (subst u32_id) (auto simp: SFS_BLOCKSIZE_def nat_diff_distrib)
    have l: "(if 512 - ?q > uio_resid u then uio_resid u else 512 - ?q) = l" "l \<le> uio_resid u" "?q + l \<le> 512" by (auto simp: l_def)
    have "off_nat u \<noteq> 73216" using False by auto
    then have "off_nat u < 143 * 512" using assms(5) by linarith
    then have k: "?k < 143" "off_nat u = 512 * ?k + ?q" by (simp_all add: less_mult_imp_div_less)
    let ?x = "take l (drop (off_nat u) (fdat sec a s))"
    from partialio_read [OF assms(1-3) uio_room_le [OF assms(4) l(2)] k(2) l(3) _ k(1)] obtain s1
      where p: "sfs_partialio a u ?q l s = Some (Inr (), uio_put ?x u, s1)" "gstep sec a s s1" by auto
    have lx: "length ?x = l" using fdat_length [OF assms(1,2)] assms(5) l(2) by simp
    have f: "fs_ok sec s1" "file_ok sec a s1" "fdat sec a s1 = fdat sec a s" using gstep_ok [OF p(2)] p(2) by (auto simp: gstep_def)
    have o: "off_nat (uio_put ?x u) = off_nat u + l" using off_nat_put [of u ?x] assms(4) lx by (simp add: uio_room_def)
    have rs: "uio_resid (uio_put ?x u) = uio_resid u - l" using lx by simp
    have rm: "uio_room (uio_resid (uio_put ?x u)) (uio_put ?x u)" using uio_room_put [OF assms(4), of ?x] lx l(2) by simp
    note al = align_next [OF l_def]
    from io_tail_read [OF f(1,2) _ rm] al assms(3,5) l(2) rs o obtain s2
      where t: "sfs_io_tail a (uio_put ?x u) s1 = Some (Inr (), uio_put (take (uio_resid u - l) (drop (off_nat u + l) (fdat sec a s))) (uio_put ?x u), s2)"
        "gstep sec a s1 s2" unfolding f(3) by auto
    have "take (uio_resid u) (drop (off_nat u) (fdat sec a s)) = ?x @ take (uio_resid u - l) (drop (off_nat u + l) (fdat sec a s))"
      using take_drop_more [of l "uio_resid u - l"] l(2) by simp
    with p t gstep_trans [OF p(2) t(2)] q len l(1) False show ?thesis
      by (auto simp: sfs_io_body_def uio_put_append Let_def)
  qed
qed

lemma partialio_write_any:
  assumes "fs_ok sec s" and "file_ok sec a s" and "uio_rw u = UIO_WRITE" and "uio_room n u"
    and "off_nat u = 512 * k + q" and "q + n \<le> 512" and "q < 512" and "q \<noteq> 0 \<or> 0 < uio_resid u"
  shows "returns (sfs_partialio a u q n s) (\<lambda>_. wrote_bytes sec a u n s) (wrote_none sec a u s)"
proof (cases "k < 143")
  case True
  show ?thesis by (rule partialio_write [OF assms(1-7) True])
next
  case False
  have "fileblock_of u = k" using fileblock_eq [OF assms(4)] assms(5,7) by simp
  moreover have "73216 < off_nat u + uio_resid u" using False assms(5,8) by auto
  ultimately show ?thesis
    using False assms(6) gstep_refl [OF assms(1,2)] by (simp add: sfs_partialio_def sfs_bmap_too_big on_fs_def returns_def wrote_none_def stopped_def SFS_BLOCKSIZE_def)
qed

lemma io_tail_write:
  assumes "fs_ok sec s" and "file_ok sec a s" and "uio_rw u = UIO_WRITE" and "uio_room (uio_resid u) u"
    and "uio_resid u = 0 \<or> off_nat u mod 512 = 0"
  shows "returns (sfs_io_tail a u s) (\<lambda>_. wrote_bytes sec a u (uio_resid u) s) (wrote_part sec a u (uio_resid u) s)"
proof (cases "uio_resid u = 0")
  case True
  then show ?thesis using gstep_wrote [OF gstep_refl [OF assms(1,2)]] by (simp add: sfs_io_tail_def)
next
  case False
  let ?n = "uio_resid u div 512" and ?r = "uio_resid u mod 512"
  define k where "k = off_nat u div 512"
  have k: "off_nat u = 512 * k" using mult_div_mod_eq [of 512 "off_nat u"] assms(5) False unfolding k_def by linarith
  have nle: "512 * ?n \<le> uio_resid u" by simp
  have c: "crem (uio_offset u) (int SFS_BLOCKSIZE) = 0" using crem_off(1) [OF assms(4)] assms(5) False by simp
  let ?f = "\<lambda>u s. do { kassert (uio_resid u < SFS_BLOCKSIZE); if uio_resid u > 0 then sfs_partialio a u 0 (uio_resid u) s else kret () (u, s) }"
  have "returns (kbind (sfs_io_blocks ?n a u s) (\<lambda>_ (u, s). ?f u s))
      (\<lambda>_. wrote_bytes sec a u (512 * ?n + ?r) s) (wrote_part sec a u (512 * ?n + ?r) s)"
  proof (rule returns_kbind, rule returns_mono [OF io_blocks_write [OF assms(1-4) nle k]])
    fix x :: unit and st assume w: "wrote_bytes sec a u (512 * ?n) s st"
    obtain u1 s1 where st: "st = (u1, s1)" by (cases st)
    note W = wrote_ok [OF w [unfolded st] assms(4) nle]
    note more = wrote_more [OF assms(1,2) uio_room_le [OF assms(4) nle] w [unfolded st]]
      wrote_more_part [OF assms(1,2) uio_room_le [OF assms(4) nle] w [unfolded st] _ nle]
    have rs: "uio_resid u1 = ?r" "uio_room ?r u1" using W(3,4) by (simp_all add: minus_mult_div_eq_mod)
    have "returns (?f u1 s1) (\<lambda>_. wrote_bytes sec a u1 ?r s1) (wrote_part sec a u1 ?r s1)"
    proof (cases "?r = 0")
      case True
      then show ?thesis using rs(1) gstep_wrote [OF gstep_refl [OF W(1,2)]] by (simp add: SFS_BLOCKSIZE_def)
    next
      case r: False
      have "off_nat u1 = 512 * (k + ?n) + 0" "0 + ?r \<le> 512" using W(6) k by (simp_all add: less_imp_le)
      from partialio_write_any [OF W(1,2) _ rs(2) this _ _] assms(3) W(5) rs(1) r
      have "returns (?f u1 s1) (\<lambda>_. wrote_bytes sec a u1 ?r s1) (wrote_none sec a u1 s1)" by (simp add: SFS_BLOCKSIZE_def)
      then show ?thesis by (rule returns_mono) (auto intro: wrote_none_part)
    qed
    then show "returns (case st of (u, s) \<Rightarrow> ?f u s)
        (\<lambda>_. wrote_bytes sec a u (512 * ?n + ?r) s) (wrote_part sec a u (512 * ?n + ?r) s)"
      unfolding st prod.case by (rule returns_mono) (erule more)+
  next
    fix e st assume "wrote_part sec a u (512 * ?n) s e st"
    then show "wrote_part sec a u (512 * ?n + ?r) s e st" unfolding wrote_part_def by (meson le_add1 order_trans)
  qed
  then show ?thesis using False c by (simp add: sfs_io_tail_def SFS_BLOCKSIZE_def)
qed

lemma io_body_write:
  assumes "fs_ok sec s" and "file_ok sec a s" and "uio_rw u = UIO_WRITE" and "uio_room (uio_resid u) u"
  shows "returns (sfs_io_body a u s) (\<lambda>_. wrote_bytes sec a u (uio_resid u) s) (wrote_part sec a u (uio_resid u) s)"
proof -
  let ?q = "off_nat u mod 512" and ?k = "off_nat u div 512"
  note q = crem_off(2) [OF assms(4)]
  show ?thesis
  proof (cases "?q = 0")
    case True
    with io_tail_write [OF assms] q show ?thesis by (simp add: sfs_io_body_def)
  next
    case False
    define l where "l = min (512 - ?q) (uio_resid u)"
    have len: "u32 (int SFS_BLOCKSIZE - int ?q) = 512 - ?q" by (subst u32_id) (auto simp: SFS_BLOCKSIZE_def nat_diff_distrib)
    have l: "(if 512 - ?q > uio_resid u then uio_resid u else 512 - ?q) = l" "l \<le> uio_resid u" "?q + l \<le> 512" by (auto simp: l_def)
    have k: "off_nat u = 512 * ?k + ?q" "?q < 512" by simp_all
    note al = align_next [OF l_def]
    have "returns (kbind (sfs_partialio a u ?q l s) (\<lambda>_ (u, s). sfs_io_tail a u s))
        (\<lambda>_. wrote_bytes sec a u (l + (uio_resid u - l)) s) (wrote_part sec a u (l + (uio_resid u - l)) s)"
    proof (rule returns_then [OF assms(1,2) uio_room_le [OF assms(4) l(2)] l(2)
          partialio_write_any [OF assms(1-3) uio_room_le [OF assms(4) l(2)] k(1) l(3) k(2) disjI1 [OF False]]])
      fix u1 s1 assume "wrote_bytes sec a u l s (u1, s1)"
      note W = wrote_ok [OF this assms(4) l(2)]
      have "uio_resid u1 = uio_resid u - l" using W(3) by simp
      with io_tail_write [OF W(1,2), of u1] W assms(3) al
      show "returns (sfs_io_tail a u1 s1) (\<lambda>_. wrote_bytes sec a u1 (uio_resid u - l) s1) (wrote_part sec a u1 (uio_resid u - l) s1)" by simp
    qed
    then show ?thesis using q len l(1,2) False by (simp add: sfs_io_body_def Let_def)
  qed
qed

section \<open>The abstract file\<close>

text \<open>A file as a client sees it: an array of the greatest size a file can have, and the size.\<close>

record afile =
  abytes :: "byte list"
  asize :: nat

definition afile_of :: "('d \<Rightarrow> nat \<Rightarrow> byte list) \<Rightarrow> nat \<Rightarrow> 'd sfs_fs \<Rightarrow> afile" where
  "afile_of sec a s = \<lparr>abytes = fdat sec a s, asize = fsize a s\<rparr>"

definition afile_read :: "nat \<Rightarrow> nat \<Rightarrow> afile \<Rightarrow> byte list" where
  "afile_read off n f = take n (drop off (take (asize f) (abytes f)))"

definition afile_write :: "nat \<Rightarrow> byte list \<Rightarrow> afile \<Rightarrow> afile" where
  "afile_write off bs f = \<lparr>abytes = splice_at (abytes f) off bs, asize = max (asize f) (off + length bs)\<rparr>"

lemma sfs_io_read:
  assumes "fs_ok sec s" and "file_ok sec a s" and "fsize a s \<le> 73216" and "uio_rw u = UIO_READ" and "uio_room (uio_resid u) u"
  shows "\<exists>s'. sfs_io a u s = Some (Inr (), uio_put (afile_read (off_nat u) (uio_resid u) (afile_of sec a s)) u, s') \<and> gstep sec a s s'"
proof -
  let ?n = "uio_resid u" and ?o = "off_nat u" and ?z = "fsize a s"
  from assms(2) obtain sv where sv: "vn_store s a = Some sv" by (auto simp: file_ok_def)
  have z: "s32 (int (sfi_size (sv_i sv))) = int ?z" using assms(3) sv by (simp add: fsize_def inode_def s32_id INT_MAX_def)
  have o: "uio_offset u = int ?o" "int (?o + ?n) \<le> INT_MAX" using uio_room_off [OF assms(5)] by auto
  have e: "s32 (uio_offset u + int ?n) = int (?o + ?n)" using o by (simp add: s32_id)
  have bs: "afile_read ?o ?n (afile_of sec a s) = take (min ?n (?z - ?o)) (drop ?o (fdat sec a s))"
    by (simp add: afile_read_def afile_of_def drop_take)
  show ?thesis
  proof (cases "?z \<le> ?o")
    case True
    then show ?thesis using sv z o(1) assms(4) bs gstep_refl [OF assms(1,2)] by (simp add: sfs_io_def kret_def)
  next
    case False
    define x where "x = (if ?o + ?n > ?z then ?o + ?n - ?z else 0)"
    define u1 where "u1 = u\<lparr>uio_resid := ?n - x\<rparr>"
    have xe: "(if uio_rw u = UIO_READ \<and> s32 (uio_offset u + int ?n) > s32 (int (sfi_size (sv_i sv)))
        then u32 (s32 (uio_offset u + int ?n) - s32 (int (sfi_size (sv_i sv)))) else 0) = x"
    proof -
      have "u32 (int (?o + ?n) - int ?z) = ?o + ?n - ?z" if "?o + ?n > ?z"
        using that o(2) by (subst u32_id) (auto simp: INT_MAX_def)
      then show ?thesis unfolding e z using assms(4) by (auto simp: x_def)
    qed
    have m: "?n - x = min ?n (?z - ?o)" "x = 0 \<or> ?n > x" "x \<le> ?n" using False by (auto simp: x_def)
    have r1: "uio_resid u1 = ?n - x" "off_nat u1 = ?o" "uio_rw u1 = UIO_READ" using assms(4) by (simp_all add: u1_def off_nat_def)
    have rm: "uio_room (uio_resid u1) u1"
      using uio_room_le [OF assms(5), of "?n - x"] by (auto simp: u1_def uio_room_def)
    have "off_nat u1 + uio_resid u1 \<le> 73216" using r1 m(1) assms(3) False by auto
    from io_body_read [OF assms(1,2) r1(3) rm this] obtain s'
      where b: "sfs_io_body a u1 s = Some (Inr (), uio_put (take (?n - x) (drop ?o (fdat sec a s))) u1, s')" "gstep sec a s s'"
      unfolding r1(1,2) by blast
    let ?bs = "take (?n - x) (drop ?o (fdat sec a s))"
    have lb: "length ?bs = ?n - x" using fdat_length [OF assms(1,2)] m(1) assms(3) by simp
    from gstep_ok [OF b(2)] obtain sv' where sv': "vn_store s' a = Some sv'" by (auto simp: file_ok_def)
    have "x < 4294967296" using m(3) o(2) by (auto simp: INT_MAX_def)
    then have bk: "(uio_put ?bs u1)\<lparr>uio_resid := u32 (int (uio_resid (uio_put ?bs u1)) + int x)\<rparr> = uio_put ?bs u"
      using lb m(3) by (simp add: u1_def uio_put_def uio_adv_def u32_id)
    have c: "(uio_rw u = UIO_READ \<and> uio_offset u \<ge> s32 (int (sfi_size (sv_i sv)))) = False" using z o(1) False by simp
    have "sfs_io a u s = do { kassert (x = 0 \<or> ?n > x); (result, u, s) \<leftarrow> sfs_io_body a u1 s; sfs_io_out a x result u s }"
      by (simp only: sfs_io_def sv Option.bind.simps Let_def c if_False xe u1_def)
    also have "\<dots> = Some (Inr (), uio_put ?bs u, s')"
      using m(2) b(1) sv' r1(3) bk by (simp add: sfs_io_out_def)
    finally have "sfs_io a u s = Some (Inr (), uio_put ?bs u, s')" .
    with b(2) bs m(1) show ?thesis by auto
  qed
qed

lemma set_size_step:
  assumes "fs_ok sec s" and "file_ok sec a s" and "vn_store s a = Some sv" and "z < 4294967296"
  shows "fstep sec a s (set_vn a (sv\<lparr>sv_i := (sv_i sv)\<lparr>sfi_size := z\<rparr>, sv_dirty := True\<rparr>) s)"
    "fdat sec a (set_vn a (sv\<lparr>sv_i := (sv_i sv)\<lparr>sfi_size := z\<rparr>, sv_dirty := True\<rparr>) s) = fdat sec a s"
    "fsize a (set_vn a (sv\<lparr>sv_i := (sv_i sv)\<lparr>sfi_size := z\<rparr>, sv_dirty := True\<rparr>) s) = z"
proof -
  let ?s = "set_vn a (sv\<lparr>sv_i := (sv_i sv)\<lparr>sfi_size := z\<rparr>, sv_dirty := True\<rparr>) s" and ?i = "(sv_i sv)\<lparr>sfi_size := z\<rparr>"
  have S: "dsk sec ?s = dsk sec s" "taken ?s = taken s" "nblk ?s = nblk s" "inode a ?s = ?i" "inode a s = sv_i sv"
    using assms(3) by (simp_all add: set_vn_def dsk_def taken_def nblk_def inode_def)
  have P: "ptrs D ?i = ptrs D (sv_i sv)" "fdata D ?i = fdata D (sv_i sv)" for D
    by (simp_all add: ptrs_def blkmap_def idtab_def fdata_def)
  have "fs_ok sec ?s" using assms(1) by (simp add: fs_ok_def set_vn_def nblk_def taken_def)
  moreover have "file_ok sec a ?s"
    using assms(2-4) S P by (auto simp: file_ok_def inode_ok_def blocks_ok_def owned_def) (simp add: set_vn_def)
  ultimately show "fstep sec a s ?s"
    using S P assms(3) by (auto simp: fstep_def owned_def) (simp_all add: set_vn_def meta_def)
  show "fdat sec a ?s = fdat sec a s" "fsize a ?s = z" using S P by (simp_all add: fdat_def fsize_def)
qed

text \<open>The outcome of a write that stored \<open>p\<close> bytes.\<close>

definition io_wrote :: "('d \<Rightarrow> nat \<Rightarrow> byte list) \<Rightarrow> nat \<Rightarrow> uio \<Rightarrow> nat \<Rightarrow> 'd sfs_fs \<Rightarrow> uio \<times> 'd sfs_fs \<Rightarrow> bool" where
  "io_wrote sec a u p s st \<longleftrightarrow> fst st = uio_adv p u \<and> fstep sec a s (snd st) \<and> (p = 0 \<or> off_nat u + p \<le> 73216)
     \<and> afile_of sec a (snd st) = afile_write (off_nat u) (block (uio_mem u) (iov_base u) p) (afile_of sec a s)"

lemma sfs_io_out_write:
  assumes "wrote_bytes sec a u p s (u1, s1)" and "fs_ok sec s" and "file_ok sec a s" and "fsize a s \<le> 73216" and "uio_rw u = UIO_WRITE"
    and "uio_room p u" and "uio_room (uio_resid u) u" and "p \<le> uio_resid u"
  shows "\<exists>s'. sfs_io_out a 0 r u1 s1 = Some (r, u1, s') \<and> io_wrote sec a u p s (u1, s') \<and> full s' = full s1"
proof -
  note W = wrote_ok [OF assms(1,6) order_refl]
  have w: "fstep sec a s s1" "fdat sec a s1 = splice_at (fdat sec a s) (off_nat u) (block (uio_mem u) (iov_base u) p)" "fsize a s1 = fsize a s"
      "p = 0 \<or> off_nat u + p \<le> 73216"
    using assms(1) by (auto simp: wrote_bytes_def wstep_def)
  from W(2) obtain sv where sv: "vn_store s1 a = Some sv" by (auto simp: file_ok_def)
  have z: "s32 (int (sfi_size (sv_i sv))) = int (fsize a s)"
    using assms(4) sv w(3) by (simp add: fsize_def inode_def s32_id INT_MAX_def)
  have o: "uio_offset u1 = int (off_nat u + p)" "int (off_nat u + p) \<le> INT_MAX"
    using W(3) uio_room_off [OF assms(6)] by simp_all
  have ub: "u32 (uio_offset u1) = off_nat u + p" "off_nat u + p < 4294967296"
    using o by (auto simp: u32_id INT_MAX_def)
  have resid: "u1\<lparr>uio_resid := u32 (int (uio_resid u1) + int 0)\<rparr> = u1"
  proof -
    have "u32 (int (uio_resid u - p)) = uio_resid u - p" using assms(7) by (subst u32_id) (auto simp: uio_room_def)
    then show ?thesis using W(3) by (simp add: uio_adv_def)
  qed
  note st = set_size_step [OF W(1,2) sv ub(2)]
  show ?thesis
  proof (cases "fsize a s < off_nat u + p")
    case True
    let ?s = "set_vn a (sv\<lparr>sv_i := (sv_i sv)\<lparr>sfi_size := off_nat u + p\<rparr>, sv_dirty := True\<rparr>) s1"
    have "sfs_io_out a 0 r u1 s1 = Some (r, u1, ?s)"
      using sv z o(1) ub(1) True assms(5) W(5) resid by (simp add: sfs_io_out_def)
    moreover have "full ?s = full s1" by (simp add: full_def nblk_def taken_def set_vn_def)
    moreover have "io_wrote sec a u p s (u1, ?s)"
      using W(3) st w True fstep_trans [OF w(1) st(1)] by (simp add: io_wrote_def afile_of_def afile_write_def)
    ultimately show ?thesis by blast
  next
    case False
    then have "sfs_io_out a 0 r u1 s1 = Some (r, u1, s1)"
      using sv z o(1) resid by (simp add: sfs_io_out_def)
    moreover have "io_wrote sec a u p s (u1, s1)"
      using W(3) w False by (simp add: io_wrote_def afile_of_def afile_write_def)
    ultimately show ?thesis by blast
  qed
qed

lemma sfs_io_write:
  assumes "fs_ok sec s" and "file_ok sec a s" and "fsize a s \<le> 73216" and "uio_rw u = UIO_WRITE" and "uio_room (uio_resid u) u"
  shows "returns (sfs_io a u s) (\<lambda>_. io_wrote sec a u (uio_resid u) s)
    (\<lambda>e st. stopped u e (snd st) \<and> (\<exists>p \<le> uio_resid u. io_wrote sec a u p s st))"
proof -
  from assms(2) obtain sv where sv: "vn_store s a = Some sv" by (auto simp: file_ok_def)
  have e: "sfs_io a u s = do { (result, u, s) \<leftarrow> sfs_io_body a u s; sfs_io_out a 0 result u s }"
    using sv assms(4) by (simp add: sfs_io_def)
  from io_body_write [OF assms(1,2,4,5)] show ?thesis
  proof (unfold returns_def, elim disjE exE conjE)
    fix x st assume b: "sfs_io_body a u s = Some (Inr x, st)" and w: "wrote_bytes sec a u (uio_resid u) s st"
    obtain u1 s1 where st: "st = (u1, s1)" by (cases st)
    from sfs_io_out_write [OF w [unfolded st] assms(1-5,5) order_refl, of "Inr x"] b e st
    show "(\<exists>x st. sfs_io a u s = Some (Inr x, st) \<and> io_wrote sec a u (uio_resid u) s st) \<or>
      (\<exists>e st. sfs_io a u s = Some (Inl e, st) \<and> stopped u e (snd st) \<and> (\<exists>p \<le> uio_resid u. io_wrote sec a u p s st))" by auto
  next
    fix er st assume b: "sfs_io_body a u s = Some (Inl er, st)" and w: "wrote_part sec a u (uio_resid u) s er st"
    obtain u1 s1 where st: "st = (u1, s1)" by (cases st)
    from w obtain p where p: "p \<le> uio_resid u" "wrote_bytes sec a u p s (u1, s1)" "stopped u er s1"
      by (auto simp: wrote_part_def st)
    from sfs_io_out_write [OF p(2) assms(1-4) uio_room_le [OF assms(5) p(1)] assms(5) p(1), of "Inl er"] b e st p
    have "\<exists>s'. sfs_io a u s = Some (Inl er, u1, s') \<and> io_wrote sec a u p s (u1, s') \<and> stopped u er s'" by (auto simp: stopped_def)
    with p(1) show "(\<exists>x st. sfs_io a u s = Some (Inr x, st) \<and> io_wrote sec a u (uio_resid u) s st) \<or>
      (\<exists>e st. sfs_io a u s = Some (Inl e, st) \<and> stopped u e (snd st) \<and> (\<exists>p \<le> uio_resid u. io_wrote sec a u p s st))" by auto
  qed
qed

text \<open>A file owns at most 144 blocks, so a volume with more free ones than that cannot become full.\<close>

lemma fstep_not_full:
  assumes "fstep sec a s s'" and "card (taken s \<inter> {0..<nblk s}) + 144 < nblk s"
  shows "\<not> full s'"
proof
  assume f: "full s'"
  let ?o = "owned (dsk sec s') (inode a s')"
  have "length (sfi_direct (inode a s')) = 15" using fstepD(2) [OF assms(1)] by (simp add: file_ok_def inode_ok_def)
  then have "card (set (ptrs (dsk sec s') (inode a s'))) \<le> 144" using card_length [of "ptrs (dsk sec s') (inode a s')"] by (simp add: length_ptrs)
  then have c: "card ?o \<le> 144" "finite ?o" unfolding owned_def by (auto intro: order_trans [OF card_Diff1_le])
  have "taken s' - taken s \<subseteq> ?o" using assms(1) unfolding fstep_def by blast
  then have "{0..<nblk s} \<subseteq> (taken s \<inter> {0..<nblk s}) \<union> ?o" using f fstepD(3) [OF assms(1)] unfolding full_def by auto
  from card_mono [OF _ this] c(2) have "nblk s \<le> card ((taken s \<inter> {0..<nblk s}) \<union> ?o)" by simp
  also have "\<dots> \<le> card (taken s \<inter> {0..<nblk s}) + 144" using card_Un_le [of "taken s \<inter> {0..<nblk s}" ?o] c(1) by linarith
  finally show False using assms(2) by simp
qed

lemma sfs_io_write_room:
  assumes "fs_ok sec s" and "file_ok sec a s" and "fsize a s \<le> 73216" and "uio_rw u = UIO_WRITE" and "uio_room (uio_resid u) u"
    and "off_nat u + uio_resid u \<le> 73216" and "card (taken s \<inter> {0..<nblk s}) + 144 < nblk s"
  shows "\<exists>st. sfs_io a u s = Some (Inr (), st) \<and> io_wrote sec a u (uio_resid u) s st"
proof -
  have "\<not> stopped u e (snd st)" if "io_wrote sec a u p s st" for e p st
    using that fstep_not_full [of sec a s "snd st"] assms(6,7) by (auto simp: io_wrote_def stopped_def)
  then show ?thesis using sfs_io_write [OF assms(1-5)] unfolding returns_def by (metis old.unit.exhaust)
qed

text \<open>Another file, with blocks of its own, does not change.\<close>

lemma other_file:
  assumes "fstep sec a s s'" and "file_ok sec b s" and "b \<noteq> a"
    and "owned (dsk sec s) (inode b s) \<inter> owned (dsk sec s) (inode a s) = {}"
  shows "file_ok sec b s'" "afile_of sec b s' = afile_of sec b s"
    "owned (dsk sec s') (inode b s') \<inter> owned (dsk sec s') (inode a s') = {}"
proof -
  let ?D = "dsk sec s" and ?D' = "dsk sec s'" and ?i = "inode b s"
  have i: "vn_store s' b = vn_store s b" "inode b s' = ?i" using assms(1,3) by (auto simp: fstep_def inode_def)
  have bo: "blocks_ok ?D (taken s) (nblk s) ?i" "length (sfi_direct ?i) = 15" "inode_ok ?i"
    using assms(2) by (simp_all add: file_ok_def inode_ok_def)
  have same: "?D' t = ?D t" if "t \<in> owned ?D ?i" for t
  proof -
    have "t \<in> taken s - owned ?D (inode a s)" using that owned_in [OF bo(1) that] assms(4) by blast
    then show ?thesis using assms(1) unfolding fstep_def by blast
  qed
  have "idtab ?D' ?i = idtab ?D ?i" using indirect_in [OF bo(1)] same [of "sfi_indirect ?i"] by (auto simp: idtab_def)
  then have bm: "blkmap ?D' ?i = blkmap ?D ?i" "ptrs ?D' ?i = ptrs ?D ?i" by (simp_all add: blkmap_def ptrs_def)
  have tk: "taken s \<subseteq> taken s'" "nblk s' = nblk s" using fstepD [OF assms(1)] by auto
  show "file_ok sec b s'"
    using assms(2) i bm tk unfolding file_ok_def blocks_ok_def owned_def by auto
  have "fdata ?D' ?i = fdata ?D ?i"
  proof (rule fdata_eqI)
    fix k assume "k < length (blkmap ?D ?i)"
    then have "k < 143" using bo(2) by (simp add: length_blkmap)
    then show "blk ?D' (blkmap ?D' ?i ! k) = blk ?D (blkmap ?D ?i ! k)"
      using blkmap_owned [OF bo(1)] same by (auto simp: bm blk_def)
  qed (simp add: bm)
  then show "afile_of sec b s' = afile_of sec b s" using i by (simp add: afile_of_def fdat_def fsize_def)
  have o: "owned ?D' (inode b s') = owned ?D ?i" using i bm by (simp add: owned_def)
  have "owned ?D ?i \<subseteq> taken s" using owned_in [OF bo(1)] by blast
  moreover have "owned ?D' (inode a s') \<subseteq> owned ?D (inode a s) \<union> (taken s' - taken s)" using assms(1) unfolding fstep_def by blast
  ultimately show "owned ?D' (inode b s') \<inter> owned ?D' (inode a s') = {}" unfolding o using assms(4) by blast
qed

section \<open>A small volume\<close>

definition demo_inode :: sfs_inode where
  "demo_inode = \<lparr>sfi_size = 0, sfi_type = 1, sfi_linkcount = 1, sfi_direct = replicate 15 0, sfi_indirect = 0, sfi_waste = replicate 110 0\<rparr>"

definition demo_vnode :: sfs_vnode where
  "demo_vnode = \<lparr>vn_refcount = 1, vn_opencount = 1, vn_countlock = True, vn_ops = Ptr sfs_fileops, sv_i = demo_inode, sv_ino = 3, sv_dirty = False\<rparr>"

definition demo_fs :: "(nat \<Rightarrow> byte list) sfs_fs" where
  "demo_fs = \<lparr>sfs_device = ram_lhd 160 (\<lambda>s. []),
     sfs_super = \<lparr>sp_magic = SFS_MAGIC, sp_nblocks = 160, sp_volname = replicate 32 0, sp_reserved = replicate 118 0\<rparr>, sfs_superdirty = False,
     sfs_vnodes = \<lparr>a_num = 1, a_max = 1, a_v = Ptr [Some 100]\<rparr>, sfs_freemap = \<lparr>b_nbits = 160, b_v = 15 # replicate 19 0\<rparr>, sfs_freemapdirty = False,
     vn_store = [100 \<mapsto> demo_vnode]\<rparr>"

lemma demo_fs_ok: "fs_ok ram_sectors demo_fs"
proof -
  have "bitmap_inv \<lparr>b_nbits = 160, b_v = 15 # replicate 19 0\<rparr>" by (auto simp: bitmap_inv_def)
  moreover have "{0, 1} \<subseteq> used \<lparr>b_nbits = 160, b_v = 15 # replicate 19 0\<rparr>" by (auto simp: used_def bit_simps)
  ultimately show ?thesis
    using ram_lhd_idle [of 160 "\<lambda>s. []"] ram_lhd_reliable [of 160 160 "\<lambda>s. []"]
    by (simp add: fs_ok_def demo_fs_def nblk_def taken_def) (auto simp: ram_lhd_def)
qed

lemma demo_space: "card (taken demo_fs \<inter> {0..<nblk demo_fs}) + 144 < nblk demo_fs"
proof -
  have "x < 8" if "x \<in> taken demo_fs" for x
  proof (rule ccontr)
    assume "\<not> x < 8"
    then have "0 < x div 8" by (simp add: div_greater_zero_iff)
    then show False using that by (auto simp: taken_def demo_fs_def used_def nth_Cons')
  qed
  then have "card (taken demo_fs \<inter> {0..<nblk demo_fs}) \<le> card {0..<8::nat}" by (intro card_mono) auto
  then show ?thesis by (simp add: nblk_def demo_fs_def)
qed

lemma demo_file_ok: "file_ok ram_sectors 100 demo_fs" "fsize 100 demo_fs = 0"
proof -
  have i: "inode 100 demo_fs = demo_inode" by (simp add: inode_def demo_fs_def demo_vnode_def)
  have "ptrs D demo_inode = replicate 144 0" for D
    by (simp add: ptrs_def blkmap_def idtab_def demo_inode_def flip: replicate_add replicate_Suc)
  then have "blocks_ok D T n demo_inode" for D T n
    by (auto simp: blocks_ok_def owned_def) (simp add: demo_inode_def)
  then show "file_ok ram_sectors 100 demo_fs"
    unfolding file_ok_def i by (auto simp: demo_fs_def demo_inode_def inode_ok_def list_all_iff)
  show "fsize 100 demo_fs = 0" by (simp add: fsize_def i demo_inode_def)
qed

definition demo_uio :: "byte list \<Rightarrow> nat \<Rightarrow> uio_rw \<Rightarrow> uio" where
  "demo_uio bs off rw = mk_kuio (kmem bs) KBUF (length bs) (int off) rw"

lemma demo_uio_room:
  assumes "length bs < 4096" and "off < 1000000"
  shows "uio_room (uio_resid (demo_uio bs off rw)) (demo_uio bs off rw)" "uio_resid (demo_uio bs off rw) = length bs"
    "uio_rw (demo_uio bs off rw) = rw" "off_nat (demo_uio bs off rw) = off"
    "block (uio_mem (demo_uio bs off rw)) (iov_base (demo_uio bs off rw)) (length bs) = bs"
  using kuio_room [of bs "length bs" "int off" rw] assms
  by (simp_all add: demo_uio_def mk_kuio_def off_nat_def INT_MAX_def kmem_def block_put)

section \<open>Properties\<close>

text \<open>C1. A write to an SFS file refines a write to an array of bytes. On a disk without media errors and a
  well-formed file \<open>sfs_write\<close> always returns. It stores a prefix of the bytes it was given at the
  offset it was given, all of them when it returns 0; it advances the uio by as much, extends the
  size to the end of what it wrote, leaves the volume and the file well-formed, and changes no other
  file whose blocks are its own. It fails with \<open>ENOSPC\<close> only when the volume has no free block left, and with
  \<open>EINVAL\<close> only when the end of the write lies past the greatest file size.\<close>

theorem sfs_write_refines:
  assumes "fs_ok sec s" and "file_ok sec a s" and "fsize a s \<le> 73216" and "uio_rw u = UIO_WRITE" and "uio_room (uio_resid u) u"
  shows "\<exists>r u' s' p. sfs_write a u s = Some (r, u', s') \<and> p \<le> uio_resid u
    \<and> (r = Inr () \<and> p = uio_resid u \<or> r = Inl ENOSPC \<and> {0..<nblk s} \<subseteq> taken s' \<or> r = Inl EINVAL \<and> 73216 < off_nat u + uio_resid u)
    \<and> afile_of sec a s' = afile_write (off_nat u) (block (uio_mem u) (iov_base u) p) (afile_of sec a s)
    \<and> uio_resid u' = uio_resid u - p \<and> uio_offset u' = uio_offset u + int p \<and> fs_ok sec s' \<and> file_ok sec a s'
    \<and> (\<forall>b. b \<noteq> a \<longrightarrow> file_ok sec b s \<longrightarrow> owned (dsk sec s) (inode b s) \<inter> owned (dsk sec s) (inode a s) = {}
         \<longrightarrow> file_ok sec b s' \<and> afile_of sec b s' = afile_of sec b s)"
proof -
  from sfs_io_write [OF assms] obtain r st p where w: "sfs_io a u s = Some (r, st)" "p \<le> uio_resid u" "io_wrote sec a u p s st"
      "r = Inr () \<and> p = uio_resid u \<or> (\<exists>e. r = Inl e \<and> stopped u e (snd st))"
    unfolding returns_def by (metis old.unit.exhaust order_refl)
  obtain u' s' where st: "st = (u', s')" by (cases st)
  have f: "fstep sec a s s'" "u' = uio_adv p u"
      "afile_of sec a s' = afile_write (off_nat u) (block (uio_mem u) (iov_base u) p) (afile_of sec a s)"
    using w(3) by (simp_all add: io_wrote_def st)
  have "sfs_write a u s = Some (r, u', s')" using w(1) assms(4) by (simp add: sfs_write_def st)
  with w(2,4) f fstepD(1-3) [OF f(1)] other_file(1,2) [OF f(1)] show ?thesis
    by (intro exI [of _ r] exI [of _ u'] exI [of _ s'] exI [of _ p]) (auto simp: st stopped_def full_def)
qed

theorem sfs_write_refines_witness:
  "\<exists>r u' s' p. sfs_write 100 (demo_uio [104, 105] 600 UIO_WRITE) demo_fs = Some (r, u', s') \<and> p \<le> 2
     \<and> afile_of ram_sectors 100 s' = afile_write 600 (block (kmem [104, 105]) KBUF p) (afile_of ram_sectors 100 demo_fs)"
proof -
  let ?u = "demo_uio [104, 105] 600 UIO_WRITE"
  have m: "uio_mem ?u = kmem [104, 105]" "iov_base ?u = KBUF" by (simp_all add: demo_uio_def mk_kuio_def)
  note r = demo_uio_room [of "[104, 105]" 600 UIO_WRITE, simplified]
  have z: "fsize 100 demo_fs \<le> 73216" using demo_file_ok(2) by simp
  show ?thesis using sfs_write_refines [OF demo_fs_ok demo_file_ok(1) z r(3,1)] unfolding r(2,4) m by (metis numeral_2_eq_2)
qed

text \<open>C2. A read of an SFS file delivers the bytes of the file from the offset up to the end of the file or
  the length asked for, whichever comes first, with zeros for the blocks that were never written; it
  returns 0, the residual count is what was not delivered, and it changes no file.\<close>

theorem sfs_read_refines:
  assumes "fs_ok sec s" and "file_ok sec a s" and "fsize a s \<le> 73216" and "uio_rw u = UIO_READ" and "uio_room (uio_resid u) u"
    and "bs = take (uio_resid u) (drop (off_nat u) (take (fsize a s) (fdat sec a s)))"
  shows "\<exists>u' s'. sfs_read a u s = Some (Inr (), u', s') \<and> uio_mem u' = put (uio_mem u) (iov_base u) bs
    \<and> uio_resid u' = uio_resid u - length bs \<and> uio_offset u' = uio_offset u + int (length bs)
    \<and> fs_ok sec s' \<and> file_ok sec a s' \<and> afile_of sec a s' = afile_of sec a s
    \<and> (\<forall>b. b \<noteq> a \<longrightarrow> file_ok sec b s \<longrightarrow> owned (dsk sec s) (inode b s) \<inter> owned (dsk sec s) (inode a s) = {}
         \<longrightarrow> afile_of sec b s' = afile_of sec b s)"
proof -
  from sfs_io_read [OF assms(1-5)] obtain s' where r: "sfs_io a u s = Some (Inr (), uio_put bs u, s')" "gstep sec a s s'"
    by (auto simp: assms(6) afile_read_def afile_of_def)
  have g: "fstep sec a s s'" "afile_of sec a s' = afile_of sec a s" using r(2) by (simp_all add: gstep_def afile_of_def)
  with r(1) assms(4) fstepD(1,2) [OF g(1)] other_file(2) [OF g(1)] show ?thesis
    by (intro exI [of _ "uio_put bs u"] exI [of _ s']) (auto simp: sfs_read_def)
qed

theorem sfs_read_refines_witness:
  "\<exists>u' s'. sfs_read 100 (demo_uio [1, 2] 0 UIO_READ) demo_fs = Some (Inr (), u', s') \<and> uio_resid u' = 2"
  using sfs_read_refines [OF demo_fs_ok demo_file_ok(1), of "demo_uio [1, 2] 0 UIO_READ" "[]"]
    demo_uio_room [of "[1, 2]" 0 UIO_READ] demo_file_ok(2) by auto

text \<open>C4. A write succeeds whenever there is room for it: when it ends below the greatest file size and the
  volume has more than 144 free blocks, which is the most a file can own, \<open>sfs_write\<close> returns 0 and
  leaves nothing of the uio.\<close>

theorem sfs_write_succeeds:
  assumes "fs_ok sec s" and "file_ok sec a s" and "fsize a s \<le> 73216" and "uio_rw u = UIO_WRITE" and "uio_room (uio_resid u) u"
    and "off_nat u + uio_resid u \<le> 73216" and "card (taken s \<inter> {0..<nblk s}) + 144 < nblk s"
  shows "\<exists>u' s'. sfs_write a u s = Some (Inr (), u', s') \<and> uio_resid u' = 0"
proof -
  from sfs_io_write_room [OF assms] obtain st where w: "sfs_io a u s = Some (Inr (), st)" "io_wrote sec a u (uio_resid u) s st" by blast
  then have "uio_resid (fst st) = 0" by (simp add: io_wrote_def)
  with w(1) assms(4) show ?thesis by (cases st) (simp add: sfs_write_def)
qed

theorem sfs_write_succeeds_witness:
  "\<exists>u' s'. sfs_write 100 (demo_uio [104, 105] 600 UIO_WRITE) demo_fs = Some (Inr (), u', s') \<and> uio_resid u' = 0"
proof -
  note r = demo_uio_room [of "[104, 105]" 600 UIO_WRITE, simplified]
  have z: "fsize 100 demo_fs \<le> 73216" "600 + Suc (Suc 0) \<le> 73216" using demo_file_ok(2) by simp_all
  show ?thesis using sfs_write_succeeds [OF demo_fs_ok demo_file_ok(1) z(1) r(3,1)] z(2) demo_space unfolding r(2,4) by blast
qed

text \<open>C3. What a successful write stored is what a read of the same position and length delivers, whatever
  blocks and partial blocks the two cross, and with no bytes missing.\<close>

theorem sfs_write_then_read:
  assumes "fs_ok sec s" and "file_ok sec a s" and "fsize a s \<le> 73216"
    and "uio_rw uw = UIO_WRITE" and "uio_room n uw" and "uio_resid uw = n" and "0 < n"
    and "sfs_write a uw s = Some (Inr (), uw', s1)"
    and "uio_rw ur = UIO_READ" and "uio_room n ur" and "uio_resid ur = n" and "uio_offset ur = uio_offset uw"
  shows "\<exists>ur' s2. sfs_read a ur s1 = Some (Inr (), ur', s2) \<and> uio_resid ur' = 0
    \<and> block (uio_mem ur') (iov_base ur) n = block (uio_mem uw) (iov_base uw) n"
proof -
  let ?bs = "block (uio_mem uw) (iov_base uw) n" and ?o = "off_nat uw"
  have rw: "uio_room (uio_resid uw) uw" "uio_room (uio_resid ur) ur" using assms(5,6,10,11) by simp_all
  have "sfs_io a uw s = Some (Inr (), uw', s1)" using assms(4,8) by (simp add: sfs_write_def)
  with sfs_io_write [OF assms(1-4) rw(1)] have w: "io_wrote sec a uw n s (uw', s1)"
    by (auto simp: returns_def assms(6))
  have f: "fs_ok sec s1" "file_ok sec a s1" using w by (auto simp: io_wrote_def dest: fstepD)
  have b: "?o + n \<le> 73216" using w assms(7) by (simp add: io_wrote_def)
  have af: "afile_of sec a s1 = afile_write ?o ?bs (afile_of sec a s)" using w by (simp add: io_wrote_def)
  have z: "fsize a s1 \<le> 73216" "?o + n \<le> fsize a s1" using af b assms(3) by (auto simp: afile_of_def afile_write_def)
  have o: "off_nat ur = ?o" using assms(12) by (simp add: off_nat_def)
  have l: "length (fdat sec a s) = 73216" by (rule fdat_length [OF assms(1,2)])
  have "drop ?o (splice_at (fdat sec a s) ?o ?bs) = ?bs @ drop (?o + n) (fdat sec a s)" using l b by (simp add: splice_at_def)
  then have "take n (drop ?o (fdat sec a s1)) = ?bs" using af by (simp add: afile_of_def afile_write_def)
  then have rd: "afile_read (off_nat ur) (uio_resid ur) (afile_of sec a s1) = ?bs"
  proof -
    have "min n (fsize a s1 - ?o) = n" using z(2) by linarith
    with \<open>take n (drop ?o (fdat sec a s1)) = ?bs\<close> show ?thesis by (simp add: afile_read_def afile_of_def o assms(11) drop_take)
  qed
  from sfs_io_read [OF f z(1) assms(9) rw(2)] obtain s2 where r: "sfs_io a ur s1 = Some (Inr (), uio_put ?bs ur, s2)"
    unfolding rd by blast
  then show ?thesis using assms(9,11) by (simp add: sfs_read_def block_put)
qed

theorem sfs_write_then_read_witness:
  "\<exists>uw' s1 ur' s2. sfs_write 100 (demo_uio [104, 105] 600 UIO_WRITE) demo_fs = Some (Inr (), uw', s1)
     \<and> sfs_read 100 (demo_uio [0, 0] 600 UIO_READ) s1 = Some (Inr (), ur', s2) \<and> block (uio_mem ur') KBUF 2 = [104, 105]"
proof -
  let ?w = "demo_uio [104, 105] 600 UIO_WRITE" and ?r = "demo_uio [0, 0] 600 UIO_READ"
  note w = demo_uio_room [of "[104, 105]" 600 UIO_WRITE, simplified] and r = demo_uio_room [of "[0, 0]" 600 UIO_READ, simplified]
  have z: "fsize 100 demo_fs \<le> 73216" "600 + Suc (Suc 0) \<le> 73216" using demo_file_ok(2) by simp_all
  from sfs_io_write_room [OF demo_fs_ok demo_file_ok(1) z(1) w(3,1)] z(2) demo_space
  obtain st where "sfs_io 100 ?w demo_fs = Some (Inr (), st)" unfolding w(2,4) by blast
  then have s: "sfs_write 100 ?w demo_fs = Some (Inr (), fst st, snd st)" using w(3) by (simp add: sfs_write_def)
  have o: "uio_offset ?r = uio_offset ?w" "iov_base ?r = KBUF" by (simp_all add: demo_uio_def mk_kuio_def)
  from sfs_write_then_read [OF demo_fs_ok demo_file_ok(1) z(1) w(3) w(1) [unfolded w(2)] w(2) _ s r(3) r(1) [unfolded r(2)] r(2) o(1)]
  obtain ur' s2 where "sfs_read 100 ?r (snd st) = Some (Inr (), ur', s2)" "block (uio_mem ur') KBUF 2 = [104, 105]"
    unfolding w(5) o(2) by (auto simp: numeral_2_eq_2)
  with s show ?thesis by blast
qed

text \<open>C35. A write that begins at or past the greatest file size fails and stores nothing, and yet the file's
  size becomes the offset of the write: \<open>sfs_io\<close> updates \<open>sfi_size\<close> on its way out of the error too.\<close>

theorem sfs_failed_write_grows:
  assumes "fs_ok sec s" and "file_ok sec a s" and "fsize a s \<le> 73216" and "uio_rw u = UIO_WRITE" and "uio_room (uio_resid u) u"
    and "0 < uio_resid u" and "73216 \<le> off_nat u"
  shows "\<exists>e u' s'. sfs_write a u s = Some (Inl e, u', s') \<and> uio_resid u' = uio_resid u
    \<and> fdat sec a s' = fdat sec a s \<and> fsize a s' = off_nat u"
proof -
  from sfs_io_write [OF assms(1-5)] obtain r st p where w: "sfs_io a u s = Some (r, st)" "io_wrote sec a u p s st"
      "r = Inr () \<and> p = uio_resid u \<or> (\<exists>e. r = Inl e)"
    unfolding returns_def by (metis old.unit.exhaust)
  have "p = 0" using w(2) assms(7) by (auto simp: io_wrote_def)
  then have "\<exists>e. r = Inl e" using w(3) assms(6) by auto
  moreover have "fst st = u" "fdat sec a (snd st) = fdat sec a s" "fsize a (snd st) = off_nat u"
    using w(2) \<open>p = 0\<close> assms(3,7) by (auto simp: io_wrote_def afile_of_def afile_write_def block_def splice_Nil)
  ultimately show ?thesis using w(1) assms(4) by (cases st) (auto simp: sfs_write_def)
qed

theorem sfs_failed_write_grows_witness:
  "\<exists>e u' s'. sfs_write 100 (demo_uio [104, 105] 73216 UIO_WRITE) demo_fs = Some (Inl e, u', s')
     \<and> fsize 100 demo_fs = 0 \<and> fsize 100 s' = 73216"
proof -
  note r = demo_uio_room [of "[104, 105]" 73216 UIO_WRITE, simplified]
  have z: "fsize 100 demo_fs \<le> 73216" using demo_file_ok(2) by simp
  show ?thesis using sfs_failed_write_grows [OF demo_fs_ok demo_file_ok(1) z r(3,1)] demo_file_ok(2) unfolding r(2,4) by auto
qed

end
