(* ===== verification/Kram.thy ===== *)
theory Kram
  imports Kwords
begin

text \<open>
  Physical memory and kernel pages: \<open>kern/arch/mips/mips/ram.c\<close> and the page half of
  \<open>kern/arch/mips/mips/dumbvm.c\<close>. The machine has an interrupt level, the bounds of the memory that is
  still free, and the bytes of the memory at their kernel addresses. The size of the memory, which
  \<open>mips_ramsize\<close> asks the hardware for, and \<open>firstfree\<close>, which the start-up code sets, are arguments of
  \<open>ram_bootstrap\<close>. What the routines print is not part of the state.
\<close>

definition PAGE_SIZE :: nat where "PAGE_SIZE = 4096"
definition MIPS_KSEG0 :: nat where "MIPS_KSEG0 = 2147483648"

lemmas page_consts = PAGE_SIZE_def MIPS_KSEG0_def

definition PADDR_TO_KVADDR :: "nat \<Rightarrow> nat" where
  "PADDR_TO_KVADDR paddr = u32 (int paddr + int MIPS_KSEG0)"

record machine =
  m_spl :: int
  firstpaddr :: nat
  lastpaddr :: nat
  core :: mem

text \<open>\<open>splhigh\<close> and \<open>splx\<close> on this state; the former gives the old level.\<close>

definition spl_high :: "'a machine_scheme \<Rightarrow> int \<times> 'a machine_scheme" where
  "spl_high s = (m_spl s, s\<lparr>m_spl := 15\<rparr>)"

definition spl_x :: "int \<Rightarrow> 'a machine_scheme \<Rightarrow> 'a machine_scheme" where
  "spl_x spl s = s\<lparr>m_spl := spl\<rparr>"

definition ram_bootstrap :: "nat \<Rightarrow> nat \<Rightarrow> 'a machine_scheme \<Rightarrow> 'a machine_scheme" where
  "ram_bootstrap ramsize firstfree s =
     s\<lparr>lastpaddr := (if ramsize > 508 * 1024 * 1024 then 508 * 1024 * 1024 else ramsize),
       firstpaddr := u32 (int firstfree - int MIPS_KSEG0)\<rparr>"

definition ram_stealmem :: "nat \<Rightarrow> 'a machine_scheme \<Rightarrow> nat \<times> 'a machine_scheme" where
  "ram_stealmem npages s =
     (let size = u32 (int npages * int PAGE_SIZE)
      in if u32 (int (firstpaddr s) + int size) > lastpaddr s then (0, s)
         else (firstpaddr s, s\<lparr>firstpaddr := u32 (int (firstpaddr s) + int size)\<rparr>))"

definition ram_getsize :: "'a machine_scheme \<Rightarrow> (nat \<times> nat) \<times> 'a machine_scheme" where
  "ram_getsize s = ((firstpaddr s, lastpaddr s), s\<lparr>firstpaddr := 0, lastpaddr := 0\<rparr>)"

definition getppages :: "nat \<Rightarrow> 'a machine_scheme \<Rightarrow> nat \<times> 'a machine_scheme" where
  "getppages npages s =
     (let (spl, s) = spl_high s; (addr, s) = ram_stealmem npages s in (addr, spl_x spl s))"

definition alloc_kpages :: "int \<Rightarrow> 'a machine_scheme \<Rightarrow> nat \<times> 'a machine_scheme" where
  "alloc_kpages npages s =
     (let (pa, s) = getppages (u32 npages) s in if pa = 0 then (0, s) else (PADDR_TO_KVADDR pa, s))"

definition free_kpages :: "nat \<Rightarrow> 'a machine_scheme \<Rightarrow> 'a machine_scheme" where
  "free_kpages addr s = s"

section \<open>The memory that is left\<close>

text \<open>The memory from \<open>firstpaddr\<close> on is free, in whole pages, and all of it is there.\<close>

definition ram_ok :: "'a machine_scheme \<Rightarrow> bool" where
  "ram_ok s \<longleftrightarrow> 4096 \<le> firstpaddr s \<and> firstpaddr s \<le> lastpaddr s \<and> firstpaddr s mod 4096 = 0 \<and> lastpaddr s \<le> 508 * 1024 * 1024
     \<and> mapped (core s) MIPS_KSEG0 (lastpaddr s)"

lemma alloc_kpages_cases:
  assumes "ram_ok s" and "0 \<le> n" and "n \<le> 524288"
  obtains (none) "alloc_kpages n s = (0, s)" "lastpaddr s < firstpaddr s + 4096 * nat n"
    | (some) "alloc_kpages n s = (MIPS_KSEG0 + firstpaddr s, s\<lparr>firstpaddr := firstpaddr s + 4096 * nat n\<rparr>)"
        "firstpaddr s + 4096 * nat n \<le> lastpaddr s" "ram_ok (s\<lparr>firstpaddr := firstpaddr s + 4096 * nat n\<rparr>)"
proof -
  have r: "4096 \<le> firstpaddr s" "firstpaddr s \<le> 532676608" "lastpaddr s \<le> 532676608" "firstpaddr s mod 4096 = 0"
    using assms(1) by (auto simp: ram_ok_def)
  have u: "u32 n = nat n" using assms(2,3) by (simp add: u32_id)
  have sz: "u32 (int (nat n) * int PAGE_SIZE) = 4096 * nat n" using assms(2,3) by (simp add: u32_id page_consts nat_mult_distrib)
  have f: "u32 (int (firstpaddr s) + int (4096 * nat n)) = firstpaddr s + 4096 * nat n"
    using r assms(2,3) by (subst u32_id) (auto simp: nat_add_distrib nat_mult_distrib)
  have k: "PADDR_TO_KVADDR (firstpaddr s) = MIPS_KSEG0 + firstpaddr s"
    using r by (simp add: PADDR_TO_KVADDR_def page_consts u32_id nat_add_distrib)
  show thesis
  proof (cases "firstpaddr s + 4096 * nat n > lastpaddr s")
    case True
    then show thesis using none u sz f by (simp add: alloc_kpages_def getppages_def ram_stealmem_def spl_high_def spl_x_def Let_def)
  next
    case False
    have "(firstpaddr s + 4096 * nat n) mod 4096 = 0" using r(4) by simp
    then have "ram_ok (s\<lparr>firstpaddr := firstpaddr s + 4096 * nat n\<rparr>)" using assms(1) False by (auto simp: ram_ok_def)
    with False show thesis
      using some r(1) u sz f k by (simp add: alloc_kpages_def getppages_def ram_stealmem_def spl_high_def spl_x_def Let_def)
  qed
qed

end
