(* ===== verification/Kheap.thy ===== *)
theory Kheap
  imports Kram
begin

unbundle bit_operations_syntax

text \<open>
  The kernel heap, \<open>kern/lib/kheap.c\<close>: a pool allocator over pages of \<open>dumbvm.c\<close>. A page holds blocks
  of one size; its free blocks are chained through their first words, in the memory itself, and a
  \<open>pageref\<close> records the page, the block type, the head of the chain and the number of free blocks.
  A pointer to a \<open>pageref\<close> is its index in the static table \<open>pagerefs\<close>. The consistency checks under
  \<open>SLOW\<close> and \<open>SLOWER\<close>, which the file undefines, and the dump for the menu are not modelled.
\<close>

definition sizes :: "nat list" where
  "sizes = [16, 32, 64, 128, 256, 512, 1024, 2048]"

definition LARGEST_SUBPAGE_SIZE :: nat where "LARGEST_SUBPAGE_SIZE = 2048"
definition INVALID_OFFSET :: nat where "INVALID_OFFSET = 65535"
definition NPAGEREFS :: nat where "NPAGEREFS = 256"

definition u16 :: "int \<Rightarrow> nat" where
  "u16 x = nat (x mod 65536)"

record pageref =
  next_samesize :: "nat nullable"
  next_all :: "nat nullable"
  pageaddr_and_blocktype :: nat
  freelist_offset :: nat
  nfree :: nat

record kheap = machine +
  pagerefs :: "pageref list"
  pagerefs_inuse :: "32 word list"
  sizebases :: "nat nullable list"
  allbase :: "nat nullable"

definition PR_PAGEADDR :: "pageref \<Rightarrow> nat" where
  "PR_PAGEADDR pr = pageaddr_and_blocktype pr - pageaddr_and_blocktype pr mod PAGE_SIZE"

definition PR_BLOCKTYPE :: "pageref \<Rightarrow> nat" where
  "PR_BLOCKTYPE pr = pageaddr_and_blocktype pr mod PAGE_SIZE"

definition MKPAB :: "nat \<Rightarrow> nat \<Rightarrow> nat" where
  "MKPAB pa blk = (pa - pa mod PAGE_SIZE) + blk mod PAGE_SIZE"

fun deadbeef_from :: "nat \<Rightarrow> nat \<Rightarrow> nat \<Rightarrow> mem \<Rightarrow> mem option" where
  "deadbeef_from i 0 ptr m = Some m"
| "deadbeef_from i (Suc n) ptr m = do { m \<leftarrow> stw m (ptr + 4 * i) 3735928559; deadbeef_from (Suc i) n ptr m }"

definition fill_deadbeef :: "nat \<Rightarrow> nat \<Rightarrow> mem \<Rightarrow> mem option" where
  "fill_deadbeef vptr len m = deadbeef_from 0 (len div 4) vptr m"

section \<open>The table of page references\<close>

definition wmask :: "nat \<Rightarrow> 32 word" where
  "wmask j = push_bit j 1"

text \<open>The first clear bit of a word from bit \<open>j\<close> on; \<open>assert(0)\<close> when there is none.\<close>

fun free_bit :: "nat \<Rightarrow> nat \<Rightarrow> 32 word \<Rightarrow> nat option" where
  "free_bit j 0 w = None"
| "free_bit j (Suc n) w = (if w AND wmask j = 0 then Some j else free_bit (Suc j) n w)"

fun scan_inuse :: "nat \<Rightarrow> 32 word list \<Rightarrow> (nat \<times> nat) nullable option" where
  "scan_inuse i [] = Some NULL"
| "scan_inuse i (w # ws) = (if w = 0xffffffff then scan_inuse (Suc i) ws else do { j \<leftarrow> free_bit 0 32 w; Some (Ptr (i, j)) })"

definition allocpageref :: "'a kheap_scheme \<Rightarrow> (nat nullable \<times> 'a kheap_scheme) option" where
  "allocpageref s = do {
     hit \<leftarrow> scan_inuse 0 (pagerefs_inuse s);
     case hit of NULL \<Rightarrow> Some (NULL, s)
     | Ptr (i, j) \<Rightarrow> Some (Ptr (i * 32 + j), s\<lparr>pagerefs_inuse := (pagerefs_inuse s)[i := (pagerefs_inuse s ! i) OR wmask j]\<rparr>)
   }"

definition freepageref :: "nat \<Rightarrow> 'a kheap_scheme \<Rightarrow> 'a kheap_scheme option" where
  "freepageref j s = do {
     kassert (j < NPAGEREFS);
     let i = j div 32;
     let k = wmask (j mod 32);
     w \<leftarrow> rd (pagerefs_inuse s) (int i);
     kassert (w AND k \<noteq> 0);
     Some (s\<lparr>pagerefs_inuse := (pagerefs_inuse s)[i := w AND NOT k]\<rparr>)
   }"

section \<open>The lists of pages\<close>

text \<open>The two loops of \<open>remove_lists\<close>: \<open>prev\<close> says whose link \<open>*guy\<close> is, the base when it is null.\<close>

partial_function (option) remove_same :: "nat \<Rightarrow> nat \<Rightarrow> nat nullable \<Rightarrow> nat nullable \<Rightarrow> 'a kheap_scheme \<Rightarrow> 'a kheap_scheme option" where
  "remove_same pr blktype prev guy s = (case guy of
      NULL \<Rightarrow> Some s
    | Ptr g \<Rightarrow> do {
        r \<leftarrow> rd (pagerefs s) (int g);
        if g = pr then (case prev of
            NULL \<Rightarrow> Some (s\<lparr>sizebases := (sizebases s)[blktype := next_samesize r]\<rparr>)
          | Ptr q \<Rightarrow> Some (s\<lparr>pagerefs := (pagerefs s)[q := (pagerefs s ! q)\<lparr>next_samesize := next_samesize r\<rparr>]\<rparr>))
        else remove_same pr blktype (Ptr g) (next_samesize r) s
      })"

partial_function (option) remove_all :: "nat \<Rightarrow> nat nullable \<Rightarrow> nat nullable \<Rightarrow> 'a kheap_scheme \<Rightarrow> 'a kheap_scheme option" where
  "remove_all pr prev guy s = (case guy of
      NULL \<Rightarrow> Some s
    | Ptr g \<Rightarrow> do {
        r \<leftarrow> rd (pagerefs s) (int g);
        if g = pr then (case prev of
            NULL \<Rightarrow> Some (s\<lparr>allbase := next_all r\<rparr>)
          | Ptr q \<Rightarrow> Some (s\<lparr>pagerefs := (pagerefs s)[q := (pagerefs s ! q)\<lparr>next_all := next_all r\<rparr>]\<rparr>))
        else remove_all pr (Ptr g) (next_all r) s
      })"

definition remove_lists :: "nat \<Rightarrow> nat \<Rightarrow> 'a kheap_scheme \<Rightarrow> 'a kheap_scheme option" where
  "remove_lists pr blktype s = do {
     kassert (blktype < length sizes);
     base \<leftarrow> rd (sizebases s) (int blktype);
     s \<leftarrow> remove_same pr blktype NULL base s;
     remove_all pr NULL (allbase s) s
   }"

fun blocktype_from :: "nat \<Rightarrow> nat list \<Rightarrow> nat \<Rightarrow> nat option" where
  "blocktype_from i [] sz = None"
| "blocktype_from i (x # xs) sz = (if sz \<le> x then Some i else blocktype_from (Suc i) xs sz)"

definition blocktype :: "nat \<Rightarrow> nat option" where
  "blocktype sz = blocktype_from 0 sizes sz"

section \<open>Allocation\<close>

partial_function (option) find_page :: "nat \<Rightarrow> nat nullable \<Rightarrow> 'a kheap_scheme \<Rightarrow> nat nullable option" where
  "find_page blktype pr s = (case pr of
      NULL \<Rightarrow> Some NULL
    | Ptr p \<Rightarrow> do {
        r \<leftarrow> rd (pagerefs s) (int p);
        kassert (PR_BLOCKTYPE r = blktype);
        if nfree r > 0 then Some (Ptr p) else find_page blktype (next_samesize r) s
      })"

text \<open>From the label \<open>doalloc\<close>: the first free block of the page.\<close>

definition doalloc :: "int \<Rightarrow> nat \<Rightarrow> 'a kheap_scheme \<Rightarrow> (nat nullable \<times> 'a kheap_scheme) option" where
  "doalloc spl p s = do {
     r \<leftarrow> rd (pagerefs s) (int p);
     kassert (freelist_offset r < PAGE_SIZE);
     let prpage = PR_PAGEADDR r;
     let fla = u32 (int prpage + int (freelist_offset r));
     fl \<leftarrow> ldw (core s) fla;
     let r = r\<lparr>nfree := u16 (int (nfree r) - 1)\<rparr>;
     r \<leftarrow> (if fl \<noteq> 0 then do {
              kassert (nfree r > 0);
              kassert (u32 (int fl - int prpage) < PAGE_SIZE);
              Some (r\<lparr>freelist_offset := u16 (int (u32 (int fl - int prpage)))\<rparr>)
            }
            else do { kassert (nfree r = 0); Some (r\<lparr>freelist_offset := INVALID_OFFSET\<rparr>) });
     Some (Ptr fla, spl_x spl (s\<lparr>pagerefs := (pagerefs s)[p := r]\<rparr>))
   }"

text \<open>The loop that chains the blocks of a fresh page, each to the one below it.\<close>

fun chain_blocks :: "nat \<Rightarrow> nat \<Rightarrow> nat \<Rightarrow> nat \<Rightarrow> mem \<Rightarrow> mem option" where
  "chain_blocks i 0 fla sz m = Some m"
| "chain_blocks i (Suc n) fla sz m = do {
     let fl = u32 (int fla + int (i * sz));
     let next = u32 (int fla + int ((i - 1) * sz));
     m \<leftarrow> stw m fl next;
     kassert (fl \<noteq> next);
     chain_blocks (Suc i) n fla sz m
   }"

definition fresh_page :: "nat \<Rightarrow> nat \<Rightarrow> nat \<Rightarrow> 'a kheap_scheme \<Rightarrow> 'a kheap_scheme option" where
  "fresh_page blktype p prpage s = do {
     r \<leftarrow> rd (pagerefs s) (int p);
     sz \<leftarrow> rd sizes (int blktype);
     let n = PAGE_SIZE div sz;
     m \<leftarrow> stw (core s) prpage 0;
     m \<leftarrow> chain_blocks 1 (n - 1) prpage sz m;
     let offset = u16 (int (u32 (int prpage + int ((n - 1) * sz))) - int prpage);
     kassert (offset = (n - 1) * sz);
     base \<leftarrow> rd (sizebases s) (int blktype);
     Some (s\<lparr>core := m,
             pagerefs := (pagerefs s)[p := r\<lparr>pageaddr_and_blocktype := MKPAB prpage blktype, nfree := n, freelist_offset := offset,
                                            next_samesize := base, next_all := allbase s\<rparr>],
             sizebases := (sizebases s)[blktype := Ptr p], allbase := Ptr p\<rparr>)
   }"

definition subpage_kmalloc :: "nat \<Rightarrow> 'a kheap_scheme \<Rightarrow> (nat nullable \<times> 'a kheap_scheme) option" where
  "subpage_kmalloc sz s = do {
     blktype \<leftarrow> blocktype sz;
     let (spl, s) = spl_high s;
     base \<leftarrow> rd (sizebases s) (int blktype);
     hit \<leftarrow> find_page blktype base s;
     case hit of
       Ptr p \<Rightarrow> doalloc spl p s
     | NULL \<Rightarrow> do {
         (new, s) \<leftarrow> allocpageref s;
         case new of
           NULL \<Rightarrow> Some (NULL, spl_x spl s)
         | Ptr p \<Rightarrow> (let (prpage, s) = alloc_kpages 1 s in
             if prpage = 0 then do { s \<leftarrow> freepageref p s; Some (NULL, spl_x spl s) }
             else do { s \<leftarrow> fresh_page blktype p prpage s; doalloc spl p s })
       }
   }"

definition kmalloc :: "nat \<Rightarrow> 'a kheap_scheme \<Rightarrow> (nat nullable \<times> 'a kheap_scheme) option" where
  "kmalloc sz s =
     (if sz \<ge> LARGEST_SUBPAGE_SIZE then
        (let npages = u32 (int sz + int PAGE_SIZE - 1) div PAGE_SIZE;
             (address, s) = alloc_kpages (s32 (int npages)) s
         in if address = 0 then Some (NULL, s) else Some (Ptr address, s))
      else subpage_kmalloc sz s)"

section \<open>Release\<close>

partial_function (option) find_owner :: "nat \<Rightarrow> nat nullable \<Rightarrow> 'a kheap_scheme \<Rightarrow> nat nullable option" where
  "find_owner ptraddr pr s = (case pr of
      NULL \<Rightarrow> Some NULL
    | Ptr p \<Rightarrow> do {
        r \<leftarrow> rd (pagerefs s) (int p);
        kassert (PR_BLOCKTYPE r < length sizes);
        if ptraddr \<ge> PR_PAGEADDR r \<and> ptraddr < u32 (int (PR_PAGEADDR r) + int PAGE_SIZE) then Some (Ptr p)
        else find_owner ptraddr (next_all r) s
      })"

text \<open>The result says whether the block was on one of the pages, which the code writes 0, or not, \<open>-1\<close>.\<close>

definition subpage_kfree :: "nat \<Rightarrow> 'a kheap_scheme \<Rightarrow> (bool \<times> 'a kheap_scheme) option" where
  "subpage_kfree ptraddr s = do {
     let (spl, s) = spl_high s;
     owner \<leftarrow> find_owner ptraddr (allbase s) s;
     case owner of
       NULL \<Rightarrow> Some (False, spl_x spl s)
     | Ptr p \<Rightarrow> do {
         r \<leftarrow> rd (pagerefs s) (int p);
         let prpage = PR_PAGEADDR r;
         let blktype = PR_BLOCKTYPE r;
         let offset = u32 (int ptraddr - int prpage);
         sz \<leftarrow> rd sizes (int blktype);
         kassert (\<not> (offset \<ge> PAGE_SIZE \<or> offset mod sz \<noteq> 0));
         m \<leftarrow> fill_deadbeef ptraddr sz (core s);
         m \<leftarrow> stw m (u32 (int prpage + int offset))
               (if freelist_offset r = INVALID_OFFSET then 0 else u32 (int prpage + int (freelist_offset r)));
         let r = r\<lparr>freelist_offset := u16 (int offset), nfree := u16 (int (nfree r) + 1)\<rparr>;
         let s = s\<lparr>core := m, pagerefs := (pagerefs s)[p := r]\<rparr>;
         kassert (nfree r \<le> PAGE_SIZE div sz);
         if nfree r = PAGE_SIZE div sz then do {
           s \<leftarrow> remove_lists p blktype s;
           let s = free_kpages prpage s;
           s \<leftarrow> freepageref p s;
           Some (True, spl_x spl s)
         }
         else Some (True, spl_x spl s)
       }
   }"

definition kfree :: "nat nullable \<Rightarrow> 'a kheap_scheme \<Rightarrow> 'a kheap_scheme option" where
  "kfree ptr s = (case ptr of
      NULL \<Rightarrow> Some s
    | Ptr a \<Rightarrow> do {
        (found, s) \<leftarrow> subpage_kfree a s;
        if found then Some s
        else do { kassert (a mod PAGE_SIZE = 0); Some (free_kpages a s) }
      })"

section \<open>Blocks and chains\<close>

lemma u32_sum: "a + b < 4294967296 \<Longrightarrow> u32 (int a + int b) = a + b"
  using u32_id [of "int (a + b)"] by (simp del: of_nat_add add: of_nat_add [symmetric])

lemma sizes_nth: "t < 8 \<Longrightarrow> sizes ! t = 2 ^ (t + 4)"
proof -
  assume "t < 8"
  then have "t \<in> {0, 1, 2, 3, 4, 5, 6, 7}" by auto
  then show ?thesis by (auto simp: sizes_def)
qed

lemma length_sizes [simp]: "length sizes = 8"
  by (simp add: sizes_def)

lemma size_facts:
  assumes "t < 8"
  shows "16 \<le> sizes ! t" "sizes ! t \<le> 2048" "sizes ! t mod 4 = 0" "4096 div (sizes ! t) * (sizes ! t) = 4096"
    "2 \<le> 4096 div (sizes ! t)" "4096 div (sizes ! t) \<le> 256"
proof -
  from assms have t: "t \<in> {0, 1, 2, 3, 4, 5, 6, 7}" by auto
  then show "16 \<le> sizes ! t" by (auto simp: sizes_def)
  from t show "sizes ! t \<le> 2048" by (auto simp: sizes_def)
  from t show "sizes ! t mod 4 = 0" by (auto simp: sizes_def)
  from t show "4096 div (sizes ! t) * (sizes ! t) = 4096" by (auto simp: sizes_def)
  from t show "2 \<le> 4096 div (sizes ! t)" by (auto simp: sizes_def)
  from t show "4096 div (sizes ! t) \<le> 256" by (auto simp: sizes_def)
qed

text \<open>The blocks of a page.\<close>

definition slot :: "pageref \<Rightarrow> nat \<Rightarrow> bool" where
  "slot r a \<longleftrightarrow> PR_PAGEADDR r \<le> a \<and> a < PR_PAGEADDR r + 4096 \<and> (a - PR_PAGEADDR r) mod (sizes ! PR_BLOCKTYPE r) = 0"

lemma mult_sep: "k \<noteq> j \<Longrightarrow> k * z + z \<le> j * z \<or> j * z + z \<le> k * z" for k j z :: nat
proof -
  assume "k \<noteq> j"
  then have "Suc k \<le> j \<or> Suc j \<le> k" by linarith
  then have "Suc k * z \<le> j * z \<or> Suc j * z \<le> k * z"
    using mult_le_mono1 [of "Suc k" j z] mult_le_mono1 [of "Suc j" k z] by blast
  then show ?thesis by (simp add: add.commute)
qed

lemma slotE:
  assumes "slot r a" and "PR_BLOCKTYPE r < 8"
  obtains k where "a = PR_PAGEADDR r + k * sizes ! PR_BLOCKTYPE r" "k < 4096 div (sizes ! PR_BLOCKTYPE r)"
proof -
  let ?z = "sizes ! PR_BLOCKTYPE r" and ?d = "a - PR_PAGEADDR r"
  have e: "?d = ?d div ?z * ?z" using assms(1) div_mult_mod_eq [of ?d ?z] by (simp add: slot_def)
  have "?d < 4096 div ?z * ?z" using assms size_facts(4) [OF assms(2)] by (auto simp: slot_def)
  then have "?d div ?z < 4096 div ?z" by (simp add: less_mult_imp_div_less)
  then show thesis using that [of "?d div ?z"] e assms(1) by (simp add: slot_def)
qed

lemma slotI:
  assumes "k < 4096 div (sizes ! PR_BLOCKTYPE r)" and "PR_BLOCKTYPE r < 8"
  shows "slot r (PR_PAGEADDR r + k * sizes ! PR_BLOCKTYPE r)"
proof -
  let ?z = "sizes ! PR_BLOCKTYPE r"
  have "Suc k * ?z \<le> 4096 div ?z * ?z" using assms(1) by (intro mult_le_mono1) simp
  then show ?thesis using size_facts(1,4) [OF assms(2)] by (simp add: slot_def)
qed

lemma slot_bounds:
  assumes "slot r a" and "PR_BLOCKTYPE r < 8"
  shows "PR_PAGEADDR r \<le> a" "a + sizes ! PR_BLOCKTYPE r \<le> PR_PAGEADDR r + 4096" "a mod 4 = 0"
proof -
  let ?z = "sizes ! PR_BLOCKTYPE r"
  from assms obtain k where k: "a = PR_PAGEADDR r + k * ?z" "k < 4096 div ?z" by (rule slotE)
  have "Suc k * ?z \<le> 4096 div ?z * ?z" using k(2) by (intro mult_le_mono1) simp
  then show "PR_PAGEADDR r \<le> a" "a + ?z \<le> PR_PAGEADDR r + 4096" using k(1) size_facts(4) [OF assms(2)] by simp_all
  have "PR_PAGEADDR r mod 4 = 0" by (simp add: PR_PAGEADDR_def PAGE_SIZE_def minus_mod_eq_mult_div mod_mult_left_eq)
  moreover have "k * ?z mod 4 = 0" using size_facts(3) [OF assms(2)] by (metis mod_mult_right_eq mult_0_right mod_0)
  ultimately show "a mod 4 = 0" unfolding k(1) by (metis mod_add_eq add_0 mod_0)
qed

lemma slot_sep:
  assumes "slot r a" and "slot r b" and "a \<noteq> b" and "PR_BLOCKTYPE r < 8"
  shows "a + sizes ! PR_BLOCKTYPE r \<le> b \<or> b + sizes ! PR_BLOCKTYPE r \<le> a"
proof -
  let ?z = "sizes ! PR_BLOCKTYPE r"
  from assms(1,4) obtain k where k: "a = PR_PAGEADDR r + k * ?z" by (rule slotE)
  from assms(2,4) obtain j where j: "b = PR_PAGEADDR r + j * ?z" by (rule slotE)
  have "k \<noteq> j" using assms(3) k j by auto
  from mult_sep [OF this, of ?z] show ?thesis unfolding k j by linarith
qed

lemma slots_image:
  assumes "PR_BLOCKTYPE r < 8"
  shows "{a. slot r a} = (\<lambda>k. PR_PAGEADDR r + k * sizes ! PR_BLOCKTYPE r) ` {..<4096 div (sizes ! PR_BLOCKTYPE r)}"
proof (intro equalityI subsetI)
  let ?z = "sizes ! PR_BLOCKTYPE r"
  fix a assume "a \<in> {a. slot r a}"
  then have "slot r a" by simp
  then obtain k where "a = PR_PAGEADDR r + k * ?z" "k < 4096 div ?z" using assms by (rule slotE)
  then show "a \<in> (\<lambda>k. PR_PAGEADDR r + k * ?z) ` {..<4096 div ?z}" by blast
qed (use slotI [OF _ assms] in blast)

lemma card_slots:
  assumes "PR_BLOCKTYPE r < 8"
  shows "card {a. slot r a} = 4096 div (sizes ! PR_BLOCKTYPE r)" "finite {a. slot r a}"
proof -
  have "inj_on (\<lambda>k. PR_PAGEADDR r + k * sizes ! PR_BLOCKTYPE r) {..<4096 div (sizes ! PR_BLOCKTYPE r)}"
    using size_facts(1) [OF assms] by (auto simp: inj_on_def)
  then show "card {a. slot r a} = 4096 div (sizes ! PR_BLOCKTYPE r)" "finite {a. slot r a}"
    unfolding slots_image [OF assms] by (simp_all add: card_image)
qed

text \<open>A chain of free blocks in the memory, from the address \<open>a\<close>; 0 ends it.\<close>

fun fchain :: "mem \<Rightarrow> nat \<Rightarrow> nat list \<Rightarrow> bool" where
  "fchain m a [] \<longleftrightarrow> a = 0"
| "fchain m a (x # xs) \<longleftrightarrow> a = x \<and> a \<noteq> 0 \<and> (\<exists>b. ldw m x = Some b \<and> fchain m b xs)"

lemma fchain_cong: "(\<And>x. x \<in> set xs \<Longrightarrow> ldw m' x = ldw m x) \<Longrightarrow> fchain m' a xs = fchain m a xs"
  by (induction xs arbitrary: a) auto

definition head :: "nat list \<Rightarrow> nat" where
  "head xs = (case xs of [] \<Rightarrow> 0 | x # _ \<Rightarrow> x)"

lemma head_simps [simp]: "head [] = 0" "head (x # xs) = x"
  by (simp_all add: head_def)

lemma fchain_head: "fchain m a xs \<Longrightarrow> a = head xs"
  by (cases xs) simp_all

text \<open>A page of blocks below the physical address \<open>fp\<close> whose free blocks are \<open>fs\<close>.\<close>

definition page_ok :: "mem \<Rightarrow> nat \<Rightarrow> pageref \<Rightarrow> nat list \<Rightarrow> bool" where
  "page_ok m fp r fs \<longleftrightarrow> PR_BLOCKTYPE r < 8 \<and> MIPS_KSEG0 + 4096 \<le> PR_PAGEADDR r \<and> PR_PAGEADDR r + 4096 \<le> MIPS_KSEG0 + fp
     \<and> distinct fs \<and> (\<forall>a \<in> set fs. slot r a) \<and> nfree r = length fs
     \<and> freelist_offset r = (if fs = [] then INVALID_OFFSET else head fs - PR_PAGEADDR r) \<and> fchain m (head fs) fs"

lemma page_ok_cong:
  assumes "page_ok m fp r fs" and "fp \<le> fp'" and "\<And>x. x \<in> set fs \<Longrightarrow> ldw m' x = ldw m x"
  shows "page_ok m' fp' r fs"
  using assms fchain_cong [of fs m' m] by (simp add: page_ok_def)

section \<open>Lists of page references\<close>

fun plist :: "(nat \<Rightarrow> nat nullable) \<Rightarrow> nat nullable \<Rightarrow> nat list \<Rightarrow> bool" where
  "plist nx b [] \<longleftrightarrow> b = NULL"
| "plist nx b (x # xs) \<longleftrightarrow> b = Ptr x \<and> plist nx (nx x) xs"

lemma plist_cong: "(\<And>x. x \<in> set xs \<Longrightarrow> nx' x = nx x) \<Longrightarrow> plist nx' b xs = plist nx b xs"
  by (induction xs arbitrary: b) auto

lemma plist_unlink:
  assumes "plist nx b (ys @ p # zs)" and "distinct (ys @ p # zs)" and "ys \<noteq> []"
  shows "plist (nx(last ys := nx p)) b (ys @ zs)"
  using assms
proof (induction ys arbitrary: b)
  case (Cons y ys)
  show ?case
  proof (cases "ys = []")
    case True
    have "plist (nx(y := nx p)) (nx p) zs = plist nx (nx p) zs" by (rule plist_cong) (use Cons.prems True in auto)
    with True Cons.prems show ?thesis by (simp del: fun_upd_apply add: fun_upd_same)
  next
    case False
    with Cons.IH [of "nx y"] Cons.prems have "plist (nx(last ys := nx p)) (nx y) (ys @ zs)" by (simp del: fun_upd_apply)
    moreover have "y \<noteq> last ys" using Cons.prems(2) False last_in_set [OF False] by auto
    ultimately show ?thesis using Cons.prems(1) False by (simp del: fun_upd_apply add: fun_upd_other)
  qed
qed simp

abbreviation ns :: "'a kheap_scheme \<Rightarrow> nat \<Rightarrow> nat nullable" where
  "ns s \<equiv> \<lambda>p. next_samesize (pagerefs s ! p)"

abbreviation na :: "'a kheap_scheme \<Rightarrow> nat \<Rightarrow> nat nullable" where
  "na s \<equiv> \<lambda>p. next_all (pagerefs s ! p)"

lemma remove_same_eq:
  assumes "plist (ns s) b (ys @ p # zs)" and "p \<notin> set ys" and "\<forall>x \<in> set (ys @ p # zs). x < length (pagerefs s)"
  shows "remove_same p t prev b s = (case (if ys = [] then prev else Ptr (last ys)) of
      NULL \<Rightarrow> Some (s\<lparr>sizebases := (sizebases s)[t := ns s p]\<rparr>)
    | Ptr q \<Rightarrow> Some (s\<lparr>pagerefs := (pagerefs s)[q := (pagerefs s ! q)\<lparr>next_samesize := ns s p\<rparr>]\<rparr>))"
  using assms
proof (induction ys arbitrary: b prev)
  case Nil
  then show ?case by (subst remove_same.simps) simp
next
  case (Cons y ys)
  then show ?case by (subst remove_same.simps) simp
qed

lemma remove_all_eq:
  assumes "plist (na s) b (ys @ p # zs)" and "p \<notin> set ys" and "\<forall>x \<in> set (ys @ p # zs). x < length (pagerefs s)"
  shows "remove_all p prev b s = (case (if ys = [] then prev else Ptr (last ys)) of
      NULL \<Rightarrow> Some (s\<lparr>allbase := na s p\<rparr>)
    | Ptr q \<Rightarrow> Some (s\<lparr>pagerefs := (pagerefs s)[q := (pagerefs s ! q)\<lparr>next_all := na s p\<rparr>]\<rparr>))"
  using assms
proof (induction ys arbitrary: b prev)
  case Nil
  then show ?case by (subst remove_all.simps) simp
next
  case (Cons y ys)
  then show ?case by (subst remove_all.simps) simp
qed

section \<open>The table of page references\<close>

definition inuse :: "32 word list \<Rightarrow> nat set" where
  "inuse ws = {p. p < 32 * length ws \<and> bit (ws ! (p div 32)) (p mod 32)}"

lemma wmask_bit: "(w AND wmask j = 0) = (\<not> bit w j)"
  by (simp add: wmask_def bit_iff_and_push_bit_not_eq_0)

lemma bit_wmask: "bit (wmask j) k = (k = j \<and> j < 32)"
  by (auto simp: wmask_def bit_exp_iff)

lemma free_bit_Some:
  assumes "j + n = 32" and "\<exists>i. j \<le> i \<and> i < 32 \<and> \<not> bit w i"
  shows "\<exists>i. free_bit j n w = Some i \<and> i < 32 \<and> \<not> bit w i"
  using assms
proof (induction n arbitrary: j)
  case (Suc n)
  show ?case
  proof (cases "bit w j")
    case True
    with Suc.prems have "\<exists>i. Suc j \<le> i \<and> i < 32 \<and> \<not> bit w i" by (metis Suc_leI le_neq_implies_less)
    with Suc.IH [of "Suc j"] Suc.prems True show ?thesis by (simp add: wmask_bit)
  next
    case False
    with Suc.prems show ?thesis by (simp add: wmask_bit)
  qed
qed auto

lemma all_ones: "(w = 0xffffffff) = (\<forall>i < 32. bit w i)" for w :: "32 word"
proof -
  have eq: "(0xffffffff :: 32 word) = - 1" by simp
  show ?thesis unfolding eq by (auto intro: bit_word_eqI)
qed

lemma scan_inuse_cases:
  "(scan_inuse i ws = Some NULL \<and> (\<forall>w \<in> set ws. \<forall>j < 32. bit w j))
   \<or> (\<exists>k j. scan_inuse i ws = Some (Ptr (i + k, j)) \<and> k < length ws \<and> j < 32 \<and> \<not> bit (ws ! k) j)"
proof (induction ws arbitrary: i)
  case (Cons w ws)
  show ?case
  proof (cases "w = 0xffffffff")
    case True
    from Cons.IH [of "Suc i"] show ?thesis
    proof
      assume "scan_inuse (Suc i) ws = Some NULL \<and> (\<forall>w \<in> set ws. \<forall>j < 32. bit w j)"
      with True show ?thesis by (simp add: all_ones)
    next
      assume "\<exists>k j. scan_inuse (Suc i) ws = Some (Ptr (Suc i + k, j)) \<and> k < length ws \<and> j < 32 \<and> \<not> bit (ws ! k) j"
      then obtain k j where "scan_inuse (Suc i) ws = Some (Ptr (Suc i + k, j))" "k < length ws" "j < 32" "\<not> bit (ws ! k) j" by blast
      with True show ?thesis by (intro disjI2 exI [of _ "Suc k"] exI [of _ j]) simp
    qed
  next
    case False
    then have "\<exists>k. 0 \<le> k \<and> k < 32 \<and> \<not> bit w k" by (simp add: all_ones)
    from free_bit_Some [OF _ this, of 32] obtain j where "free_bit 0 32 w = Some j" "j < 32" "\<not> bit w j" by auto
    with False show ?thesis by (intro disjI2 exI [of _ 0] exI [of _ j]) simp
  qed
qed simp

lemma inuse_update:
  assumes "i < length ws" and "j < 32"
  shows "inuse (ws[i := (ws ! i) OR wmask j]) = insert (i * 32 + j) (inuse ws)"
    "inuse (ws[i := (ws ! i) AND NOT (wmask j)]) = inuse ws - {i * 32 + j}"
proof -
  have d: "(i * 32 + j) div 32 = i" "(i * 32 + j) mod 32 = j" using assms(2) by simp_all
  have e: "p = i * 32 + j" if "p div 32 = i" "p mod 32 = j" for p using div_mult_mod_eq [of p 32] that by simp
  have l: "i * 32 + j < 32 * length ws" using assms by linarith
  show "inuse (ws[i := (ws ! i) OR wmask j]) = insert (i * 32 + j) (inuse ws)"
    using assms d l by (auto simp: inuse_def nth_list_update bit_or_iff bit_wmask intro: e)
  show "inuse (ws[i := (ws ! i) AND NOT (wmask j)]) = inuse ws - {i * 32 + j}"
    using assms d l by (auto simp: inuse_def nth_list_update bit_and_iff bit_not_iff bit_wmask intro: e)
qed

lemma allocpageref_cases:
  assumes "length (pagerefs_inuse s) = 8"
  obtains (none) "allocpageref s = Some (NULL, s)" "inuse (pagerefs_inuse s) = {..<256}"
    | (some) p ws where "allocpageref s = Some (Ptr p, s\<lparr>pagerefs_inuse := ws\<rparr>)" "p < 256" "p \<notin> inuse (pagerefs_inuse s)"
        "inuse ws = insert p (inuse (pagerefs_inuse s))" "length ws = 8"
proof -
  let ?ws = "pagerefs_inuse s"
  consider "scan_inuse 0 ?ws = Some NULL" "\<forall>w \<in> set ?ws. \<forall>j < 32. bit w j"
    | k j where "scan_inuse 0 ?ws = Some (Ptr (k, j))" "k < 8" "j < 32" "\<not> bit (?ws ! k) j"
    using scan_inuse_cases [of 0 ?ws] assms by auto
  then show thesis
  proof cases
    case 1
    have "x div 32 < length ?ws" if "x < 256" for x using that assms by (simp add: less_mult_imp_div_less)
    with 1(2) have "inuse ?ws = {..<256}" using assms by (auto simp: inuse_def)
    with 1(1) show thesis by (intro none) (simp_all add: allocpageref_def)
  next
    case 2
    have "(k * 32 + j) div 32 = k" "(k * 32 + j) mod 32 = j" using 2(3) by simp_all
    then have "k * 32 + j \<notin> inuse ?ws" using 2(4) by (simp add: inuse_def)
    then show thesis
      using 2 inuse_update(1) [of k ?ws j] assms
      by (intro some [of "k * 32 + j" "?ws[k := (?ws ! k) OR wmask j]"]) (simp_all add: allocpageref_def)
  qed
qed

lemma freepageref_eq:
  assumes "length (pagerefs_inuse s) = 8" and "p \<in> inuse (pagerefs_inuse s)"
  shows "\<exists>ws. freepageref p s = Some (s\<lparr>pagerefs_inuse := ws\<rparr>) \<and> inuse ws = inuse (pagerefs_inuse s) - {p} \<and> length ws = 8"
proof -
  let ?ws = "pagerefs_inuse s"
  have p: "p < 256" "bit (?ws ! (p div 32)) (p mod 32)" using assms by (auto simp: inuse_def)
  have i: "p div 32 < length ?ws" using p(1) assms(1) by (simp add: less_mult_imp_div_less)
  have "p div 32 * 32 + p mod 32 = p" by simp
  with inuse_update(2) [OF i, of "p mod 32"]
  have "inuse (?ws[p div 32 := (?ws ! (p div 32)) AND NOT (wmask (p mod 32))]) = inuse ?ws - {p}" by simp
  then show ?thesis
    using p i assms(1) by (intro exI [of _ "?ws[p div 32 := (?ws ! (p div 32)) AND NOT (wmask (p mod 32))]"])
      (simp add: freepageref_def NPAGEREFS_def wmask_bit Let_def)
qed

section \<open>Changes of the memory\<close>

definition within :: "nat \<Rightarrow> nat \<Rightarrow> mem \<Rightarrow> mem \<Rightarrow> bool" where
  "within lo hi m m' \<longleftrightarrow> (\<forall>x. x < lo \<or> hi \<le> x \<longrightarrow> m' x = m x) \<and> (\<forall>x. m x \<noteq> None \<longrightarrow> m' x \<noteq> None)"

lemma within_refl: "within lo hi m m"
  by (simp add: within_def)

lemma within_trans: "within lo hi m m1 \<Longrightarrow> within lo hi m1 m2 \<Longrightarrow> within lo hi m m2"
  by (simp add: within_def)

lemma within_mono: "within lo hi m m' \<Longrightarrow> lo' \<le> lo \<Longrightarrow> hi \<le> hi' \<Longrightarrow> within lo' hi' m m'"
  by (auto simp: within_def)

lemma within_put: "lo \<le> a \<Longrightarrow> a + length bs \<le> hi \<Longrightarrow> within lo hi m (put m a bs)"
  by (auto simp: within_def put_def)

lemma within_mapped: "within lo hi m m' \<Longrightarrow> mapped m a n \<Longrightarrow> mapped m' a n"
  by (simp add: within_def mapped_def)

lemma within_ldw: "within lo hi m m' \<Longrightarrow> x + 4 \<le> lo \<or> hi \<le> x \<Longrightarrow> ldw m' x = ldw m x"
  by (rule ldw_cong) (auto simp: within_def)

lemma deadbeef_within:
  assumes "mapped m a (4 * (i + n))" and "a mod 4 = 0"
  shows "\<exists>m'. deadbeef_from i n a m = Some m' \<and> within a (a + 4 * (i + n)) m m'"
  using assms(1)
proof (induction n arbitrary: i m)
  case 0
  then show ?case by (simp add: within_refl)
next
  case (Suc n)
  have "mapped m (a + 4 * i) 4" using mapped_sub [OF Suc.prems, of "4 * i" 4] by simp
  moreover have "(a + 4 * i) mod 4 = 0" using assms(2) by simp
  ultimately have st: "stw m (a + 4 * i) 3735928559 = Some (put m (a + 4 * i) (be32 3735928559))" by (rule stw_eq [rotated])
  have w: "within a (a + 4 * (i + Suc n)) m (put m (a + 4 * i) (be32 3735928559))" by (rule within_put) simp_all
  from Suc.IH [of "put m (a + 4 * i) (be32 3735928559)" "Suc i"] within_mapped [OF w Suc.prems]
  obtain m' where "deadbeef_from (Suc i) n a (put m (a + 4 * i) (be32 3735928559)) = Some m'"
      "within a (a + 4 * (Suc i + n)) (put m (a + 4 * i) (be32 3735928559)) m'" by auto
  with st within_trans [OF w] show ?case by auto
qed

lemma fill_deadbeef_within:
  assumes "mapped m a z" and "a mod 4 = 0" and "z mod 4 = 0"
  shows "\<exists>m'. fill_deadbeef a z m = Some m' \<and> within a (a + z) m m'"
proof -
  have z: "4 * (0 + z div 4) = z" using assms(3) by (metis add_0 mult_div_mod_eq add.right_neutral)
  from deadbeef_within [of m a 0 "z div 4"] show ?thesis unfolding fill_deadbeef_def z using assms(1,2) by blast
qed

section \<open>The heap\<close>

text \<open>The pages \<open>ps\<close> with their free blocks, the latest page first, and their two kinds of list.\<close>

definition pages_ok :: "'a kheap_scheme \<Rightarrow> nat list \<Rightarrow> (nat \<Rightarrow> nat list) \<Rightarrow> bool" where
  "pages_ok s ps F \<longleftrightarrow> ram_ok s \<and> length (pagerefs s) = 256 \<and> length (pagerefs_inuse s) = 8 \<and> length (sizebases s) = 8
     \<and> distinct ps \<and> set ps \<subseteq> {..<256} \<and> plist (na s) (allbase s) ps
     \<and> (\<forall>t < 8. plist (ns s) (sizebases s ! t) (filter (\<lambda>p. PR_BLOCKTYPE (pagerefs s ! p) = t) ps))
     \<and> inj_on (\<lambda>p. PR_PAGEADDR (pagerefs s ! p)) (set ps)
     \<and> (\<forall>p \<in> set ps. page_ok (core s) (firstpaddr s) (pagerefs s ! p) (F p))"

definition heap_ok :: "'a kheap_scheme \<Rightarrow> nat list \<Rightarrow> (nat \<Rightarrow> nat list) \<Rightarrow> bool" where
  "heap_ok s ps F \<longleftrightarrow> pages_ok s ps F \<and> inuse (pagerefs_inuse s) = set ps"

lemma pages_okD:
  assumes "pages_ok s ps F"
  shows "ram_ok s" "length (pagerefs s) = 256" "length (pagerefs_inuse s) = 8" "length (sizebases s) = 8" "distinct ps"
    "\<And>p. p \<in> set ps \<Longrightarrow> p < 256" "plist (na s) (allbase s) ps"
    "\<And>t. t < 8 \<Longrightarrow> plist (ns s) (sizebases s ! t) (filter (\<lambda>p. PR_BLOCKTYPE (pagerefs s ! p) = t) ps)"
    "inj_on (\<lambda>p. PR_PAGEADDR (pagerefs s ! p)) (set ps)"
    "\<And>p. p \<in> set ps \<Longrightarrow> page_ok (core s) (firstpaddr s) (pagerefs s ! p) (F p)"
  using assms by (auto simp: pages_ok_def)

lemma pages_ok_spl [simp]:
  "pages_ok (s\<lparr>m_spl := x\<rparr>) ps F = pages_ok s ps F" "heap_ok (s\<lparr>m_spl := x\<rparr>) ps F = heap_ok s ps F"
  by (simp_all add: heap_ok_def pages_ok_def ram_ok_def)

lemma page_okD:
  assumes "page_ok m fp r fs"
  shows "PR_BLOCKTYPE r < 8" "MIPS_KSEG0 + 4096 \<le> PR_PAGEADDR r" "PR_PAGEADDR r + 4096 \<le> MIPS_KSEG0 + fp" "distinct fs"
    "\<And>a. a \<in> set fs \<Longrightarrow> slot r a" "nfree r = length fs" "freelist_offset r = (if fs = [] then INVALID_OFFSET else head fs - PR_PAGEADDR r)"
    "fchain m (head fs) fs"
  using assms by (auto simp: page_ok_def)

text \<open>Two pages do not overlap, so neither do a block of one and a block of the other.\<close>

lemma pageaddr_mod: "PR_PAGEADDR r mod 4096 = 0"
  by (simp add: PR_PAGEADDR_def PAGE_SIZE_def minus_mod_eq_mult_div)

lemma pages_sep: "PR_PAGEADDR r \<noteq> PR_PAGEADDR r' \<Longrightarrow> PR_PAGEADDR r + 4096 \<le> PR_PAGEADDR r' \<or> PR_PAGEADDR r' + 4096 \<le> PR_PAGEADDR r"
  using mult_sep [of "PR_PAGEADDR r div 4096" "PR_PAGEADDR r' div 4096" 4096] pageaddr_mod [of r] pageaddr_mod [of r']
  by (metis add.right_neutral div_mult_mod_eq)

lemma other_page:
  assumes "pages_ok s ps F" and "p \<in> set ps" and "q \<in> set ps" and "q \<noteq> p"
  shows "PR_PAGEADDR (pagerefs s ! p) + 4096 \<le> PR_PAGEADDR (pagerefs s ! q) \<or> PR_PAGEADDR (pagerefs s ! q) + 4096 \<le> PR_PAGEADDR (pagerefs s ! p)"
  using pages_okD(9) [OF assms(1)] assms(2-4) by (intro pages_sep) (auto simp: inj_on_def)

text \<open>A change of one page reference that keeps its place, and of the memory inside its page.\<close>

lemma pages_ok_update:
  assumes "pages_ok s ps F" and "p \<in> set ps" and "within (PR_PAGEADDR (pagerefs s ! p)) (PR_PAGEADDR (pagerefs s ! p) + 4096) (core s) m"
    and "next_samesize r = ns s p" and "next_all r = na s p" and "pageaddr_and_blocktype r = pageaddr_and_blocktype (pagerefs s ! p)"
    and "page_ok m (firstpaddr s) r fs"
  shows "pages_ok (s\<lparr>core := m, pagerefs := (pagerefs s)[p := r]\<rparr>) ps (F(p := fs))"
proof -
  let ?s = "s\<lparr>core := m, pagerefs := (pagerefs s)[p := r]\<rparr>"
  note P = pages_okD [OF assms(1)]
  have p: "p < length (pagerefs s)" using P(2,6) assms(2) by simp
  have n: "ns ?s = ns s" "na ?s = na s" using assms(4,5) p by (auto simp: fun_eq_iff nth_list_update)
  have t: "PR_BLOCKTYPE (pagerefs ?s ! q) = PR_BLOCKTYPE (pagerefs s ! q)" "PR_PAGEADDR (pagerefs ?s ! q) = PR_PAGEADDR (pagerefs s ! q)" for q
    using assms(6) p by (auto simp: nth_list_update PR_BLOCKTYPE_def PR_PAGEADDR_def)
  have ram: "ram_ok ?s" using P(1) within_mapped [OF assms(3)] by (simp add: ram_ok_def)
  have "page_ok m (firstpaddr s) (pagerefs ?s ! q) ((F(p := fs)) q)" if q: "q \<in> set ps" for q
  proof (cases "q = p")
    case True
    with assms(7) p show ?thesis by simp
  next
    case False
    note Q = page_okD [OF P(10) [OF q]]
    have "page_ok m (firstpaddr s) (pagerefs s ! q) (F q)"
    proof (rule page_ok_cong [OF P(10) [OF q] order_refl])
      fix x assume "x \<in> set (F q)"
      note B = slot_bounds [OF Q(5) [OF this] Q(1)] and z = size_facts(1) [OF Q(1)]
      show "ldw m x = ldw (core s) x"
        by (rule within_ldw [OF assms(3)]) (use other_page [OF assms(1,2) q False] B z in linarith)
    qed
    with False show ?thesis by simp
  qed
  moreover have "set ps \<subseteq> {..<256}" using P(6) by auto
  ultimately show ?thesis using ram n t P unfolding pages_ok_def by simp
qed

text \<open>Taking the first free block of a page.\<close>

lemma u16_id: "0 \<le> x \<Longrightarrow> x < 65536 \<Longrightarrow> u16 x = nat x"
  by (simp add: u16_def)

lemma page_range:
  assumes "pages_ok s ps F" and "p \<in> set ps"
  shows "PR_PAGEADDR (pagerefs s ! p) + 4096 \<le> 2684354560" "mapped (core s) (PR_PAGEADDR (pagerefs s ! p)) 4096"
proof -
  note r = pages_okD(1) [OF assms(1)] and Q = page_okD [OF pages_okD(10) [OF assms]]
  show "PR_PAGEADDR (pagerefs s ! p) + 4096 \<le> 2684354560" using r Q(3) by (simp add: ram_ok_def MIPS_KSEG0_def)
  have "PR_PAGEADDR (pagerefs s ! p) - MIPS_KSEG0 + 4096 \<le> lastpaddr s" using r Q(2,3) unfolding ram_ok_def by linarith
  from mapped_sub [OF _ this, of "core s" MIPS_KSEG0] r Q(2)
  show "mapped (core s) (PR_PAGEADDR (pagerefs s ! p)) 4096" by (simp add: ram_ok_def)
qed

definition taken_block :: "pageref \<Rightarrow> nat list \<Rightarrow> pageref" where
  "taken_block r fs = r\<lparr>nfree := length fs, freelist_offset := (if fs = [] then INVALID_OFFSET else head fs - PR_PAGEADDR r)\<rparr>"

lemma page_ok_taken: "page_ok m fp r (x # fs) \<Longrightarrow> page_ok m fp (taken_block r fs) fs"
  using fchain_head [of m _ fs] by (auto simp: page_ok_def taken_block_def PR_BLOCKTYPE_def PR_PAGEADDR_def slot_def)

lemma doalloc_spec:
  assumes "pages_ok s ps F" and "p \<in> set ps" and "F p = x # fs"
  shows "doalloc spl p s = Some (Ptr x, s\<lparr>pagerefs := (pagerefs s)[p := taken_block (pagerefs s ! p) fs], m_spl := spl\<rparr>)"
    "pages_ok (s\<lparr>pagerefs := (pagerefs s)[p := taken_block (pagerefs s ! p) fs], m_spl := spl\<rparr>) ps (F(p := fs))"
proof -
  let ?r = "pagerefs s ! p" and ?P = "PR_PAGEADDR (pagerefs s ! p)"
  note P = pages_okD [OF assms(1)] and ok = pages_okD(10) [OF assms(1,2)]
  note Q = page_okD [OF ok] and R = page_range [OF assms(1,2)]
  have p: "p < length (pagerefs s)" using P(2,6) assms(2) by simp
  have B: "?P \<le> x" "x + 16 \<le> ?P + 4096" using slot_bounds [OF Q(5) Q(1), of x] size_facts(1) [OF Q(1)] assms(3) by auto
  have off: "freelist_offset ?r = x - ?P" using Q(7) assms(3) by simp
  have fla: "u32 (int ?P + int (x - ?P)) = x" using B R(1) by (simp add: u32_id of_nat_diff)
  from Q(8) assms(3) obtain b where b: "ldw (core s) x = Some b" "fchain (core s) b fs" by auto
  have hb: "b = head fs" by (rule fchain_head [OF b(2)])
  have card: "length (x # fs) \<le> 256"
  proof -
    have "set (x # fs) \<subseteq> {a. slot ?r a}" using Q(5) assms(3) by auto
    from card_mono [OF card_slots(2) [OF Q(1)] this] have "length (x # fs) \<le> card {a. slot ?r a}"
      using distinct_card [of "x # fs"] Q(4) assms(3) by simp
    then show ?thesis using card_slots(1) [OF Q(1)] size_facts(6) [OF Q(1)] by simp
  qed
  have n: "nfree ?r = Suc (length fs)" "u16 (int (nfree ?r) - 1) = length fs"
    using Q(6) assms(3) card by (simp_all add: u16_id)
  have "doalloc spl p s = Some (Ptr x, spl_x spl (s\<lparr>pagerefs := (pagerefs s)[p := taken_block ?r fs]\<rparr>))"
  proof (cases fs)
    case Nil
    then show ?thesis using p off B fla b hb n
      by (simp add: doalloc_def PAGE_SIZE_def Let_def taken_block_def)
  next
    case (Cons y ys)
    have y: "b = y" "y \<noteq> 0" using hb Cons b(2) by auto
    have By: "?P \<le> y" "y < ?P + 4096" using Q(5) [of y] assms(3) Cons by (auto simp: slot_def)
    have d: "u32 (int y - int ?P) = y - ?P" using By by (subst u32_id) (auto simp: nat_diff_distrib)
    have "u16 (int (y - ?P)) = y - ?P" using By by (subst u16_id) auto
    with Cons y By d show ?thesis using p off B fla b(1) n
      by (simp add: doalloc_def PAGE_SIZE_def Let_def taken_block_def)
  qed
  then show "doalloc spl p s = Some (Ptr x, s\<lparr>pagerefs := (pagerefs s)[p := taken_block ?r fs], m_spl := spl\<rparr>)"
    by (simp add: spl_x_def)
  have "page_ok (core s) (firstpaddr s) (taken_block ?r fs) fs" by (rule page_ok_taken) (use ok assms(3) in simp)
  from pages_ok_update [OF assms(1,2) within_refl _ _ _ this]
  have "pages_ok (s\<lparr>pagerefs := (pagerefs s)[p := taken_block ?r fs]\<rparr>) ps (F(p := fs))" by (simp add: taken_block_def)
  then show "pages_ok (s\<lparr>pagerefs := (pagerefs s)[p := taken_block ?r fs], m_spl := spl\<rparr>) ps (F(p := fs))"
    by simp
qed

text \<open>The search for a page with a free block.\<close>

lemma find_page_eq:
  assumes "plist (ns s) b qs" and "\<forall>q \<in> set qs. q < length (pagerefs s) \<and> PR_BLOCKTYPE (pagerefs s ! q) = t"
  shows "find_page t b s = Some (case find (\<lambda>q. 0 < nfree (pagerefs s ! q)) qs of None \<Rightarrow> NULL | Some q \<Rightarrow> Ptr q)"
  using assms
proof (induction qs arbitrary: b)
  case Nil
  then show ?case by (subst find_page.simps) simp
next
  case (Cons q qs)
  then show ?case by (subst find_page.simps) simp
qed

lemma find_page_cases:
  assumes "pages_ok s ps F" and "t < 8"
  obtains (none) "find_page t (sizebases s ! t) s = Some NULL"
    | (some) p x fs where "find_page t (sizebases s ! t) s = Some (Ptr p)" "p \<in> set ps" "PR_BLOCKTYPE (pagerefs s ! p) = t" "F p = x # fs"
proof -
  note P = pages_okD [OF assms(1)]
  let ?qs = "filter (\<lambda>p. PR_BLOCKTYPE (pagerefs s ! p) = t) ps"
  have e: "find_page t (sizebases s ! t) s = Some (case find (\<lambda>q. 0 < nfree (pagerefs s ! q)) ?qs of None \<Rightarrow> NULL | Some q \<Rightarrow> Ptr q)"
    by (rule find_page_eq [OF P(8) [OF assms(2)]]) (use P(2,6) in auto)
  show thesis
  proof (cases "find (\<lambda>q. 0 < nfree (pagerefs s ! q)) ?qs")
    case None
    with e none show thesis by simp
  next
    case (Some p)
    then obtain i where i: "i < length ?qs" "p = ?qs ! i" "0 < nfree (pagerefs s ! p)" by (auto simp: find_Some_iff)
    then have "p \<in> set ?qs" by (metis nth_mem)
    with i(3) have p: "p \<in> set ps" "PR_BLOCKTYPE (pagerefs s ! p) = t" "0 < nfree (pagerefs s ! p)" by auto
    then have "F p \<noteq> []" using page_okD(6) [OF P(10)] by auto
    then obtain x fs where "F p = x # fs" by (cases "F p") auto
    with some e Some p show thesis by simp
  qed
qed

text \<open>A fresh page: every block is free, chained from the last to the first.\<close>

definition chained :: "nat \<Rightarrow> nat \<Rightarrow> nat \<Rightarrow> mem \<Rightarrow> bool" where
  "chained P z n m \<longleftrightarrow> (\<forall>k < n. ldw m (P + k * z) = Some (if k = 0 then 0 else P + (k - 1) * z))"

lemma chained_store:
  assumes "chained P z i m" and "0 < i" and "P mod 4 = 0" and "z mod 4 = 0" and "16 \<le> z" and "mapped m (P + i * z) 4" and "P + i * z < 4294967296"
  shows "chained P z (Suc i) (put m (P + i * z) (be32 (P + (i - 1) * z)))"
proof -
  let ?a = "P + i * z" and ?v = "P + (i - 1) * z"
  have am: "?a mod 4 = 0" using assms(3,4) by (metis mod_add_eq mod_mult_right_eq mult_0_right add_0 mod_0)
  have v: "?v < 4294967296" using assms(7) mult_le_mono1 [of "i - 1" i z] by linarith
  have "ldw (put m ?a (be32 ?v)) (P + k * z) = Some (if k = 0 then 0 else P + (k - 1) * z)" if k: "k < Suc i" for k
  proof (cases "k = i")
    case True
    with ldw_put_same [OF am assms(6) v] assms(2) show ?thesis by simp
  next
    case False
    then have "k * z + z \<le> i * z" using k mult_le_mono1 [of "Suc k" i z] by simp
    then have "ldw (put m ?a (be32 ?v)) (P + k * z) = ldw m (P + k * z)"
      by (intro within_ldw [OF within_put [of ?a ?a "be32 ?v" "?a + 4"]]) (use assms(5) in auto)
    with assms(1) k False show ?thesis by (simp add: chained_def)
  qed
  then show ?thesis by (simp add: chained_def)
qed

lemma chain_blocks_spec:
  assumes "mapped m P 4096" and "P mod 4 = 0" and "t < 8" and "P + 4096 < 4294967296" and "0 < i" and "i + c = 4096 div (sizes ! t)"
    and "chained P (sizes ! t) i m"
  shows "\<exists>m'. chain_blocks i c P (sizes ! t) m = Some m' \<and> chained P (sizes ! t) (4096 div (sizes ! t)) m' \<and> within P (P + 4096) m m'"
  using assms(1,5-7)
proof (induction c arbitrary: i m)
  case 0
  then show ?case by (simp add: within_refl)
next
  case (Suc c)
  let ?z = "sizes ! t" and ?a = "P + i * sizes ! t" and ?v = "P + (i - 1) * sizes ! t"
  note z = size_facts [OF assms(3)]
  have "Suc i * ?z \<le> 4096 div ?z * ?z" using Suc.prems(3) by (intro mult_le_mono1) simp
  then have a: "i * ?z + ?z \<le> 4096" using z(4) by simp
  have mp: "mapped m ?a 4" by (rule mapped_sub [OF Suc.prems(1)]) (use a z(1) in linarith)
  have al: "?a mod 4 = 0" using assms(2) z(3) by (metis mod_add_eq mod_mult_right_eq mult_0_right add_0 mod_0)
  have le: "(i - 1) * ?z + ?z \<le> i * ?z" using Suc.prems(2) by (cases i) simp_all
  have u: "u32 (int P + int (i * ?z)) = ?a" "u32 (int P + int ((i - 1) * ?z)) = ?v"
    using a le assms(4) by (intro u32_sum; linarith)+
  let ?m = "put m ?a (be32 ?v)"
  have w: "within P (P + 4096) m ?m" by (rule within_put) (use a z(1) in auto)
  have ch: "chained P ?z (Suc i) ?m"
    by (rule chained_store) (use Suc.prems assms(2,4) z mp a in auto)
  from Suc.IH [OF within_mapped [OF w Suc.prems(1)] _ _ ch] Suc.prems(3)
  obtain m' where "chain_blocks (Suc i) c P ?z ?m = Some m'" "chained P ?z (4096 div ?z) m'" "within P (P + 4096) ?m m'" by auto
  moreover have "?a \<noteq> ?v" using le z(1) by linarith
  ultimately show ?case using stw_eq [OF al mp] u within_trans [OF w] by (auto simp: Let_def)
qed

definition all_blocks :: "nat \<Rightarrow> nat \<Rightarrow> nat \<Rightarrow> nat list" where
  "all_blocks P z n = rev (map (\<lambda>k. P + k * z) [0..<n])"

lemma fchain_all_blocks:
  assumes "chained P z n m" and "0 < P" and "k \<le> n"
  shows "fchain m (if k = 0 then 0 else P + (k - 1) * z) (all_blocks P z k)"
  using assms(3)
proof (induction k)
  case 0
  then show ?case by (simp add: all_blocks_def)
next
  case (Suc k)
  then have "ldw m (P + k * z) = Some (if k = 0 then 0 else P + (k - 1) * z)" using assms(1) by (simp add: chained_def)
  with Suc assms(2) show ?case by (simp add: all_blocks_def)
qed

lemma all_blocks_facts:
  assumes "PR_BLOCKTYPE r < 8" and "PR_PAGEADDR r = P" and "sizes ! PR_BLOCKTYPE r = z"
  shows "distinct (all_blocks P z (4096 div z))" "set (all_blocks P z (4096 div z)) = {a. slot r a}" "length (all_blocks P z (4096 div z)) = 4096 div z"
    "head (all_blocks P z (4096 div z)) = P + (4096 div z - 1) * z"
proof -
  note zf = size_facts [OF assms(1), unfolded assms(3)]
  show "distinct (all_blocks P z (4096 div z))" using zf(1) by (auto simp: all_blocks_def distinct_map inj_on_def)
  show "set (all_blocks P z (4096 div z)) = {a. slot r a}"
    unfolding slots_image [OF assms(1)] assms(2,3) by (simp add: all_blocks_def atLeast0LessThan)
  show "length (all_blocks P z (4096 div z)) = 4096 div z" by (simp add: all_blocks_def)
  have "4096 div z = Suc (4096 div z - 1)" using zf(5) by simp
  then have "[0..<4096 div z] = [0..<4096 div z - 1] @ [4096 div z - 1]" by (metis upt_Suc_append zero_le)
  then show "head (all_blocks P z (4096 div z)) = P + (4096 div z - 1) * z" by (simp add: all_blocks_def)
qed

lemma page_ok_below:
  assumes "page_ok m fp r fs" and "within P (P + 4096) m m'" and "MIPS_KSEG0 + fp \<le> P" and "fp \<le> fp'"
  shows "page_ok m' fp' r fs"
proof (rule page_ok_cong [OF assms(1,4)])
  note Q = page_okD [OF assms(1)]
  fix x assume "x \<in> set fs"
  note B = slot_bounds [OF Q(5) [OF this] Q(1)] and z = size_facts(1) [OF Q(1)]
  show "ldw m' x = ldw m x" by (rule within_ldw [OF assms(2)]) (use B z Q(3) assms(3) in linarith)
qed

lemma pages_ok_push:
  assumes "pages_ok s ps F" and "t < 8" and "p < 256" and "p \<notin> set ps"
    and "pagerefs s2 ! p = r" and "\<And>q. q \<in> set ps \<Longrightarrow> pagerefs s2 ! q = pagerefs s ! q"
    and "PR_BLOCKTYPE r = t" and "next_samesize r = sizebases s ! t" and "next_all r = allbase s"
    and "PR_PAGEADDR r \<notin> (\<lambda>p. PR_PAGEADDR (pagerefs s ! p)) ` set ps" and "ram_ok s2"
    and "page_ok (core s2) (firstpaddr s2) r fs" and "\<And>q. q \<in> set ps \<Longrightarrow> page_ok (core s2) (firstpaddr s2) (pagerefs s ! q) (F q)"
    and "length (pagerefs s2) = 256" and "length (pagerefs_inuse s2) = 8" and "sizebases s2 = (sizebases s)[t := Ptr p]" and "allbase s2 = Ptr p"
  shows "pages_ok s2 (p # ps) (F(p := fs))"
proof -
  note Q = pages_okD [OF assms(1)]
  have "plist (na s2) (allbase s) ps = plist (na s) (allbase s) ps" by (rule plist_cong) (simp add: assms(6))
  then have a: "plist (na s2) (allbase s2) (p # ps)" using Q(7) assms(5,9,17) by simp
  have fl: "filter (\<lambda>q. PR_BLOCKTYPE (pagerefs s2 ! q) = u) ps = filter (\<lambda>q. PR_BLOCKTYPE (pagerefs s ! q) = u) ps" for u
    by (rule filter_cong) (simp_all add: assms(6))
  have sm: "plist (ns s2) (sizebases s2 ! u) (filter (\<lambda>q. PR_BLOCKTYPE (pagerefs s2 ! q) = u) (p # ps))" if "u < 8" for u
  proof -
    have "plist (ns s2) (sizebases s ! u) (filter (\<lambda>q. PR_BLOCKTYPE (pagerefs s ! q) = u) ps)
        = plist (ns s) (sizebases s ! u) (filter (\<lambda>q. PR_BLOCKTYPE (pagerefs s ! q) = u) ps)"
      by (rule plist_cong) (simp add: assms(6))
    with Q(8) [OF that] have "plist (ns s2) (sizebases s ! u) (filter (\<lambda>q. PR_BLOCKTYPE (pagerefs s2 ! q) = u) ps)" unfolding fl by simp
    then show ?thesis using assms(2,5,7,8,16) Q(4) that by (cases "u = t") auto
  qed
  have "inj_on (\<lambda>p. PR_PAGEADDR (pagerefs s2 ! p)) (set ps) = inj_on (\<lambda>p. PR_PAGEADDR (pagerefs s ! p)) (set ps)"
    by (rule inj_on_cong) (simp add: assms(6))
  moreover have "(\<lambda>p. PR_PAGEADDR (pagerefs s2 ! p)) ` set ps = (\<lambda>p. PR_PAGEADDR (pagerefs s ! p)) ` set ps"
    by (rule image_cong) (simp_all add: assms(6))
  ultimately have inj: "inj_on (\<lambda>p. PR_PAGEADDR (pagerefs s2 ! p)) (set (p # ps))" using Q(9) assms(4,5,10) by simp
  have "page_ok (core s2) (firstpaddr s2) (pagerefs s2 ! q) ((F(p := fs)) q)" if "q \<in> set (p # ps)" for q
    using that assms(4-6,12,13) by (cases "q = p") auto
  moreover have "set (p # ps) \<subseteq> {..<256}" "distinct (p # ps)" "length (sizebases s2) = 8" using Q(4-6) assms(3,4,16) by auto
  ultimately show ?thesis using a sm inj assms(11,14,15) unfolding pages_ok_def by blast
qed

text \<open>What a fresh page adds to a heap whose memory below \<open>P\<close> it leaves alone.\<close>

lemma fresh_page_spec:
  assumes "pages_ok s ps F" and "t < 8" and "p < 256" and "p \<notin> set ps" and "length ws = 8" and "P = MIPS_KSEG0 + firstpaddr s"
    and "s1 = s\<lparr>pagerefs_inuse := ws, firstpaddr := firstpaddr s + 4096\<rparr>" and "ram_ok s1"
  shows "\<exists>s2 x fs. fresh_page t p P s1 = Some s2 \<and> pages_ok s2 (p # ps) (F(p := x # fs))
    \<and> PR_PAGEADDR (pagerefs s2 ! p) = P \<and> PR_BLOCKTYPE (pagerefs s2 ! p) = t
    \<and> (\<forall>q \<in> set ps. pagerefs s2 ! q = pagerefs s ! q) \<and> pagerefs_inuse s2 = ws \<and> firstpaddr s2 = firstpaddr s + 4096
    \<and> within P (P + 4096) (core s) (core s2)"
proof -
  let ?z = "sizes ! t" and ?n = "4096 div (sizes ! t)"
  note Q = pages_okD [OF assms(1)] and z = size_facts [OF assms(2)]
  have r: "firstpaddr s mod 4096 = 0" "firstpaddr s + 4096 \<le> lastpaddr s" "lastpaddr s \<le> 532676608" "mapped (core s) MIPS_KSEG0 (lastpaddr s)"
      "4096 \<le> firstpaddr s"
    using assms(8) Q(1) by (auto simp: assms(7) ram_ok_def)
  have P: "P mod 4096 = 0" "P + 4096 \<le> 2684354560" "MIPS_KSEG0 + 4096 \<le> P"
  proof -
    show "P mod 4096 = 0" using mod_mult_self2 [of "firstpaddr s" 4096 524288] r(1) by (simp add: assms(6) MIPS_KSEG0_def add.commute)
  qed (use r(2,3,5) assms(6) in \<open>simp_all add: MIPS_KSEG0_def\<close>)
  have P4: "P mod 4 = 0" using mod_mod_cancel [of 4 4096 P] P(1) by simp
  have mp: "mapped (core s) P 4096" unfolding assms(6) by (rule mapped_sub [OF r(4,2)])
  have mp4: "mapped (core s) P 4" using mapped_sub [OF mp, of 0 4] by simp
  let ?m0 = "put (core s) P (be32 0)"
  have w0: "within P (P + 4096) (core s) ?m0" by (rule within_put) simp_all
  have "chained P ?z 1 ?m0" using ldw_put_same [OF P4 mp4, of 0] by (simp add: chained_def)
  from chain_blocks_spec [OF within_mapped [OF w0 mp] P4 assms(2) _ _ _ this, of "?n - 1"] P(2) z(5)
  obtain m where m: "chain_blocks 1 (?n - 1) P ?z ?m0 = Some m" "chained P ?z ?n m" "within P (P + 4096) ?m0 m" by auto
  have w: "within P (P + 4096) (core s) m" by (rule within_trans [OF w0 m(3)])
  define r' where "r' = (pagerefs s ! p)\<lparr>pageaddr_and_blocktype := MKPAB P t, nfree := ?n, freelist_offset := (?n - 1) * ?z,
    next_samesize := sizebases s ! t, next_all := allbase s\<rparr>"
  have "(P + t) mod 4096 = t" using P(1) assms(2) mod_add_left_eq [of P 4096 t] by simp
  then have pab: "PR_PAGEADDR r' = P" "PR_BLOCKTYPE r' = t"
    using P(1) assms(2) by (simp_all add: r'_def PR_PAGEADDR_def PR_BLOCKTYPE_def MKPAB_def PAGE_SIZE_def)
  define s2 where "s2 = s1\<lparr>core := m, pagerefs := (pagerefs s)[p := r'], sizebases := (sizebases s)[t := Ptr p], allbase := Ptr p\<rparr>"
  have off: "Suc (?n - 1) * ?z = 4096" using z(4,5) by simp
  then have o: "(?n - 1) * ?z + ?z = 4096" by simp
  have "u32 (int P + int ((?n - 1) * ?z)) = P + (?n - 1) * ?z" by (rule u32_sum) (use o P(2) in linarith)
  moreover have "u16 (int (P + (?n - 1) * ?z) - int P) = (?n - 1) * ?z" using o u16_id [of "int ((?n - 1) * ?z)"] by (simp del: of_nat_mult)
  ultimately have f: "fresh_page t p P s1 = Some s2"
    using m(1) stw_eq [OF P4 mp4] Q(2,4) assms(2,3)
    by (simp add: fresh_page_def assms(7) s2_def r'_def PAGE_SIZE_def Let_def)
  have A: "distinct (all_blocks P ?z ?n)" "set (all_blocks P ?z ?n) = {a. slot r' a}" "length (all_blocks P ?z ?n) = ?n"
      "head (all_blocks P ?z ?n) = P + (?n - 1) * ?z"
    using all_blocks_facts [of r' P ?z] assms(2) pab by simp_all
  have fc: "fchain m (P + (?n - 1) * ?z) (all_blocks P ?z ?n)"
    using fchain_all_blocks [OF m(2) _ order_refl] P(3) z(5) by simp
  have ne: "all_blocks P ?z ?n \<noteq> []" using A(3) z(5) by auto
  then obtain x fs where xf: "all_blocks P ?z ?n = x # fs" by (cases "all_blocks P ?z ?n") auto
  have pok: "page_ok m (firstpaddr s + 4096) r' (x # fs)"
  proof -
    have "nfree r' = ?n" "freelist_offset r' = (?n - 1) * ?z" by (simp_all add: r'_def)
    then show ?thesis using A fc pab assms(2,6) P(3) ne unfolding page_ok_def xf [symmetric] by auto
  qed
  have pr: "pagerefs s2 ! p = r'" "\<And>q. q \<in> set ps \<Longrightarrow> pagerefs s2 ! q = pagerefs s ! q"
    using assms(3,4) Q(2) by (auto simp: s2_def nth_list_update)
  have old: "page_ok m (firstpaddr s + 4096) (pagerefs s ! q) (F q)" if "q \<in> set ps" for q
    by (rule page_ok_below [OF Q(10) [OF that] w]) (simp_all add: assms(6))
  have "pages_ok s2 (p # ps) (F(p := x # fs))"
  proof (rule pages_ok_push [OF assms(1-4) pr])
    show "PR_BLOCKTYPE r' = t" "next_samesize r' = sizebases s ! t" "next_all r' = allbase s" using pab by (simp_all add: r'_def)
    show "PR_PAGEADDR r' \<notin> (\<lambda>p. PR_PAGEADDR (pagerefs s ! p)) ` set ps"
      using page_okD(3) [OF Q(10)] pab(1) assms(6) by fastforce
    show "ram_ok s2" using assms(8) within_mapped [OF w] by (simp add: s2_def ram_ok_def assms(7))
    show "page_ok (core s2) (firstpaddr s2) r' (x # fs)" "\<And>q. q \<in> set ps \<Longrightarrow> page_ok (core s2) (firstpaddr s2) (pagerefs s ! q) (F q)"
      using pok old by (simp_all add: s2_def assms(7))
  qed (simp_all add: s2_def assms(5,7) Q(2,4))
  moreover note pr
  moreover have "pagerefs_inuse s2 = ws" "firstpaddr s2 = firstpaddr s + 4096" "core s2 = m" by (simp_all add: s2_def assms(7))
  moreover note w
  ultimately show ?thesis using f pab by auto
qed

section \<open>Blocks in use\<close>

text \<open>A block as its address and the size asked for, on a page of blocks or on pages of its own.\<close>

definition small_live :: "'a kheap_scheme \<Rightarrow> nat list \<Rightarrow> (nat \<Rightarrow> nat list) \<Rightarrow> nat \<times> nat \<Rightarrow> bool" where
  "small_live s ps F b \<longleftrightarrow> (\<exists>p \<in> set ps. slot (pagerefs s ! p) (fst b) \<and> fst b \<notin> set (F p) \<and> snd b \<le> sizes ! PR_BLOCKTYPE (pagerefs s ! p))"

definition large_live :: "'a kheap_scheme \<Rightarrow> nat list \<Rightarrow> nat \<times> nat \<Rightarrow> bool" where
  "large_live s ps b \<longleftrightarrow> fst b mod 4096 = 0 \<and> MIPS_KSEG0 + 4096 \<le> fst b \<and> 0 < snd b \<and> fst b + snd b \<le> MIPS_KSEG0 + firstpaddr s
     \<and> (\<forall>p \<in> set ps. fst b + snd b \<le> PR_PAGEADDR (pagerefs s ! p) \<or> PR_PAGEADDR (pagerefs s ! p) + 4096 \<le> fst b)"

text \<open>The bytes of a block; a block of size 0 still has an address of its own.\<close>

definition extent :: "nat \<times> nat \<Rightarrow> nat set" where
  "extent b = {fst b..<fst b + max 1 (snd b)}"

definition live_ok :: "'a kheap_scheme \<Rightarrow> nat list \<Rightarrow> (nat \<Rightarrow> nat list) \<Rightarrow> (nat \<times> nat) set \<Rightarrow> bool" where
  "live_ok s ps F L \<longleftrightarrow> (\<forall>b \<in> L. small_live s ps F b \<or> large_live s ps b) \<and> (\<forall>b \<in> L. \<forall>c \<in> L. b \<noteq> c \<longrightarrow> extent b \<inter> extent c = {})"

definition heap_inv :: "'a kheap_scheme \<Rightarrow> (nat \<times> nat) set \<Rightarrow> bool" where
  "heap_inv s L \<longleftrightarrow> (\<exists>ps F. heap_ok s ps F \<and> live_ok s ps F L)"

text \<open>The step from one heap to another that takes the block \<open>x\<close> of the page \<open>p\<close>.\<close>

definition took :: "'a kheap_scheme \<Rightarrow> nat list \<Rightarrow> (nat \<Rightarrow> nat list) \<Rightarrow> 'a kheap_scheme \<Rightarrow> nat list \<Rightarrow> (nat \<Rightarrow> nat list) \<Rightarrow> nat \<Rightarrow> nat \<Rightarrow> bool" where
  "took s ps F s' ps' F' p x \<longleftrightarrow> heap_ok s' ps' F' \<and> m_spl s' = m_spl s \<and> set ps \<subseteq> set ps' \<and> firstpaddr s \<le> firstpaddr s'
     \<and> (\<forall>q \<in> set ps. pageaddr_and_blocktype (pagerefs s' ! q) = pageaddr_and_blocktype (pagerefs s ! q) \<and> set (F' q) \<subseteq> set (F q))
     \<and> (\<forall>q \<in> set ps' - set ps. MIPS_KSEG0 + firstpaddr s \<le> PR_PAGEADDR (pagerefs s' ! q))
     \<and> (\<forall>y < MIPS_KSEG0 + firstpaddr s. core s' y = core s y)
     \<and> p \<in> set ps' \<and> slot (pagerefs s' ! p) x \<and> x \<notin> set (F' p) \<and> (p \<in> set ps \<longrightarrow> x \<in> set (F p))"

lemma pab_cong:
  assumes "pageaddr_and_blocktype r' = pageaddr_and_blocktype r"
  shows "PR_PAGEADDR r' = PR_PAGEADDR r" "PR_BLOCKTYPE r' = PR_BLOCKTYPE r" "slot r' = slot r"
  using assms by (simp_all add: PR_PAGEADDR_def PR_BLOCKTYPE_def slot_def fun_eq_iff)

lemma extent_sep: "fst b + max 1 (snd b) \<le> fst c \<or> fst c + max 1 (snd c) \<le> fst b \<Longrightarrow> extent b \<inter> extent c = {}"
  by (auto simp: extent_def)

lemma took_small:
  assumes "took s ps F s' ps' F' p x" and "small_live s ps F b"
  shows "small_live s' ps' F' b"
proof -
  from assms(2) obtain q where q: "q \<in> set ps" "slot (pagerefs s ! q) (fst b)" "fst b \<notin> set (F q)" "snd b \<le> sizes ! PR_BLOCKTYPE (pagerefs s ! q)"
    by (auto simp: small_live_def)
  have "pageaddr_and_blocktype (pagerefs s' ! q) = pageaddr_and_blocktype (pagerefs s ! q)" "q \<in> set ps'" "set (F' q) \<subseteq> set (F q)"
    using assms(1) q(1) by (auto simp: took_def)
  then show ?thesis using q pab_cong [of "pagerefs s' ! q" "pagerefs s ! q"] unfolding small_live_def by (intro bexI [of _ q]) auto
qed

lemma took_large:
  assumes "took s ps F s' ps' F' p x" and "large_live s ps b"
  shows "large_live s' ps' b"
proof -
  have b: "fst b + snd b \<le> MIPS_KSEG0 + firstpaddr s" using assms(2) by (simp add: large_live_def)
  have "fst b + snd b \<le> PR_PAGEADDR (pagerefs s' ! q) \<or> PR_PAGEADDR (pagerefs s' ! q) + 4096 \<le> fst b" if "q \<in> set ps'" for q
  proof (cases "q \<in> set ps")
    case True
    with assms(1) have "pageaddr_and_blocktype (pagerefs s' ! q) = pageaddr_and_blocktype (pagerefs s ! q)" by (auto simp: took_def)
    from pab_cong(1) [OF this] True assms(2) show ?thesis by (simp add: large_live_def)
  next
    case False
    with assms(1) that have "MIPS_KSEG0 + firstpaddr s \<le> PR_PAGEADDR (pagerefs s' ! q)" by (simp add: took_def)
    with b show ?thesis by linarith
  qed
  moreover have "firstpaddr s \<le> firstpaddr s'" using assms(1) by (simp add: took_def)
  ultimately show ?thesis using assms(2) by (auto simp: large_live_def)
qed

lemma took_fresh:
  assumes "took s ps F s' ps' F' p x" and "small_live s ps F b \<or> large_live s ps b" and "z \<le> sizes ! PR_BLOCKTYPE (pagerefs s' ! p)"
  shows "extent b \<inter> extent (x, z) = {}"
proof -
  have ok: "pages_ok s' ps' F'" and p: "p \<in> set ps'" "slot (pagerefs s' ! p) x" using assms(1) by (auto simp: took_def heap_ok_def)
  let ?r = "pagerefs s' ! p"
  have t: "PR_BLOCKTYPE ?r < 8" using page_okD(1) [OF pages_okD(10) [OF ok p(1)]] .
  note B = slot_bounds [OF p(2) t] and Z = size_facts(1) [OF t]
  from assms(2) show ?thesis
  proof
    assume "small_live s ps F b"
    then obtain q where q: "q \<in> set ps" "slot (pagerefs s ! q) (fst b)" "fst b \<notin> set (F q)" "snd b \<le> sizes ! PR_BLOCKTYPE (pagerefs s ! q)"
      by (auto simp: small_live_def)
    have e: "pageaddr_and_blocktype (pagerefs s' ! q) = pageaddr_and_blocktype (pagerefs s ! q)" "q \<in> set ps'"
      using assms(1) q(1) by (auto simp: took_def)
    let ?q = "pagerefs s' ! q"
    have sq: "slot ?q (fst b)" "snd b \<le> sizes ! PR_BLOCKTYPE ?q" using q pab_cong [OF e(1)] by simp_all
    have tq: "PR_BLOCKTYPE ?q < 8" using page_okD(1) [OF pages_okD(10) [OF ok e(2)]] .
    note Bq = slot_bounds [OF sq(1) tq] and Zq = size_facts(1) [OF tq]
    show ?thesis
    proof (cases "q = p")
      case True
      then have "fst b \<noteq> x" using assms(1) q by (auto simp: took_def)
      with slot_sep [of ?r "fst b" x] sq p(2) t True assms(3) Z show ?thesis by (intro extent_sep) auto
    next
      case False
      from other_page [OF ok e(2) p(1)] False sq(2) B Bq Z Zq assms(3) show ?thesis by (intro extent_sep) auto
    qed
  next
    assume "large_live s ps b"
    from took_large [OF assms(1) this] p(1) have "fst b + snd b \<le> PR_PAGEADDR ?r \<or> PR_PAGEADDR ?r + 4096 \<le> fst b" "0 < snd b"
      by (auto simp: large_live_def)
    with B Z assms(3) show ?thesis by (intro extent_sep) auto
  qed
qed

lemma took_live:
  assumes "took s ps F s' ps' F' p x" and "live_ok s ps F L" and "z \<le> sizes ! PR_BLOCKTYPE (pagerefs s' ! p)"
  shows "live_ok s' ps' F' (insert (x, z) L)"
proof -
  have "small_live s' ps' F' (x, z)" using assms(1,3) by (auto simp: small_live_def took_def)
  moreover have "small_live s' ps' F' b \<or> large_live s' ps' b" if "b \<in> L" for b
    using that assms(2) took_small [OF assms(1)] took_large [OF assms(1)] unfolding live_ok_def by blast
  moreover have "extent b \<inter> extent (x, z) = {}" if "b \<in> L" for b
    by (rule took_fresh [OF assms(1) _ assms(3)]) (use that assms(2) in \<open>auto simp: live_ok_def\<close>)
  moreover have "extent b \<inter> extent c = {}" if "b \<in> L" "c \<in> L" "b \<noteq> c" for b c using that assms(2) unfolding live_ok_def by blast
  ultimately show ?thesis unfolding live_ok_def by (simp add: Int_commute)
qed

section \<open>Allocation keeps the heap\<close>

lemma blocktype_Some:
  assumes "sz \<le> 2048"
  shows "\<exists>t < 8. blocktype sz = Some t \<and> sz \<le> sizes ! t"
proof -
  have "\<exists>t. blocktype_from i xs sz = Some (i + t) \<and> t < length xs \<and> sz \<le> xs ! t" if "\<exists>x \<in> set xs. sz \<le> x" for i xs
    using that
  proof (induction xs arbitrary: i)
    case (Cons x xs)
    show ?case
    proof (cases "sz \<le> x")
      case True
      then show ?thesis by (intro exI [of _ 0]) simp
    next
      case False
      with Cons.prems Cons.IH [of "Suc i"] obtain t where "blocktype_from (Suc i) xs sz = Some (Suc i + t)" "t < length xs" "sz \<le> xs ! t" by auto
      with False show ?thesis by (intro exI [of _ "Suc t"]) simp
    qed
  qed simp
  from this [of sizes 0] assms show ?thesis by (auto simp: blocktype_def) (simp add: sizes_def)
qed

lemma doalloc_took:
  assumes "pages_ok s1 ps1 F1" and "inuse (pagerefs_inuse s1) = set ps1" and "p \<in> set ps1" and "F1 p = x # fs"
    and "set ps \<subseteq> set ps1" and "firstpaddr s \<le> firstpaddr s1"
    and "\<forall>q \<in> set ps. pageaddr_and_blocktype (pagerefs s1 ! q) = pageaddr_and_blocktype (pagerefs s ! q) \<and> F1 q = F q"
    and "\<forall>q \<in> set ps1 - set ps. MIPS_KSEG0 + firstpaddr s \<le> PR_PAGEADDR (pagerefs s1 ! q)"
    and "\<forall>y < MIPS_KSEG0 + firstpaddr s. core s1 y = core s y"
  shows "\<exists>s'. doalloc (m_spl s) p s1 = Some (Ptr x, s') \<and> took s ps F s' ps1 (F1(p := fs)) p x
    \<and> PR_BLOCKTYPE (pagerefs s' ! p) = PR_BLOCKTYPE (pagerefs s1 ! p)"
proof -
  let ?s = "s1\<lparr>pagerefs := (pagerefs s1)[p := taken_block (pagerefs s1 ! p) fs], m_spl := m_spl s\<rparr>"
  note D = doalloc_spec [OF assms(1,3,4), of "m_spl s"]
  note Q = page_okD [OF pages_okD(10) [OF assms(1,3)]]
  have pab: "pageaddr_and_blocktype (pagerefs ?s ! q) = pageaddr_and_blocktype (pagerefs s1 ! q)" for q
    using pages_okD(2,6) [OF assms(1)] assms(3) by (auto simp: nth_list_update taken_block_def)
  have "slot (pagerefs ?s ! p) x" "x \<notin> set fs" using Q(4,5) assms(4) pab_cong(3) [OF pab] by auto
  then have "took s ps F ?s ps1 (F1(p := fs)) p x"
    unfolding took_def heap_ok_def using D(2) assms(2-9) pab pab_cong(1) [OF pab] by (auto split: if_splits)
  with D(1) pab_cong(2) [OF pab, of p] show ?thesis by blast
qed

lemma subpage_kmalloc_cases:
  assumes "heap_ok s ps F" and "sz < 2048"
  obtains (none) s' where "subpage_kmalloc sz s = Some (NULL, s')" "heap_ok s' ps F" "pagerefs s' = pagerefs s" "firstpaddr s' = firstpaddr s"
      "m_spl s' = m_spl s" "core s' = core s" "inuse (pagerefs_inuse s) = {..<256} \<or> lastpaddr s < firstpaddr s + 4096"
    | (some) s' ps' F' p x where "subpage_kmalloc sz s = Some (Ptr x, s')" "took s ps F s' ps' F' p x" "sz \<le> sizes ! PR_BLOCKTYPE (pagerefs s' ! p)"
proof -
  have ok: "pages_ok s ps F" "inuse (pagerefs_inuse s) = set ps" using assms(1) by (simp_all add: heap_ok_def)
  note P = pages_okD [OF ok(1)]
  from blocktype_Some [of sz] assms(2) obtain t where t: "t < 8" "blocktype sz = Some t" "sz \<le> sizes ! t" by auto
  let ?s1 = "s\<lparr>m_spl := 15\<rparr>"
  have ok1: "pages_ok ?s1 ps F" using ok(1) by simp
  from ok1 t(1) show thesis
  proof (cases rule: find_page_cases)
    case (some p x fs)
    from doalloc_took [of ?s1 ps F p x fs ps s F] ok1 ok(2) some
    obtain s' where s': "doalloc (m_spl s) p ?s1 = Some (Ptr x, s')" "took s ps F s' ps (F(p := fs)) p x"
        "PR_BLOCKTYPE (pagerefs s' ! p) = PR_BLOCKTYPE (pagerefs ?s1 ! p)" by auto
    moreover have "subpage_kmalloc sz s = doalloc (m_spl s) p ?s1"
      using t some(1) P(4) by (simp add: subpage_kmalloc_def spl_high_def)
    ultimately show thesis using that(2) [of x s' ps "F(p := fs)" p] t(3) some(3) by simp
  next
    case none
    have e: "subpage_kmalloc sz s = do {
         (new, s1) \<leftarrow> allocpageref ?s1;
         case new of
           NULL \<Rightarrow> Some (NULL, spl_x (m_spl s) s1)
         | Ptr p \<Rightarrow> (let (prpage, s1) = alloc_kpages 1 s1 in
             if prpage = 0 then do { s1 \<leftarrow> freepageref p s1; Some (NULL, spl_x (m_spl s) s1) }
             else do { s1 \<leftarrow> fresh_page t p prpage s1; doalloc (m_spl s) p s1 })
       }"
      using t none P(4) by (simp add: subpage_kmalloc_def spl_high_def)
    have "length (pagerefs_inuse ?s1) = 8" using P(3) by simp
    then show thesis
    proof (cases rule: allocpageref_cases)
      case none
      then show thesis using e assms(1) by (intro that(1) [of "?s1\<lparr>m_spl := m_spl s\<rparr>"]) (simp_all add: spl_x_def)
    next
      case (some p ws)
      let ?s2 = "?s1\<lparr>pagerefs_inuse := ws\<rparr>"
      have pn: "p \<notin> set ps" using some(3) ok(2) by simp
      have "ram_ok ?s2" "(0::int) \<le> 1" "(1::int) \<le> 524288" using P(1) by (simp_all add: ram_ok_def)
      then show thesis
      proof (cases rule: alloc_kpages_cases)
        case none
        have "p \<in> inuse (pagerefs_inuse ?s2)" using some(4) by simp
        with freepageref_eq [of ?s2 p] some(5) obtain ws' where f: "freepageref p ?s2 = Some (?s2\<lparr>pagerefs_inuse := ws'\<rparr>)"
            "inuse ws' = inuse ws - {p}" "length ws' = 8" by auto
        have i: "inuse ws' = set ps" using f(2) some(4) ok(2) pn by auto
        have "heap_ok (s\<lparr>pagerefs_inuse := ws'\<rparr>) ps F" using ok(1) f(3) i by (simp add: heap_ok_def pages_ok_def ram_ok_def)
        moreover have "subpage_kmalloc sz s = Some (NULL, (s\<lparr>pagerefs_inuse := ws'\<rparr>)\<lparr>m_spl := m_spl s\<rparr>)"
          using e some(1) none f(1) by (simp add: spl_x_def)
        moreover have "lastpaddr s < firstpaddr s + 4096" using none by simp
        ultimately show thesis by (intro that(1) [of "s\<lparr>pagerefs_inuse := ws'\<rparr>"]) simp_all
      next
        case al: some
        let ?P = "MIPS_KSEG0 + firstpaddr s" and ?s3 = "?s2\<lparr>firstpaddr := firstpaddr s + 4096\<rparr>"
        have "ram_ok ?s3" using al(3) by simp
        from fresh_page_spec [OF ok1 t(1) some(2) pn some(5) refl _ this]
        obtain s4 x fs where f: "fresh_page t p ?P ?s3 = Some s4" "pages_ok s4 (p # ps) (F(p := x # fs))"
          "PR_PAGEADDR (pagerefs s4 ! p) = ?P" "PR_BLOCKTYPE (pagerefs s4 ! p) = t"
          "\<forall>q \<in> set ps. pagerefs s4 ! q = pagerefs s ! q" "pagerefs_inuse s4 = ws" "firstpaddr s4 = firstpaddr s + 4096" "within ?P (?P + 4096) (core s) (core s4)" by auto
        have "inuse (pagerefs_inuse s4) = set (p # ps)" using f(6) some(4) ok(2) by simp
        moreover have "\<forall>q \<in> set ps. pageaddr_and_blocktype (pagerefs s4 ! q) = pageaddr_and_blocktype (pagerefs s ! q) \<and> (F(p := x # fs)) q = F q"
            "\<forall>q \<in> set (p # ps) - set ps. MIPS_KSEG0 + firstpaddr s \<le> PR_PAGEADDR (pagerefs s4 ! q)"
            "set ps \<subseteq> set (p # ps)" "firstpaddr s \<le> firstpaddr s4" "p \<in> set (p # ps)" "(F(p := x # fs)) p = x # fs"
            "\<forall>y < MIPS_KSEG0 + firstpaddr s. core s4 y = core s y"
          using f(3,5,7,8) pn by (auto simp: within_def)
        ultimately have "\<exists>s'. doalloc (m_spl s) p s4 = Some (Ptr x, s') \<and> took s ps F s' (p # ps) ((F(p := x # fs))(p := fs)) p x
            \<and> PR_BLOCKTYPE (pagerefs s' ! p) = PR_BLOCKTYPE (pagerefs s4 ! p)"
          using doalloc_took [OF f(2)] by blast
        then obtain s' where s': "doalloc (m_spl s) p s4 = Some (Ptr x, s')" "took s ps F s' (p # ps) ((F(p := x # fs))(p := fs)) p x"
            "PR_BLOCKTYPE (pagerefs s' ! p) = PR_BLOCKTYPE (pagerefs s4 ! p)" by blast
        have "subpage_kmalloc sz s = Some (Ptr x, s')" using e some(1) al(1) f(1) s'(1) by (simp add: MIPS_KSEG0_def)
        from that(2) [OF this s'(2)] t(3) f(4) s'(3) show thesis by simp
      qed
    qed
  qed
qed

text \<open>Neither operation changes the bytes of a block that stays in use.\<close>

lemma live_extent:
  assumes "pages_ok s ps F" and "small_live s ps F b \<or> large_live s ps b" and "x \<in> extent b"
  shows "x < MIPS_KSEG0 + firstpaddr s"
  using assms(2)
proof
  assume "small_live s ps F b"
  then obtain q where q: "q \<in> set ps" "slot (pagerefs s ! q) (fst b)" "snd b \<le> sizes ! PR_BLOCKTYPE (pagerefs s ! q)" by (auto simp: small_live_def)
  note Q = page_okD [OF pages_okD(10) [OF assms(1) q(1)]]
  from slot_bounds [OF q(2) Q(1)] size_facts(1) [OF Q(1)] Q(3) q(3) assms(3) show ?thesis by (auto simp: extent_def)
next
  assume "large_live s ps b"
  then show ?thesis using assms(3) by (auto simp: large_live_def extent_def)
qed

text \<open>The reasons for a request to fail: no page reference is left for a page of small blocks, or too few
  pages are.\<close>

definition no_room :: "nat \<Rightarrow> 'a kheap_scheme \<Rightarrow> bool" where
  "no_room sz s \<longleftrightarrow> sz < 2048 \<and> inuse (pagerefs_inuse s) = {..<256} \<or> lastpaddr s < firstpaddr s + 4096 * max 1 ((sz + 4095) div 4096)"

text \<open>A large request goes to the pages as it is.\<close>

lemma kmalloc_pages:
  assumes "2048 \<le> sz" and "sz \<le> 2147483648" and "n = (sz + 4095) div 4096"
  shows "kmalloc sz s = (let (address, s) = alloc_kpages (int n) s in if address = 0 then Some (NULL, s) else Some (Ptr address, s))"
    "n \<le> 524288" "0 < n" "sz \<le> 4096 * n"
proof -
  have u: "u32 (int sz + int PAGE_SIZE - 1) = sz + 4095" using u32_sum [of sz 4095] assms(2) by (simp add: PAGE_SIZE_def algebra_simps)
  show "n \<le> 524288" "0 < n" "sz \<le> 4096 * n" using assms by (auto simp: div_greater_zero_iff)
  then have "s32 (int n) = int n" by (simp add: s32_id INT_MAX_def)
  then show "kmalloc sz s = (let (address, s) = alloc_kpages (int n) s in if address = 0 then Some (NULL, s) else Some (Ptr address, s))"
    using assms u by (simp add: kmalloc_def LARGEST_SUBPAGE_SIZE_def PAGE_SIZE_def Let_def)
qed

lemma kmalloc_large:
  assumes "heap_ok s ps F" and "live_ok s ps F L" and "2048 \<le> sz" and "sz \<le> 2147483648"
  shows "\<exists>r s'. kmalloc sz s = Some (r, s') \<and> m_spl s' = m_spl s
    \<and> (\<forall>b \<in> L. \<forall>x \<in> extent b. core s' x = core s x)
    \<and> (r = NULL \<and> heap_inv s' L \<and> no_room sz s \<or> (\<exists>x. r = Ptr x \<and> heap_inv s' (insert (x, sz) L) \<and> (\<forall>b \<in> L. extent b \<inter> extent (x, sz) = {})))"
proof -
  have ok: "pages_ok s ps F" "inuse (pagerefs_inuse s) = set ps" using assms(1) by (simp_all add: heap_ok_def)
  note P = pages_okD [OF ok(1)]
  define n where "n = (sz + 4095) div 4096"
  note e = kmalloc_pages(1) [OF assms(3,4) n_def, of s] and n = kmalloc_pages(2-4) [OF assms(3,4) n_def]
  have "0 \<le> int n" "int n \<le> 524288" using n(1) by simp_all
  with P(1) show ?thesis
  proof (cases rule: alloc_kpages_cases)
    case none
    have "max 1 ((sz + 4095) div 4096) = n" using n(2) by (simp add: n_def)
    with none have "no_room sz s" by (simp add: no_room_def)
    with none e assms(1,2) show ?thesis by (auto simp: heap_inv_def)
  next
    case some
    let ?x = "MIPS_KSEG0 + firstpaddr s" and ?s = "s\<lparr>firstpaddr := firstpaddr s + 4096 * n\<rparr>"
    have fp: "page_ok (core s) (firstpaddr s + 4096 * n) (pagerefs s ! p) (F p)" if "p \<in> set ps" for p
      by (rule page_ok_cong [OF P(10) [OF that]]) simp_all
    have hk: "heap_ok ?s ps F" using ok some(3) fp by (simp add: heap_ok_def pages_ok_def)
    have old: "small_live ?s ps F b \<or> large_live ?s ps b" "extent b \<inter> extent (?x, sz) = {}" if "b \<in> L" for b
    proof -
      from that assms(2) have b: "small_live s ps F b \<or> large_live s ps b" by (simp add: live_ok_def)
      then show "small_live ?s ps F b \<or> large_live ?s ps b" by (auto simp: small_live_def large_live_def)
      from b have "fst b + max 1 (snd b) \<le> ?x"
      proof
        assume "small_live s ps F b"
        then obtain q where q: "q \<in> set ps" "slot (pagerefs s ! q) (fst b)" "snd b \<le> sizes ! PR_BLOCKTYPE (pagerefs s ! q)" by (auto simp: small_live_def)
        note Q = page_okD [OF P(10) [OF q(1)]]
        from slot_bounds [OF q(2) Q(1)] size_facts(1) [OF Q(1)] Q(3) q(3) show ?thesis by linarith
      next
        assume "large_live s ps b"
        then show ?thesis by (auto simp: large_live_def)
      qed
      then show "extent b \<inter> extent (?x, sz) = {}" by (intro extent_sep) simp
    qed
    have "large_live ?s ps (?x, sz)"
      using P(1) n(3) assms(3) page_okD(3) [OF P(10)] mod_mult_self2 [of "firstpaddr s" 4096 524288]
      by (auto simp: large_live_def ram_ok_def MIPS_KSEG0_def add.commute)
    with old assms(2) have "live_ok ?s ps F (insert (?x, sz) L)" unfolding live_ok_def by (simp add: Int_commute)
    with hk have "heap_inv ?s (insert (?x, sz) L)" unfolding heap_inv_def by blast
    moreover have "\<forall>b \<in> L. extent b \<inter> extent (?x, sz) = {}" using old(2) by blast
    ultimately show ?thesis using e some(1) by (intro exI [of _ "Ptr ?x"] exI [of _ ?s]) (simp add: MIPS_KSEG0_def)
  qed
qed

lemma kmalloc_inv:
  assumes "heap_inv s L" and "sz \<le> 2147483648"
  shows "\<exists>r s'. kmalloc sz s = Some (r, s') \<and> m_spl s' = m_spl s
    \<and> (\<forall>b \<in> L. \<forall>x \<in> extent b. core s' x = core s x)
    \<and> (r = NULL \<and> heap_inv s' L \<and> no_room sz s \<or> (\<exists>x. r = Ptr x \<and> heap_inv s' (insert (x, sz) L) \<and> (\<forall>b \<in> L. extent b \<inter> extent (x, sz) = {})))"
proof -
  from assms(1) obtain ps F where h: "heap_ok s ps F" "live_ok s ps F L" by (auto simp: heap_inv_def)
  show ?thesis
  proof (cases "2048 \<le> sz")
    case True
    from kmalloc_large [OF h True assms(2)] show ?thesis .
  next
    case False
    then have e: "kmalloc sz s = subpage_kmalloc sz s" "sz < 2048" by (simp_all add: kmalloc_def LARGEST_SUBPAGE_SIZE_def)
    from h(1) e(2) show ?thesis
    proof (cases rule: subpage_kmalloc_cases)
      case (none s')
      have "live_ok s' ps F L" using h(2) none(3,4) by (simp add: live_ok_def small_live_def large_live_def)
      moreover have "no_room sz s" using none(7) e(2) by (auto simp: no_room_def max_def)
      ultimately show ?thesis using none e by (auto simp: heap_inv_def)
    next
      case (some s' ps' F' p x)
      from took_live [OF some(2) h(2) some(3)] some(2) have "heap_inv s' (insert (x, sz) L)" by (auto simp: heap_inv_def took_def)
      moreover have "core s' y = core s y" if "b \<in> L" "y \<in> extent b" for b y
      proof -
        have "small_live s ps F b \<or> large_live s ps b" using that(1) h(2) unfolding live_ok_def by blast
        from live_extent [OF _ this that(2)] h(1) some(2) show ?thesis by (auto simp: heap_ok_def took_def)
      qed
      moreover have "extent b \<inter> extent (x, sz) = {}" if "b \<in> L" for b
        by (rule took_fresh [OF some(2) _ some(3)]) (use that h(2) in \<open>auto simp: live_ok_def\<close>)
      moreover have "m_spl s' = m_spl s" using some(2) by (simp add: took_def)
      ultimately show ?thesis using some(1) e by (intro exI [of _ "Ptr x"] exI [of _ s']) simp
    qed
  qed
qed

section \<open>Release keeps the heap\<close>

lemma find_owner_eq:
  assumes "plist (na s) b qs" and "\<forall>q \<in> set qs. q < length (pagerefs s) \<and> PR_BLOCKTYPE (pagerefs s ! q) < 8
      \<and> PR_PAGEADDR (pagerefs s ! q) + 4096 < 4294967296"
  shows "find_owner a b s = Some (case find (\<lambda>q. PR_PAGEADDR (pagerefs s ! q) \<le> a \<and> a < PR_PAGEADDR (pagerefs s ! q) + 4096) qs of
      None \<Rightarrow> NULL | Some q \<Rightarrow> Ptr q)"
  using assms
proof (induction qs arbitrary: b)
  case Nil
  then show ?case by (subst find_owner.simps) simp
next
  case (Cons q qs)
  then show ?case by (subst find_owner.simps) (simp add: PAGE_SIZE_def u32_sum [of _ 4096, simplified])
qed

lemma find_owner_pages:
  assumes "pages_ok s ps F"
  shows "p \<in> set ps \<Longrightarrow> slot (pagerefs s ! p) a \<Longrightarrow> find_owner a (allbase s) s = Some (Ptr p)"
    "\<forall>p \<in> set ps. a < PR_PAGEADDR (pagerefs s ! p) \<or> PR_PAGEADDR (pagerefs s ! p) + 4096 \<le> a \<Longrightarrow> find_owner a (allbase s) s = Some NULL"
proof -
  note P = pages_okD [OF assms]
  let ?in = "\<lambda>q. PR_PAGEADDR (pagerefs s ! q) \<le> a \<and> a < PR_PAGEADDR (pagerefs s ! q) + 4096"
  have e: "find_owner a (allbase s) s = Some (case find ?in ps of None \<Rightarrow> NULL | Some q \<Rightarrow> Ptr q)"
  proof (rule find_owner_eq [OF P(7)], intro ballI conjI)
    fix q assume q: "q \<in> set ps"
    show "q < length (pagerefs s)" using P(2,6) q by simp
    show "PR_BLOCKTYPE (pagerefs s ! q) < 8" by (rule page_okD(1) [OF P(10) [OF q]])
    show "PR_PAGEADDR (pagerefs s ! q) + 4096 < 4294967296" using page_range(1) [OF assms q] by simp
  qed
  show "find_owner a (allbase s) s = Some (Ptr p)" if p: "p \<in> set ps" "slot (pagerefs s ! p) a"
  proof (cases "find ?in ps")
    case None
    then show ?thesis using p by (auto simp: find_None_iff slot_def)
  next
    case (Some q)
    then obtain i where "i < length ps" "q = ps ! i" "?in q" by (auto simp: find_Some_iff)
    then have q: "q \<in> set ps" "?in q" by auto
    have "?in p" using p(2) by (simp add: slot_def)
    then have "q = p" using other_page [OF assms q(1) p(1)] q(2) by (metis add_le_imp_le_left linorder_not_le order_trans le_less_trans)
    with e Some show ?thesis by simp
  qed
  show "find_owner a (allbase s) s = Some NULL" if "\<forall>p \<in> set ps. a < PR_PAGEADDR (pagerefs s ! p) \<or> PR_PAGEADDR (pagerefs s ! p) + 4096 \<le> a"
  proof -
    have "find ?in ps = None" using that by (auto simp: find_None_iff)
    with e show ?thesis by simp
  qed
qed

lemma split_once: "p \<in> set ps \<Longrightarrow> distinct ps \<Longrightarrow> \<exists>ys zs. ps = ys @ p # zs \<and> p \<notin> set ys \<and> p \<notin> set zs"
  by (metis distinct.simps(2) distinct_append not_distinct_conv_prefix split_list_first)

text \<open>Both removals leave the fields of the page references other than the links as they are.\<close>

definition same_refs :: "'a kheap_scheme \<Rightarrow> 'a kheap_scheme \<Rightarrow> bool" where
  "same_refs s s' \<longleftrightarrow> core s' = core s \<and> firstpaddr s' = firstpaddr s \<and> lastpaddr s' = lastpaddr s \<and> m_spl s' = m_spl s
     \<and> pagerefs_inuse s' = pagerefs_inuse s \<and> length (pagerefs s') = length (pagerefs s) \<and> length (sizebases s') = length (sizebases s)
     \<and> (\<forall>q. pageaddr_and_blocktype (pagerefs s' ! q) = pageaddr_and_blocktype (pagerefs s ! q)
            \<and> nfree (pagerefs s' ! q) = nfree (pagerefs s ! q) \<and> freelist_offset (pagerefs s' ! q) = freelist_offset (pagerefs s ! q))"

lemma same_refs_page: "same_refs s s' \<Longrightarrow> page_ok m fp (pagerefs s' ! q) fs = page_ok m fp (pagerefs s ! q) fs"
  using pab_cong [of "pagerefs s' ! q" "pagerefs s ! q"] by (simp add: same_refs_def page_ok_def)

lemma remove_same_spec:
  assumes "pages_ok s ps F" and "p \<in> set ps" and "t = PR_BLOCKTYPE (pagerefs s ! p)"
  shows "\<exists>s'. remove_same p t NULL (sizebases s ! t) s = Some s' \<and> same_refs s s' \<and> na s' = na s \<and> allbase s' = allbase s
    \<and> (\<forall>u < 8. plist (ns s') (sizebases s' ! u) (filter (\<lambda>q. PR_BLOCKTYPE (pagerefs s ! q) = u) (remove1 p ps)))"
proof -
  note P = pages_okD [OF assms(1)]
  have t: "t < 8" using page_okD(1) [OF P(10) [OF assms(2)]] assms(3) by simp
  from split_once [OF assms(2) P(5)] obtain ys zs where ps: "ps = ys @ p # zs" "p \<notin> set ys" "p \<notin> set zs" by blast
  let ?f = "\<lambda>u. filter (\<lambda>q. PR_BLOCKTYPE (pagerefs s ! q) = u)"
  have r1: "remove1 p ps = ys @ zs" using ps by (simp add: remove1_append)
  have l: "plist (ns s) (sizebases s ! t) (?f t ys @ p # ?f t zs)" using P(8) [OF t] assms(3) by (simp add: ps(1))
  have d: "distinct (?f t ys @ p # ?f t zs)" using P(5) ps by auto
  have other: "plist (ns s) (sizebases s ! u) (?f u (ys @ zs))" if "u < 8" "u \<noteq> t" for u using P(8) [OF that(1)] that(2) assms(3) by (simp add: ps(1))
  have e: "remove_same p t NULL (sizebases s ! t) s = (case (if ?f t ys = [] then NULL else Ptr (last (?f t ys))) of
      NULL \<Rightarrow> Some (s\<lparr>sizebases := (sizebases s)[t := ns s p]\<rparr>)
    | Ptr q \<Rightarrow> Some (s\<lparr>pagerefs := (pagerefs s)[q := (pagerefs s ! q)\<lparr>next_samesize := ns s p\<rparr>]\<rparr>))"
    by (rule remove_same_eq [OF l]) (use ps P(2,6) in auto)
  show ?thesis
  proof (cases "?f t ys = []")
    case True
    let ?s = "s\<lparr>sizebases := (sizebases s)[t := ns s p]\<rparr>"
    have "plist (ns s) (sizebases ?s ! u) (?f u (ys @ zs))" if "u < 8" for u
      using l True other [OF that] P(4) that t by (cases "u = t") auto
    with e True r1 show ?thesis by (intro exI [of _ ?s]) (simp add: same_refs_def)
  next
    case False
    let ?q = "last (?f t ys)"
    let ?s = "s\<lparr>pagerefs := (pagerefs s)[?q := (pagerefs s ! ?q)\<lparr>next_samesize := ns s p\<rparr>]\<rparr>"
    have q: "?q \<in> set (?f t ys)" by (rule last_in_set [OF False])
    then have qr: "?q < length (pagerefs s)" using P(2,6) ps(1) by auto
    then have n: "ns ?s = (ns s)(?q := ns s p)" by (auto simp: fun_eq_iff nth_list_update)
    have "plist (ns ?s) (sizebases s ! u) (?f u (ys @ zs))" if "u < 8" for u
    proof (cases "u = t")
      case True
      then show ?thesis unfolding n using plist_unlink [OF l d False] by simp
    next
      case False
      have "plist ((ns s)(?q := ns s p)) (sizebases s ! u) (?f u (ys @ zs)) = plist (ns s) (sizebases s ! u) (?f u (ys @ zs))"
        by (rule plist_cong) (use q False in auto)
      with other [OF that False] show ?thesis unfolding n by simp
    qed
    moreover have "na ?s = na s" using qr by (auto simp: fun_eq_iff nth_list_update)
    moreover have "same_refs s ?s" using qr by (auto simp: same_refs_def nth_list_update)
    ultimately show ?thesis using e False r1 by (intro exI [of _ ?s]) simp
  qed
qed

lemma remove_all_spec:
  assumes "plist (na s) (allbase s) ps" and "distinct ps" and "\<forall>q \<in> set ps. q < length (pagerefs s)" and "p \<in> set ps"
  shows "\<exists>s'. remove_all p NULL (allbase s) s = Some s' \<and> same_refs s s' \<and> ns s' = ns s \<and> sizebases s' = sizebases s
    \<and> plist (na s') (allbase s') (remove1 p ps)"
proof -
  from split_once [OF assms(4,2)] obtain ys zs where ps: "ps = ys @ p # zs" "p \<notin> set ys" "p \<notin> set zs" by blast
  have r1: "remove1 p ps = ys @ zs" using ps by (simp add: remove1_append)
  have l: "plist (na s) (allbase s) (ys @ p # zs)" "distinct (ys @ p # zs)" using assms(1,2) ps(1) by simp_all
  have e: "remove_all p NULL (allbase s) s = (case (if ys = [] then NULL else Ptr (last ys)) of
      NULL \<Rightarrow> Some (s\<lparr>allbase := na s p\<rparr>)
    | Ptr q \<Rightarrow> Some (s\<lparr>pagerefs := (pagerefs s)[q := (pagerefs s ! q)\<lparr>next_all := na s p\<rparr>]\<rparr>))"
    by (rule remove_all_eq [OF l(1) ps(2)]) (use assms(3) ps(1) in auto)
  show ?thesis
  proof (cases "ys = []")
    case True
    with e r1 l show ?thesis by (intro exI [of _ "s\<lparr>allbase := na s p\<rparr>"]) (simp add: same_refs_def)
  next
    case False
    let ?q = "last ys"
    let ?s = "s\<lparr>pagerefs := (pagerefs s)[?q := (pagerefs s ! ?q)\<lparr>next_all := na s p\<rparr>]\<rparr>"
    have qr: "?q < length (pagerefs s)" using last_in_set [OF False] assms(3) ps(1) by auto
    then have n: "na ?s = (na s)(?q := na s p)" by (auto simp: fun_eq_iff nth_list_update)
    have "plist (na ?s) (allbase s) (ys @ zs)" unfolding n by (rule plist_unlink [OF l False])
    moreover have "ns ?s = ns s" using qr by (auto simp: fun_eq_iff nth_list_update)
    moreover have "same_refs s ?s" using qr by (auto simp: same_refs_def nth_list_update)
    ultimately show ?thesis using e False r1 by (intro exI [of _ ?s]) simp
  qed
qed

lemma same_refs_trans: "same_refs s s1 \<Longrightarrow> same_refs s1 s2 \<Longrightarrow> same_refs s s2"
  by (simp add: same_refs_def)

lemma remove_lists_spec:
  assumes "pages_ok s ps F" and "p \<in> set ps"
  shows "\<exists>s'. remove_lists p (PR_BLOCKTYPE (pagerefs s ! p)) s = Some s' \<and> same_refs s s' \<and> pages_ok s' (remove1 p ps) F"
proof -
  note P = pages_okD [OF assms(1)]
  let ?t = "PR_BLOCKTYPE (pagerefs s ! p)"
  have t: "?t < 8" using page_okD(1) [OF P(10) [OF assms(2)]] .
  from remove_same_spec [OF assms refl] obtain s1 where s1: "remove_same p ?t NULL (sizebases s ! ?t) s = Some s1" "same_refs s s1"
      "na s1 = na s" "allbase s1 = allbase s"
      "\<forall>u < 8. plist (ns s1) (sizebases s1 ! u) (filter (\<lambda>q. PR_BLOCKTYPE (pagerefs s ! q) = u) (remove1 p ps))" by blast
  have "plist (na s1) (allbase s1) ps" "\<forall>q \<in> set ps. q < length (pagerefs s1)" using P(2,6,7) s1(2-4) by (simp_all add: same_refs_def)
  from remove_all_spec [OF this(1) P(5) this(2) assms(2)] obtain s2 where s2: "remove_all p NULL (allbase s1) s1 = Some s2" "same_refs s1 s2"
      "ns s2 = ns s1" "sizebases s2 = sizebases s1" "plist (na s2) (allbase s2) (remove1 p ps)" by blast
  have sr: "same_refs s s2" by (rule same_refs_trans [OF s1(2) s2(2)])
  have pab: "PR_BLOCKTYPE (pagerefs s2 ! q) = PR_BLOCKTYPE (pagerefs s ! q)" "PR_PAGEADDR (pagerefs s2 ! q) = PR_PAGEADDR (pagerefs s ! q)" for q
    using sr pab_cong [of "pagerefs s2 ! q" "pagerefs s ! q"] by (simp_all add: same_refs_def)
  have sub: "set (remove1 p ps) \<subseteq> set ps" by (rule set_remove1_subset)
  have "page_ok (core s2) (firstpaddr s2) (pagerefs s2 ! q) (F q)" if "q \<in> set (remove1 p ps)" for q
    using P(10) [of q] that sub sr unfolding same_refs_page [OF sr] by (auto simp: same_refs_def)
  moreover have "inj_on (\<lambda>q. PR_PAGEADDR (pagerefs s2 ! q)) (set (remove1 p ps))" unfolding pab by (rule inj_on_subset [OF P(9) sub])
  moreover have "ram_ok s2" "length (pagerefs s2) = 256" "length (pagerefs_inuse s2) = 8" "length (sizebases s2) = 8"
    using sr P(1-4) by (simp_all add: same_refs_def ram_ok_def)
  moreover have "distinct (remove1 p ps)" "set (remove1 p ps) \<subseteq> {..<256}" using P(5,6) sub by auto
  ultimately have "pages_ok s2 (remove1 p ps) F" unfolding pages_ok_def pab using s1(5) s2(3-5) by auto
  moreover have "remove_lists p ?t s = Some s2" using t P(4) s1(1) s2(1) by (simp add: remove_lists_def)
  ultimately show ?thesis using sr by blast
qed

text \<open>The step that gives back the block \<open>a\<close> of the page \<open>p\<close>.\<close>

definition gave :: "'a kheap_scheme \<Rightarrow> nat list \<Rightarrow> (nat \<Rightarrow> nat list) \<Rightarrow> 'a kheap_scheme \<Rightarrow> nat list \<Rightarrow> (nat \<Rightarrow> nat list) \<Rightarrow> nat \<Rightarrow> nat \<Rightarrow> bool" where
  "gave s ps F s' ps' F' p a \<longleftrightarrow> heap_ok s' ps' F' \<and> m_spl s' = m_spl s \<and> firstpaddr s' = firstpaddr s \<and> set ps' \<subseteq> set ps
     \<and> (\<forall>q \<in> set ps'. pageaddr_and_blocktype (pagerefs s' ! q) = pageaddr_and_blocktype (pagerefs s ! q))
     \<and> (\<forall>q \<in> set ps. \<forall>x. slot (pagerefs s ! q) x \<and> x \<notin> set (F q) \<and> x \<noteq> a \<longrightarrow> q \<in> set ps' \<and> x \<notin> set (F' q))
     \<and> within a (a + sizes ! PR_BLOCKTYPE (pagerefs s ! p)) (core s) (core s')"

text \<open>The memory after \<open>fill_deadbeef\<close> and the link, and the page with the block on its chain.\<close>

definition pushed_block :: "pageref \<Rightarrow> nat \<Rightarrow> nat list \<Rightarrow> pageref" where
  "pushed_block r a fs = r\<lparr>freelist_offset := a - PR_PAGEADDR r, nfree := Suc (length fs)\<rparr>"

lemma free_block_memory:
  assumes "page_ok m fp r fs" and "mapped m (PR_PAGEADDR r) 4096" and "slot r a" and "a \<notin> set fs" and "PR_PAGEADDR r + 4096 \<le> 2684354560"
  shows "\<exists>m1 m2. fill_deadbeef a (sizes ! PR_BLOCKTYPE r) m = Some m1 \<and> stw m1 a (head fs) = Some m2
    \<and> within a (a + sizes ! PR_BLOCKTYPE r) m m2 \<and> page_ok m2 fp (pushed_block r a fs) (a # fs)"
proof -
  note Q = page_okD [OF assms(1)]
  let ?z = "sizes ! PR_BLOCKTYPE r" and ?P = "PR_PAGEADDR r"
  note B = slot_bounds [OF assms(3) Q(1)] and Z = size_facts [OF Q(1)]
  have ai: "?P + (a - ?P) = a" using B(1) by simp
  have mz: "mapped m a ?z" using mapped_sub [OF assms(2), of "a - ?P" ?z] B unfolding ai by linarith
  from fill_deadbeef_within [OF mz B(3) Z(3)] obtain m1 where m1: "fill_deadbeef a ?z m = Some m1" "within a (a + ?z) m m1" by blast
  have m4: "mapped m1 a 4" using within_mapped [OF m1(2)] mapped_sub [OF mz, of 0 4] Z(1) by simp
  let ?m2 = "put m1 a (be32 (head fs))"
  have w2: "within a (a + ?z) m ?m2" by (rule within_trans [OF m1(2) within_put]) (use Z(1) in auto)
  have h: "head fs < 4294967296"
  proof (cases fs)
    case (Cons x xs)
    then show ?thesis using Q(5) [of x] assms(5) by (auto simp: slot_def)
  qed simp
  have "ldw ?m2 x = ldw m x" if "x \<in> set fs" for x
  proof (rule within_ldw [OF w2])
    have "x \<noteq> a" using that assms(4) by auto
    from slot_sep [OF Q(5) [OF that] assms(3) this Q(1)] Z(1) show "x + 4 \<le> a \<or> a + ?z \<le> x" by linarith
  qed
  then have fc: "fchain ?m2 (head fs) fs" using fchain_cong [of fs ?m2 m] Q(8) by simp
  have "page_ok ?m2 fp (pushed_block r a fs) (a # fs)"
    unfolding page_ok_def
    using Q(1-5) assms(3,4) fc ldw_put_same [OF B(3) m4 h] B(1)
    by (auto simp: pushed_block_def PR_PAGEADDR_def PR_BLOCKTYPE_def slot_def MIPS_KSEG0_def)
  with m1 w2 stw_eq [OF B(3) m4] show ?thesis by blast
qed

lemma subpage_kfree_spec:
  assumes "heap_ok s ps F" and "p \<in> set ps" and "slot (pagerefs s ! p) a" and "a \<notin> set (F p)"
  shows "\<exists>s' ps' F'. subpage_kfree a s = Some (True, s') \<and> gave s ps F s' ps' F' p a"
proof -
  have ok: "pages_ok s ps F" "inuse (pagerefs_inuse s) = set ps" using assms(1) by (simp_all add: heap_ok_def)
  note P = pages_okD [OF ok(1)]
  let ?r = "pagerefs s ! p" and ?s1 = "s\<lparr>m_spl := 15\<rparr>"
  let ?z = "sizes ! PR_BLOCKTYPE ?r" and ?P = "PR_PAGEADDR ?r" and ?F = "F(p := a # F p)"
  note Q = page_okD [OF P(10) [OF assms(2)]] and R = page_range [OF ok(1) assms(2)]
  note B = slot_bounds [OF assms(3) Q(1)] and Z = size_facts [OF Q(1)]
  from free_block_memory [OF P(10) [OF assms(2)] R(2) assms(3,4) R(1)] obtain m1 m2
    where m: "fill_deadbeef a ?z (core s) = Some m1" "stw m1 a (head (F p)) = Some m2" "within a (a + ?z) (core s) m2"
      "page_ok m2 (firstpaddr s) (pushed_block ?r a (F p)) (a # F p)" by blast
  have p: "p < length (pagerefs s)" using P(2,6) assms(2) by simp
  have off: "u32 (int a - int ?P) = a - ?P" using B(1,2) R(1) by (subst u32_id) (auto simp: nat_diff_distrib)
  have a: "u32 (int ?P + int (a - ?P)) = a" using u32_sum [of ?P "a - ?P"] B(1,2) R(1) by simp
  have om: "a - ?P < 4096" "(a - ?P) mod ?z = 0" using assms(3) B(1) by (auto simp: slot_def)
  have link: "(if freelist_offset ?r = INVALID_OFFSET then 0 else u32 (int ?P + int (freelist_offset ?r))) = head (F p)"
  proof (cases "F p")
    case Nil
    then show ?thesis using Q(7) by simp
  next
    case (Cons x xs)
    have "?P \<le> x" "x < ?P + 4096" using Q(5) [of x] Cons by (auto simp: slot_def)
    moreover from this have "x - ?P \<noteq> 65535" by linarith
    ultimately show ?thesis using Q(7) Cons R(1) u32_sum [of ?P "x - ?P"] by (simp add: INVALID_OFFSET_def)
  qed
  have sub: "set (a # F p) \<subseteq> {x. slot ?r x}" using Q(5) assms(3) by auto
  have dist: "distinct (a # F p)" using Q(4) assms(4) by simp
  have len: "length (a # F p) \<le> 4096 div ?z"
    using card_mono [OF card_slots(2) [OF Q(1)] sub] distinct_card [OF dist] card_slots(1) [OF Q(1)] by simp
  have nf: "u16 (int (nfree ?r) + 1) = Suc (length (F p))" "u16 (int (a - ?P)) = a - ?P"
    using Q(6) len Z(6) om(1) by (simp_all add: u16_id)
  let ?s2 = "?s1\<lparr>core := m2, pagerefs := (pagerefs s)[p := pushed_block ?r a (F p)]\<rparr>"
  have pab: "pageaddr_and_blocktype (pagerefs ?s2 ! q) = pageaddr_and_blocktype (pagerefs s ! q)" for q
    using p by (auto simp: nth_list_update pushed_block_def)
  have "within ?P (?P + 4096) (core ?s1) m2" using within_mono [OF m(3) B(1,2)] by simp
  from pages_ok_update [of ?s1 ps F p m2 "pushed_block ?r a (F p)" "a # F p", OF _ assms(2)] this ok(1) m(4)
  have ok2: "pages_ok ?s2 ps ?F" by (simp add: pushed_block_def)
  have e: "subpage_kfree a s = (if Suc (length (F p)) = 4096 div ?z then do {
        s \<leftarrow> remove_lists p (PR_BLOCKTYPE ?r) ?s2; s' \<leftarrow> freepageref p s; Some (True, s'\<lparr>m_spl := m_spl s0\<rparr>) }
      else Some (True, ?s2\<lparr>m_spl := m_spl s0\<rparr>))" if "s0 = s" for s0
    using find_owner_pages(1) [of ?s1 ps F p a] ok(1) assms(2,3) p Q(1) off om m link a nf len that
    by (simp add: subpage_kfree_def spl_high_def spl_x_def free_kpages_def PAGE_SIZE_def Let_def pushed_block_def cong: if_cong)
  show ?thesis
  proof (cases "Suc (length (F p)) = 4096 div ?z")
    case False
    let ?s = "?s2\<lparr>m_spl := m_spl s\<rparr>"
    have "pages_ok ?s ps ?F" using ok2 by (subst pages_ok_spl(1))
    then have "heap_ok ?s ps ?F" using ok(2) by (simp add: heap_ok_def)
    then have "gave s ps F ?s ps ?F p a" unfolding gave_def using pab m(3) by simp
    with e [OF refl] False show ?thesis by auto
  next
    case True
    have all: "set (a # F p) = {x. slot ?r x}"
      using card_subset_eq [OF card_slots(2) [OF Q(1)] sub] distinct_card [OF dist] card_slots(1) [OF Q(1)] True by simp
    from remove_lists_spec [OF ok2 assms(2)] obtain s3 where s3: "remove_lists p (PR_BLOCKTYPE ?r) ?s2 = Some s3" "same_refs ?s2 s3"
        "pages_ok s3 (remove1 p ps) ?F" using pab_cong(2) [OF pab] by auto
    have i3: "pagerefs_inuse s3 = pagerefs_inuse s" using s3(2) by (simp add: same_refs_def)
    from freepageref_eq [of s3 p] i3 P(3) ok(2) assms(2) obtain ws where w: "freepageref p s3 = Some (s3\<lparr>pagerefs_inuse := ws\<rparr>)"
        "inuse ws = set ps - {p}" "length ws = 8" by auto
    let ?s = "s3\<lparr>pagerefs_inuse := ws, m_spl := m_spl s\<rparr>"
    have "pages_ok (s3\<lparr>pagerefs_inuse := ws\<rparr>) (remove1 p ps) ?F" using s3(3) w(3) by (simp add: pages_ok_def ram_ok_def)
    then have "heap_ok ?s (remove1 p ps) ?F" using w(2) P(5) by (simp add: heap_ok_def)
    moreover have "pageaddr_and_blocktype (pagerefs ?s ! q) = pageaddr_and_blocktype (pagerefs s ! q)" for q
      using s3(2) pab [of q] by (simp add: same_refs_def)
    moreover have "firstpaddr ?s = firstpaddr s" "core ?s = m2" using s3(2) by (simp_all add: same_refs_def)
    moreover have "q \<in> set (remove1 p ps) \<and> x \<notin> set (?F q)" if "q \<in> set ps" "slot (pagerefs s ! q) x" "x \<notin> set (F q)" "x \<noteq> a" for q x
    proof -
      have "q \<noteq> p" using that(2-4) all by auto
      with that(1,3) P(5) show ?thesis by simp
    qed
    ultimately have "gave s ps F ?s (remove1 p ps) ?F p a"
      unfolding gave_def using m(3) set_remove1_subset [of p ps] by auto
    with e [OF refl] True s3(1) w(1) show ?thesis by auto
  qed
qed

lemma gave_live:
  assumes "gave s ps F s' ps' F' p a" and "live_ok s ps F L" and "(a, n) \<in> L"
  shows "live_ok s' ps' F' (L - {(a, n)})"
proof -
  have "small_live s' ps' F' b \<or> large_live s' ps' b" if b: "b \<in> L - {(a, n)}" for b
  proof -
    have "extent b \<inter> extent (a, n) = {}" using b assms(2,3) unfolding live_ok_def by blast
    then have ne: "fst b \<noteq> a" by (auto simp: extent_def)
    from b assms(2) have "small_live s ps F b \<or> large_live s ps b" unfolding live_ok_def by blast
    then show ?thesis
    proof
      assume "small_live s ps F b"
      then obtain q where q: "q \<in> set ps" "slot (pagerefs s ! q) (fst b)" "fst b \<notin> set (F q)" "snd b \<le> sizes ! PR_BLOCKTYPE (pagerefs s ! q)"
        by (auto simp: small_live_def)
      have k: "q \<in> set ps'" "fst b \<notin> set (F' q)" using assms(1) q(1-3) ne unfolding gave_def by blast+
      have "pageaddr_and_blocktype (pagerefs s' ! q) = pageaddr_and_blocktype (pagerefs s ! q)" using assms(1) k(1) unfolding gave_def by blast
      from pab_cong [OF this] q k have "small_live s' ps' F' b" unfolding small_live_def by (intro bexI [of _ q]) auto
      then show ?thesis ..
    next
      assume l: "large_live s ps b"
      have "fst b + snd b \<le> PR_PAGEADDR (pagerefs s' ! q) \<or> PR_PAGEADDR (pagerefs s' ! q) + 4096 \<le> fst b" if "q \<in> set ps'" for q
      proof -
        have "pageaddr_and_blocktype (pagerefs s' ! q) = pageaddr_and_blocktype (pagerefs s ! q)" "q \<in> set ps" using assms(1) that unfolding gave_def by blast+
        with pab_cong(1) [OF this(1)] l show ?thesis by (simp add: large_live_def)
      qed
      then have "large_live s' ps' b" using l assms(1) by (simp add: large_live_def gave_def)
      then show ?thesis ..
    qed
  qed
  then show ?thesis using assms(2) unfolding live_ok_def by blast
qed

lemma slot_extent:
  assumes "pages_ok s ps F" and "small_live s ps F b \<or> large_live s ps b" and "p \<in> set ps" and "slot (pagerefs s ! p) a" and "fst b \<noteq> a" and "x \<in> extent b"
  shows "x < a \<or> a + sizes ! PR_BLOCKTYPE (pagerefs s ! p) \<le> x"
proof -
  note Q = page_okD [OF pages_okD(10) [OF assms(1,3)]]
  note B = slot_bounds [OF assms(4) Q(1)] and Z = size_facts(1) [OF Q(1)]
  from assms(2) show ?thesis
  proof
    assume "small_live s ps F b"
    then obtain q where q: "q \<in> set ps" "slot (pagerefs s ! q) (fst b)" "snd b \<le> sizes ! PR_BLOCKTYPE (pagerefs s ! q)" by (auto simp: small_live_def)
    note Qq = page_okD [OF pages_okD(10) [OF assms(1) q(1)]]
    note Bq = slot_bounds [OF q(2) Qq(1)] and Zq = size_facts(1) [OF Qq(1)]
    show ?thesis
    proof (cases "q = p")
      case True
      with slot_sep [OF _ assms(4,5) Q(1)] q assms(6) Z show ?thesis by (auto simp: extent_def)
    next
      case False
      from other_page [OF assms(1) q(1) assms(3)] False B Bq q(3) assms(6) Zq show ?thesis by (auto simp: extent_def)
    qed
  next
    assume "large_live s ps b"
    then have "fst b + snd b \<le> PR_PAGEADDR (pagerefs s ! p) \<or> PR_PAGEADDR (pagerefs s ! p) + 4096 \<le> fst b" "0 < snd b"
      using assms(3) by (auto simp: large_live_def)
    with B assms(6) show ?thesis by (auto simp: extent_def)
  qed
qed

lemma kfree_inv:
  assumes "heap_inv s L" and "(a, n) \<in> L"
  shows "\<exists>s'. kfree (Ptr a) s = Some s' \<and> m_spl s' = m_spl s \<and> heap_inv s' (L - {(a, n)})
    \<and> (\<forall>b \<in> L - {(a, n)}. \<forall>x \<in> extent b. core s' x = core s x)"
proof -
  from assms(1) obtain ps F where h: "heap_ok s ps F" "live_ok s ps F L" by (auto simp: heap_inv_def)
  have ok: "pages_ok s ps F" using h(1) by (simp add: heap_ok_def)
  from assms(2) h(2) have "small_live s ps F (a, n) \<or> large_live s ps (a, n)" unfolding live_ok_def by blast
  then show ?thesis
  proof
    assume "small_live s ps F (a, n)"
    then obtain p where p: "p \<in> set ps" "slot (pagerefs s ! p) a" "a \<notin> set (F p)" by (auto simp: small_live_def)
    from subpage_kfree_spec [OF h(1) p] obtain s' ps' F' where s': "subpage_kfree a s = Some (True, s')" "gave s ps F s' ps' F' p a" by blast
    have "core s' x = core s x" if b: "b \<in> L - {(a, n)}" "x \<in> extent b" for b x
    proof -
      have "extent b \<inter> extent (a, n) = {}" using b(1) h(2) assms(2) unfolding live_ok_def by blast
      then have ne: "fst b \<noteq> a" by (auto simp: extent_def)
      have "small_live s ps F b \<or> large_live s ps b" using b(1) h(2) unfolding live_ok_def by blast
      from slot_extent [OF ok this p(1,2) ne b(2)] s'(2) show ?thesis by (auto simp: gave_def within_def)
    qed
    with s' gave_live [OF s'(2) h(2) assms(2)] show ?thesis by (auto simp: kfree_def heap_inv_def gave_def)
  next
    assume l: "large_live s ps (a, n)"
    then have "\<forall>p \<in> set ps. a < PR_PAGEADDR (pagerefs s ! p) \<or> PR_PAGEADDR (pagerefs s ! p) + 4096 \<le> a" by (auto simp: large_live_def)
    with find_owner_pages(2) [of "s\<lparr>m_spl := 15\<rparr>" ps F a] ok have "subpage_kfree a s = Some (False, s)"
      by (simp add: subpage_kfree_def spl_high_def spl_x_def)
    moreover have "a mod 4096 = 0" using l by (simp add: large_live_def)
    ultimately have "kfree (Ptr a) s = Some s" by (simp add: kfree_def free_kpages_def PAGE_SIZE_def)
    moreover have "live_ok s ps F (L - {(a, n)})" using h(2) unfolding live_ok_def by blast
    ultimately show ?thesis using h(1) by (auto simp: heap_inv_def)
  qed
qed

section \<open>Runs of the heap\<close>

text \<open>A store into a block in use touches no chain, because the chains run through free blocks only.\<close>

lemma free_not_live:
  assumes "pages_ok s ps F" and "small_live s ps F b \<or> large_live s ps b" and "q \<in> set ps" and "x \<in> set (F q)"
  shows "fst b \<noteq> x"
proof
  assume e: "fst b = x"
  note Q = page_okD [OF pages_okD(10) [OF assms(1,3)]]
  have x: "slot (pagerefs s ! q) x" by (rule Q(5) [OF assms(4)])
  from assms(2) show False
  proof
    assume "small_live s ps F b"
    then obtain p where p: "p \<in> set ps" "slot (pagerefs s ! p) x" "x \<notin> set (F p)" using e by (auto simp: small_live_def)
    show False
    proof (cases "p = q")
      case True
      with p assms(4) show False by simp
    next
      case False
      from other_page [OF assms(1) p(1) assms(3)] False p(2) x show False by (auto simp: slot_def)
    qed
  next
    assume "large_live s ps b"
    with assms(3) e x show False by (auto simp: large_live_def slot_def)
  qed
qed

lemma stores_inv:
  assumes "heap_inv s L" and m: "\<And>y. (\<forall>b \<in> L. y \<notin> extent b) \<Longrightarrow> m y = core s y" and d: "\<And>a n. mapped (core s) a n \<Longrightarrow> mapped m a n"
  shows "heap_inv (s\<lparr>core := m\<rparr>) L"
proof -
  from assms(1) obtain ps F where h: "heap_ok s ps F" "live_ok s ps F L" by (auto simp: heap_inv_def)
  have ok: "pages_ok s ps F" using h(1) by (simp add: heap_ok_def)
  note P = pages_okD [OF ok]
  have "page_ok m (firstpaddr s) (pagerefs s ! q) (F q)" if q: "q \<in> set ps" for q
  proof (rule page_ok_cong [OF P(10) [OF q] order_refl])
    note Q = page_okD [OF P(10) [OF q]]
    fix x assume x: "x \<in> set (F q)"
    have "m (x + i) = core s (x + i)" if i: "i < 4" for i
    proof (rule m, intro ballI notI)
      fix b assume b: "b \<in> L" "x + i \<in> extent b"
      have l: "small_live s ps F b \<or> large_live s ps b" using b(1) h(2) unfolding live_ok_def by blast
      have "fst b \<noteq> x" by (rule free_not_live [OF ok l q x])
      from slot_extent [OF ok l q Q(5) [OF x] this b(2)] size_facts(1) [OF Q(1)] i show False by linarith
    qed
    then show "ldw m x = ldw (core s) x" by (intro ldw_cong) (auto simp: nat_le_iff_add)
  qed
  then have "heap_ok (s\<lparr>core := m\<rparr>) ps F"
    using h(1) d by (simp add: heap_ok_def pages_ok_def ram_ok_def)
  moreover have "live_ok (s\<lparr>core := m\<rparr>) ps F L" using h(2) by (simp add: live_ok_def small_live_def large_live_def)
  ultimately show ?thesis unfolding heap_inv_def by blast
qed

lemma store_inv:
  assumes "heap_inv s L" and "(a, n) \<in> L" and "a \<le> y" and "y < a + n"
  shows "heap_inv (s\<lparr>core := (core s)(y \<mapsto> v)\<rparr>) L"
proof (rule stores_inv [OF assms(1)])
  have "y \<in> extent (a, n)" using assms(3,4) by (auto simp: extent_def)
  with assms(2) show "((core s)(y \<mapsto> v)) x = core s x" if "\<forall>b \<in> L. x \<notin> extent b" for x using that by auto
qed (simp add: mapped_def)

definition no_pageref :: pageref where
  "no_pageref = \<lparr>next_samesize = NULL, next_all = NULL, pageaddr_and_blocktype = 0, freelist_offset = 0, nfree = 0\<rparr>"

text \<open>The heap when the kernel starts, with free memory from \<open>lo\<close> to \<open>hi\<close>.\<close>

definition heap_boot :: "nat \<Rightarrow> nat \<Rightarrow> mem \<Rightarrow> kheap" where
  "heap_boot lo hi m = \<lparr>m_spl = 0, firstpaddr = lo, lastpaddr = hi, core = m, pagerefs = replicate 256 no_pageref,
     pagerefs_inuse = replicate 8 0, sizebases = replicate 8 NULL, allbase = NULL\<rparr>"

lemma boot_inv: "ram_ok (heap_boot lo hi m) \<Longrightarrow> heap_inv (heap_boot lo hi m) {}"
proof -
  assume r: "ram_ok (heap_boot lo hi m)"
  have "inuse (replicate 8 0) = {}" by (auto simp: inuse_def less_mult_imp_div_less)
  then have "heap_ok (heap_boot lo hi m) [] (\<lambda>_. [])" using r by (simp add: heap_ok_def pages_ok_def) (simp add: heap_boot_def)
  moreover have "live_ok (heap_boot lo hi m) [] (\<lambda>_. []) {}" by (simp add: live_ok_def)
  ultimately show ?thesis unfolding heap_inv_def by blast
qed

text \<open>
  The heaps that a run of allocations, releases of blocks in use, and stores into blocks in use can
  reach, with the blocks in use. The sizes stay at or below half of the address space; see
  \<open>kmalloc_size_wraps\<close> for the reason.
\<close>

inductive heap_run :: "kheap \<Rightarrow> (nat \<times> nat) set \<Rightarrow> bool" where
  boot: "ram_ok (heap_boot lo hi m) \<Longrightarrow> heap_run (heap_boot lo hi m) {}"
| malloc: "heap_run s L \<Longrightarrow> sz \<le> 2147483648 \<Longrightarrow> kmalloc sz s = Some (Ptr x, s') \<Longrightarrow> heap_run s' (insert (x, sz) L)"
| malloc_fail: "heap_run s L \<Longrightarrow> sz \<le> 2147483648 \<Longrightarrow> kmalloc sz s = Some (NULL, s') \<Longrightarrow> heap_run s' L"
| free: "heap_run s L \<Longrightarrow> (a, n) \<in> L \<Longrightarrow> kfree (Ptr a) s = Some s' \<Longrightarrow> heap_run s' (L - {(a, n)})"
| store: "heap_run s L \<Longrightarrow> (a, n) \<in> L \<Longrightarrow> a \<le> y \<Longrightarrow> y < a + n \<Longrightarrow> heap_run (s\<lparr>core := (core s)(y \<mapsto> v)\<rparr>) L"

lemma heap_run_inv: "heap_run s L \<Longrightarrow> heap_inv s L"
proof (induction rule: heap_run.induct)
  case (boot lo hi m)
  then show ?case by (rule boot_inv)
next
  case (malloc s L sz x s')
  with kmalloc_inv [of s L sz] show ?case by auto
next
  case (malloc_fail s L sz s')
  with kmalloc_inv [of s L sz] show ?case by auto
next
  case (free s L a n s')
  with kfree_inv [of s L a n] show ?case by auto
next
  case (store s L a n y v)
  then show ?case by (intro store_inv)
qed

lemma live_block_facts:
  assumes "heap_inv s L" and "(a, n) \<in> L"
  shows "a mod 4 = 0" "MIPS_KSEG0 + 4096 \<le> a" "a + n \<le> MIPS_KSEG0 + firstpaddr s" "firstpaddr s \<le> lastpaddr s" "mapped (core s) a n"
proof -
  from assms(1) obtain ps F where h: "heap_ok s ps F" "live_ok s ps F L" by (auto simp: heap_inv_def)
  have ok: "pages_ok s ps F" using h(1) by (simp add: heap_ok_def)
  have b: "small_live s ps F (a, n) \<or> large_live s ps (a, n)" using assms(2) h(2) unfolding live_ok_def by blast
  have "a mod 4 = 0 \<and> MIPS_KSEG0 + 4096 \<le> a \<and> a + n \<le> MIPS_KSEG0 + firstpaddr s"
    using b
  proof
    assume "small_live s ps F (a, n)"
    then obtain q where q: "q \<in> set ps" "slot (pagerefs s ! q) a" "n \<le> sizes ! PR_BLOCKTYPE (pagerefs s ! q)" by (auto simp: small_live_def)
    note Q = page_okD [OF pages_okD(10) [OF ok q(1)]]
    from slot_bounds [OF q(2) Q(1)] Q(2,3) q(3) show ?thesis by linarith
  next
    assume "large_live s ps (a, n)"
    then show ?thesis using mod_mod_cancel [of 4 4096 a] by (auto simp: large_live_def)
  qed
  then show f: "a mod 4 = 0" "MIPS_KSEG0 + 4096 \<le> a" "a + n \<le> MIPS_KSEG0 + firstpaddr s" by simp_all
  have r: "firstpaddr s \<le> lastpaddr s" "mapped (core s) MIPS_KSEG0 (lastpaddr s)" using pages_okD(1) [OF ok] by (simp_all add: ram_ok_def)
  then show "firstpaddr s \<le> lastpaddr s" by simp
  have "a - MIPS_KSEG0 + n \<le> lastpaddr s" using f(2,3) r(1) by linarith
  from mapped_sub [OF r(2) this] f(2) show "mapped (core s) a n" by simp
qed

section \<open>The contract of an allocator\<close>

text \<open>
  What a client of \<open>kmalloc\<close> and \<open>kfree\<close> relies on: requests up to \<open>bound\<close> return, with a null pointer or
  a block away from every block in use; a block in use can be given back; and neither touches the
  bytes of the blocks that stay.
\<close>

locale block_allocator =
  fixes inv :: "'s \<Rightarrow> (nat \<times> nat) set \<Rightarrow> bool" and alloc :: "nat \<Rightarrow> 's \<Rightarrow> (nat nullable \<times> 's) option"
    and free :: "nat nullable \<Rightarrow> 's \<Rightarrow> 's option" and bytes :: "'s \<Rightarrow> mem" and bound :: nat
  assumes alloc_law: "inv s L \<Longrightarrow> sz \<le> bound \<Longrightarrow> \<exists>r s'. alloc sz s = Some (r, s')
      \<and> (\<forall>b \<in> L. \<forall>x \<in> extent b. bytes s' x = bytes s x)
      \<and> (r = NULL \<and> inv s' L \<or> (\<exists>x. r = Ptr x \<and> inv s' (insert (x, sz) L) \<and> (\<forall>b \<in> L. extent b \<inter> extent (x, sz) = {})))"
    and free_law: "inv s L \<Longrightarrow> (a, n) \<in> L \<Longrightarrow> \<exists>s'. free (Ptr a) s = Some s' \<and> inv s' (L - {(a, n)})
      \<and> (\<forall>b \<in> L - {(a, n)}. \<forall>x \<in> extent b. bytes s' x = bytes s x)"
begin

lemma alloc_new: "inv s L \<Longrightarrow> sz \<le> bound \<Longrightarrow> alloc sz s = Some (Ptr x, s') \<Longrightarrow> (x, sz) \<notin> L \<and> inv s' (insert (x, sz) L)"
  using alloc_law [of s L sz] by (auto simp: extent_def)

text \<open>A scratch block, taken and given back, leaves the other blocks and their bytes as they were.\<close>

lemma scratch:
  assumes "inv s L" and "sz \<le> bound" and "alloc sz s = Some (Ptr x, s1)"
  shows "\<exists>s2. free (Ptr x) s1 = Some s2 \<and> inv s2 L \<and> (\<forall>b \<in> L. \<forall>y \<in> extent b. bytes s2 y = bytes s y)"
proof -
  have n: "(x, sz) \<notin> L" "inv s1 (insert (x, sz) L)" using alloc_new [OF assms] by auto
  then have L: "insert (x, sz) L - {(x, sz)} = L" by simp
  from free_law [OF n(2), of x sz] obtain s2 where s2: "free (Ptr x) s1 = Some s2" "inv s2 L"
      "\<forall>b \<in> L. \<forall>y \<in> extent b. bytes s2 y = bytes s1 y" unfolding L by auto
  moreover have "\<forall>b \<in> L. \<forall>y \<in> extent b. bytes s1 y = bytes s y" using alloc_law [OF assms(1,2)] assms(3) by auto
  ultimately show ?thesis by auto
qed

end

interpretation kh: block_allocator heap_inv kmalloc kfree core 2147483648
proof
  fix s :: "'a kheap_scheme" and L :: "(nat \<times> nat) set" and sz :: nat assume "heap_inv s L" "sz \<le> 2147483648"
  from kmalloc_inv [OF this] show "\<exists>r s'. kmalloc sz s = Some (r, s') \<and> (\<forall>b \<in> L. \<forall>x \<in> extent b. core s' x = core s x)
      \<and> (r = NULL \<and> heap_inv s' L \<or> (\<exists>x. r = Ptr x \<and> heap_inv s' (insert (x, sz) L) \<and> (\<forall>b \<in> L. extent b \<inter> extent (x, sz) = {})))" by blast
next
  fix s :: "'a kheap_scheme" and L :: "(nat \<times> nat) set" and a n :: nat assume "heap_inv s L" "(a, n) \<in> L"
  from kfree_inv [OF this] show "\<exists>s'. kfree (Ptr a) s = Some s' \<and> heap_inv s' (L - {(a, n)})
      \<and> (\<forall>b \<in> L - {(a, n)}. \<forall>x \<in> extent b. core s' x = core s x)" by blast
qed

section \<open>Properties\<close>

definition boot0 :: kheap where
  "boot0 = heap_boot 65536 131072 (\<lambda>_. Some 0)"

lemma boot0_run: "heap_run boot0 {}"
  unfolding boot0_def by (rule heap_run.boot) (simp add: heap_boot_def ram_ok_def mapped_def)

lemma kmalloc_room:
  assumes "ram_ok s" and "2048 \<le> sz" and "sz \<le> 2147483648" and "n = (sz + 4095) div 4096" and "firstpaddr s + 4096 * n \<le> lastpaddr s"
  shows "kmalloc sz s = Some (Ptr (MIPS_KSEG0 + firstpaddr s), s\<lparr>firstpaddr := firstpaddr s + 4096 * n\<rparr>)"
proof -
  note k = kmalloc_pages [OF assms(2-4)]
  have "0 \<le> int n" "int n \<le> 524288" using k(2) by simp_all
  with assms(1) show ?thesis
  proof (cases rule: alloc_kpages_cases)
    case none
    then show ?thesis using assms(5) by simp
  next
    case some
    then show ?thesis using k(1) [of s] by (simp add: MIPS_KSEG0_def)
  qed
qed

lemma boot0_ram: "ram_ok boot0" "firstpaddr boot0 = 65536" "lastpaddr boot0 = 131072"
  by (simp_all add: boot0_def heap_boot_def ram_ok_def mapped_def)

lemma boot0_malloc:
  "kmalloc 5000 boot0 = Some (Ptr 2147549184, boot0\<lparr>firstpaddr := 73728\<rparr>)"
  "kmalloc 3000 (boot0\<lparr>firstpaddr := 73728\<rparr>) = Some (Ptr 2147557376, boot0\<lparr>firstpaddr := 77824\<rparr>)"
proof -
  show "kmalloc 5000 boot0 = Some (Ptr 2147549184, boot0\<lparr>firstpaddr := 73728\<rparr>)"
    using kmalloc_room [OF boot0_ram(1), of 5000 2] by (simp add: boot0_ram MIPS_KSEG0_def)
  have "ram_ok (boot0\<lparr>firstpaddr := 73728\<rparr>)" using boot0_ram by (simp add: ram_ok_def)
  from kmalloc_room [OF this, of 3000 1]
  show "kmalloc 3000 (boot0\<lparr>firstpaddr := 73728\<rparr>) = Some (Ptr 2147557376, boot0\<lparr>firstpaddr := 77824\<rparr>)"
    by (simp add: boot0_ram MIPS_KSEG0_def)
qed

lemma boot0_two: "heap_run (boot0\<lparr>firstpaddr := 77824\<rparr>) {(2147557376, 3000), (2147549184, 5000)}"
  by (rule heap_run.malloc [OF heap_run.malloc [OF boot0_run _ boot0_malloc(1)] _ boot0_malloc(2)]) simp_all

text \<open>C6. Blocks in use never overlap. In every heap that a run of allocations, releases of blocks in use and
  stores into blocks in use can reach, two blocks in use have different addresses and no byte in
  common, and each lies word-aligned in kernel memory that has been taken from the free pages.\<close>

theorem heap_blocks_disjoint:
  assumes "heap_run s L" and "(a, n) \<in> L" and "(b, m) \<in> L" and "(a, n) \<noteq> (b, m)"
  shows "a \<noteq> b \<and> {a..<a + n} \<inter> {b..<b + m} = {} \<and> a mod 4 = 0 \<and> MIPS_KSEG0 + 4096 \<le> a \<and> a + n \<le> MIPS_KSEG0 + firstpaddr s
    \<and> firstpaddr s \<le> lastpaddr s \<and> mapped (core s) a n"
proof -
  note i = heap_run_inv [OF assms(1)]
  have "extent (a, n) \<inter> extent (b, m) = {}" using i assms(2-4) unfolding heap_inv_def live_ok_def by blast
  moreover have "a \<in> extent (a, n)" "b \<in> extent (b, m)" "{a..<a + n} \<subseteq> extent (a, n)" "{b..<b + m} \<subseteq> extent (b, m)"
    by (auto simp: extent_def)
  ultimately have "a \<noteq> b" "{a..<a + n} \<inter> {b..<b + m} = {}" by blast+
  with live_block_facts [OF i assms(2)] show ?thesis by blast
qed

theorem heap_blocks_disjoint_witness:
  "heap_run (boot0\<lparr>firstpaddr := 77824\<rparr>) {(2147557376, 3000), (2147549184, 5000)}
    \<and> {2147557376..<2147557376 + 3000 :: nat} \<inter> {2147549184..<2147549184 + 5000} = {}
    \<and> mapped (core (boot0\<lparr>firstpaddr := 77824\<rparr>)) 2147557376 3000"
  using heap_blocks_disjoint [OF boot0_two, of 2147557376 3000 2147549184 5000] boot0_two by simp

text \<open>C7. The heap never stops the kernel on correct use. In every heap a run can reach, \<open>kmalloc\<close> returns:
  a null pointer, which it does only when there are too few pages or no page reference left, or a block
  that overlaps no block in use; \<open>kfree\<close> of any block in use returns; both
  leave the interrupt level and the bytes of the other blocks in use as they were, and the heap they
  leave is one of those the run can reach, so its lists, chains, counts and marks agree again.\<close>

theorem heap_operations_return:
  assumes "heap_run s L"
  shows "(sz \<le> 2147483648 \<longrightarrow> (\<exists>r s'. kmalloc sz s = Some (r, s') \<and> m_spl s' = m_spl s
      \<and> (\<forall>(b, m) \<in> L. \<forall>y \<in> {b..<b + m}. core s' y = core s y)
      \<and> (r = NULL \<and> heap_run s' L \<and> no_room sz s
         \<or> (\<exists>x. r = Ptr x \<and> heap_run s' (insert (x, sz) L) \<and> (\<forall>(b, m) \<in> L. x \<noteq> b \<and> {x..<x + sz} \<inter> {b..<b + m} = {})))))
    \<and> ((a, n) \<in> L \<longrightarrow> (\<exists>s'. kfree (Ptr a) s = Some s' \<and> m_spl s' = m_spl s \<and> heap_run s' (L - {(a, n)})
      \<and> (\<forall>(b, m) \<in> L - {(a, n)}. \<forall>y \<in> {b..<b + m}. core s' y = core s y)))"
proof (intro conjI impI)
  note i = heap_run_inv [OF assms]
  have ext: "y \<in> extent (b, m)" if "y \<in> {b..<b + m}" for y b m :: nat using that by (auto simp: extent_def)
  assume sz: "sz \<le> 2147483648"
  from kmalloc_inv [OF i sz] obtain r s' where k: "kmalloc sz s = Some (r, s')" "m_spl s' = m_spl s" "\<forall>b \<in> L. \<forall>x \<in> extent b. core s' x = core s x"
      "r = NULL \<and> no_room sz s \<or> (\<exists>x. r = Ptr x \<and> (\<forall>b \<in> L. extent b \<inter> extent (x, sz) = {}))" by blast
  have "r = NULL \<and> heap_run s' L \<and> no_room sz s
      \<or> (\<exists>x. r = Ptr x \<and> heap_run s' (insert (x, sz) L) \<and> (\<forall>(b, m) \<in> L. x \<noteq> b \<and> {x..<x + sz} \<inter> {b..<b + m} = {}))"
    using k(4)
  proof
    assume "r = NULL \<and> no_room sz s"
    with heap_run.malloc_fail [OF assms sz] k(1) show ?thesis by simp
  next
    assume "\<exists>x. r = Ptr x \<and> (\<forall>b \<in> L. extent b \<inter> extent (x, sz) = {})"
    then obtain x where x: "r = Ptr x" "\<forall>b \<in> L. extent b \<inter> extent (x, sz) = {}" by blast
    then have "\<forall>(b, m) \<in> L. x \<noteq> b \<and> {x..<x + sz} \<inter> {b..<b + m} = {}" by (fastforce simp: extent_def)
    with x(1) heap_run.malloc [OF assms sz] k(1) show ?thesis by blast
  qed
  with k(1-3) ext show "\<exists>r s'. kmalloc sz s = Some (r, s') \<and> m_spl s' = m_spl s
      \<and> (\<forall>(b, m) \<in> L. \<forall>y \<in> {b..<b + m}. core s' y = core s y)
      \<and> (r = NULL \<and> heap_run s' L \<and> no_room sz s
         \<or> (\<exists>x. r = Ptr x \<and> heap_run s' (insert (x, sz) L) \<and> (\<forall>(b, m) \<in> L. x \<noteq> b \<and> {x..<x + sz} \<inter> {b..<b + m} = {})))"
    by (intro exI [of _ r] exI [of _ s']) blast
next
  assume a: "(a, n) \<in> L"
  from kfree_inv [OF heap_run_inv [OF assms] a] obtain s' where k: "kfree (Ptr a) s = Some s'" "m_spl s' = m_spl s"
      "\<forall>b \<in> L - {(a, n)}. \<forall>x \<in> extent b. core s' x = core s x" by blast
  moreover have "y \<in> extent (b, m)" if "y \<in> {b..<b + m}" for y b m :: nat using that by (auto simp: extent_def)
  ultimately show "\<exists>s'. kfree (Ptr a) s = Some s' \<and> m_spl s' = m_spl s \<and> heap_run s' (L - {(a, n)})
      \<and> (\<forall>(b, m) \<in> L - {(a, n)}. \<forall>y \<in> {b..<b + m}. core s' y = core s y)"
    using heap_run.free [OF assms a] by (intro exI [of _ s']) blast
qed

theorem heap_operations_return_witness:
  "\<exists>s'. kfree (Ptr 2147549184) (boot0\<lparr>firstpaddr := 77824\<rparr>) = Some s' \<and> heap_run s' {(2147557376, 3000)}"
proof -
  have "{(2147557376, 3000), (2147549184, 5000)} - {(2147549184, 5000)} = {(2147557376 :: nat, 3000 :: nat)}" by auto
  with heap_operations_return [OF boot0_two, of 100 2147549184 5000] show ?thesis by auto
qed

text \<open>C36. A request close to the size of the address space breaks the heap instead of failing. The sum in
  \<open>ram_stealmem\<close> wraps around, so a request for as many bytes as there are above the free memory
  succeeds, and sets the start of the free memory to 0: the next page that the kernel takes is one
  that is already in use.\<close>

theorem kmalloc_size_wraps:
  assumes "ram_ok s"
  shows "kmalloc (4294967296 - firstpaddr s) s = Some (Ptr (MIPS_KSEG0 + firstpaddr s), s\<lparr>firstpaddr := 0\<rparr>)"
proof -
  have r: "4096 \<le> firstpaddr s" "firstpaddr s \<le> 532676608" "firstpaddr s mod 4096 = 0" using assms by (auto simp: ram_ok_def)
  from r(3) have "4096 dvd firstpaddr s" by (simp add: dvd_eq_mod_eq_0)
  then obtain k where k: "firstpaddr s = 4096 * k" by (rule dvdE)
  have kb: "1 \<le> k" "k \<le> 130048" using r(1,2) k by simp_all
  define j where "j = 1048576 - k"
  have jk: "j + k = 1048576" using kb(2) by (simp add: j_def)
  then have j: "4294967296 - firstpaddr s = 4096 * j" "4096 * j + 4096 * k = 4294967296" "j < 1048576" "2048 \<le> 4096 * j"
    using kb k by linarith+
  have "4096 * j + 4095 < 4294967296" using j(3) by linarith
  note u32_sum [OF this]
  moreover have "int (4096 * j) + int PAGE_SIZE - 1 = int (4096 * j) + int 4095" by (simp add: PAGE_SIZE_def)
  ultimately have "u32 (int (4096 * j) + int PAGE_SIZE - 1) = 4096 * j + 4095" by (simp only:)
  then have n: "u32 (int (4096 * j) + int PAGE_SIZE - 1) div PAGE_SIZE = j" by (simp add: PAGE_SIZE_def)
  have u: "u32 (s32 (int j)) = j" "u32 (int j * int PAGE_SIZE) = 4096 * j" using j(3) by (simp_all add: s32_id INT_MAX_def u32_id PAGE_SIZE_def nat_mult_distrib)
  have "int (firstpaddr s) + int (4096 * j) = 4294967296" using j(2) k by linarith
  then have w: "u32 (int (firstpaddr s) + int (4096 * j)) = 0" by (simp add: u32_def)
  have kv: "PADDR_TO_KVADDR (firstpaddr s) = MIPS_KSEG0 + firstpaddr s"
    using u32_sum [of "firstpaddr s" MIPS_KSEG0] r(2) by (simp add: PADDR_TO_KVADDR_def MIPS_KSEG0_def)
  show ?thesis
    unfolding j(1) using j(4) n u w kv r(1)
    by (simp add: kmalloc_def LARGEST_SUBPAGE_SIZE_def alloc_kpages_def getppages_def ram_stealmem_def spl_high_def spl_x_def Let_def MIPS_KSEG0_def)
qed

theorem kmalloc_size_wraps_witness:
  "kmalloc 4294901760 boot0 = Some (Ptr (MIPS_KSEG0 + 65536), boot0\<lparr>firstpaddr := 0\<rparr>)"
  using kmalloc_size_wraps [OF boot0_ram(1)] by (simp add: boot0_ram)

end
