(* ===== verification/Kvm.thy ===== *)
theory Kvm
  imports Kheap
begin

unbundle bit_operations_syntax

text \<open>
  The virtual memory of \<open>kern/arch/mips/mips/dumbvm.c\<close>: address spaces of two regions and a stack, each
  a run of physical pages, and the fault handler that loads the translation buffer (TLB). The
  buffer is a list of entries, its two words as numbers; \<open>TLB_Read\<close> and \<open>TLB_Write\<close> are the access to
  the list. An address space is a structure in a block of the kernel heap, kept under the address of
  that block; \<open>t_vmspace\<close> is that of the current thread. \<open>kern/vm/addrspace.c\<close> holds the empty stubs of a
  kernel that is built without this file.
\<close>

definition USERSTACK :: nat where "USERSTACK = 2147483648"
definition DUMBVM_STACKPAGES :: nat where "DUMBVM_STACKPAGES = 12"
definition NUM_TLB :: nat where "NUM_TLB = 64"
definition TLBLO_DIRTY :: nat where "TLBLO_DIRTY = 1024"
definition TLBLO_VALID :: nat where "TLBLO_VALID = 512"
definition VM_FAULT_READ :: nat where "VM_FAULT_READ = 0"
definition VM_FAULT_WRITE :: nat where "VM_FAULT_WRITE = 1"
definition VM_FAULT_READONLY :: nat where "VM_FAULT_READONLY = 2"

lemmas vm_consts = USERSTACK_def DUMBVM_STACKPAGES_def NUM_TLB_def TLBLO_DIRTY_def TLBLO_VALID_def
  VM_FAULT_READ_def VM_FAULT_WRITE_def VM_FAULT_READONLY_def page_consts

definition TLBHI_INVALID :: "nat \<Rightarrow> nat" where
  "TLBHI_INVALID entryno = (524288 + entryno) * 4096"

record addrspace =
  as_vbase1 :: nat
  as_pbase1 :: nat
  as_npages1 :: nat
  as_vbase2 :: nat
  as_pbase2 :: nat
  as_npages2 :: nat
  as_stackpbase :: nat

record vmsys = kheap +
  tlb :: "(nat \<times> nat) list"
  spaces :: "nat \<rightharpoonup> addrspace"
  t_vmspace :: "nat nullable"

definition page_of :: "nat \<Rightarrow> nat" where
  "page_of a = a - a mod PAGE_SIZE"

section \<open>Faults\<close>

text \<open>The loop over the translation buffer: the first entry that is not valid takes the translation.\<close>

fun tlb_load :: "nat \<Rightarrow> nat \<Rightarrow> nat \<Rightarrow> nat \<Rightarrow> (nat \<times> nat) list \<Rightarrow> (nat \<times> nat) list option" where
  "tlb_load i 0 ehi elo t = None"
| "tlb_load i (Suc n) ehi elo t =
     (if snd (t ! i) AND TLBLO_VALID \<noteq> 0 then tlb_load (Suc i) n ehi elo t else Some (t[i := (ehi, elo)]))"

definition as_checks :: "addrspace \<Rightarrow> unit option" where
  "as_checks as = do {
     kassert (as_vbase1 as \<noteq> 0);
     kassert (as_pbase1 as \<noteq> 0);
     kassert (as_npages1 as \<noteq> 0);
     kassert (as_vbase2 as \<noteq> 0);
     kassert (as_pbase2 as \<noteq> 0);
     kassert (as_npages2 as \<noteq> 0);
     kassert (as_stackpbase as \<noteq> 0);
     kassert (page_of (as_vbase1 as) = as_vbase1 as);
     kassert (page_of (as_pbase1 as) = as_pbase1 as);
     kassert (page_of (as_vbase2 as) = as_vbase2 as);
     kassert (page_of (as_pbase2 as) = as_pbase2 as);
     kassert (page_of (as_stackpbase as) = as_stackpbase as)
   }"

text \<open>The physical address of a page of the address space, if it is in one of the three regions.\<close>

definition as_translate :: "addrspace \<Rightarrow> nat \<Rightarrow> nat option" where
  "as_translate as faultaddress =
     (let vbase1 = as_vbase1 as;
          vtop1 = u32 (int vbase1 + int (u32 (int (as_npages1 as) * int PAGE_SIZE)));
          vbase2 = as_vbase2 as;
          vtop2 = u32 (int vbase2 + int (u32 (int (as_npages2 as) * int PAGE_SIZE)));
          stackbase = USERSTACK - DUMBVM_STACKPAGES * PAGE_SIZE;
          stacktop = USERSTACK
      in if faultaddress \<ge> vbase1 \<and> faultaddress < vtop1 then Some (u32 (int (faultaddress - vbase1) + int (as_pbase1 as)))
         else if faultaddress \<ge> vbase2 \<and> faultaddress < vtop2 then Some (u32 (int (faultaddress - vbase2) + int (as_pbase2 as)))
         else if faultaddress \<ge> stackbase \<and> faultaddress < stacktop then Some (u32 (int (faultaddress - stackbase) + int (as_stackpbase as)))
         else None)"

definition vm_fault :: "nat \<Rightarrow> nat \<Rightarrow> 'a vmsys_scheme \<Rightarrow> (rc \<times> 'a vmsys_scheme) option" where
  "vm_fault faulttype faultaddress s = do {
     let (spl, s) = spl_high s;
     let faultaddress = page_of faultaddress;
     kassert (faulttype \<noteq> VM_FAULT_READONLY);
     if faulttype \<noteq> VM_FAULT_READ \<and> faulttype \<noteq> VM_FAULT_WRITE then Some (EINVAL, spl_x spl s)
     else (case t_vmspace s of
         NULL \<Rightarrow> Some (EFAULT, s)
       | Ptr a \<Rightarrow> do {
           as \<leftarrow> spaces s a;
           as_checks as;
           case as_translate as faultaddress of
             None \<Rightarrow> Some (EFAULT, spl_x spl s)
           | Some paddr \<Rightarrow> do {
               kassert (page_of paddr = paddr);
               case tlb_load 0 NUM_TLB faultaddress (paddr OR TLBLO_DIRTY OR TLBLO_VALID) (tlb s) of
                 Some t \<Rightarrow> Some (OK, spl_x spl (s\<lparr>tlb := t\<rparr>))
               | None \<Rightarrow> Some (EFAULT, spl_x spl s)
             }
         })
   }"

section \<open>Address spaces\<close>

definition no_space_yet :: addrspace where
  "no_space_yet = \<lparr>as_vbase1 = 0, as_pbase1 = 0, as_npages1 = 0, as_vbase2 = 0, as_pbase2 = 0, as_npages2 = 0, as_stackpbase = 0\<rparr>"

definition set_as :: "nat \<Rightarrow> addrspace \<Rightarrow> 'a vmsys_scheme \<Rightarrow> 'a vmsys_scheme" where
  "set_as a as s = s\<lparr>spaces := (spaces s)(a \<mapsto> as)\<rparr>"

definition as_create :: "'a vmsys_scheme \<Rightarrow> (nat nullable \<times> 'a vmsys_scheme) option" where
  "as_create s = do {
     (p, s) \<leftarrow> kmalloc 28 s;
     case p of NULL \<Rightarrow> Some (NULL, s) | Ptr a \<Rightarrow> Some (Ptr a, set_as a no_space_yet s)
   }"

definition as_destroy :: "nat \<Rightarrow> 'a vmsys_scheme \<Rightarrow> 'a vmsys_scheme option" where
  "as_destroy a s = do { s \<leftarrow> kfree (Ptr a) s; Some (s\<lparr>spaces := (spaces s)(a := None)\<rparr>) }"

definition as_activate :: "'a vmsys_scheme \<Rightarrow> 'a vmsys_scheme" where
  "as_activate s = (let (spl, s) = spl_high s in spl_x spl (s\<lparr>tlb := map (\<lambda>i. (TLBHI_INVALID i, 0)) [0..<NUM_TLB]\<rparr>))"

definition as_define_region :: "nat \<Rightarrow> nat \<Rightarrow> nat \<Rightarrow> 'a vmsys_scheme \<Rightarrow> (rc \<times> 'a vmsys_scheme) option" where
  "as_define_region a vaddr sz s = do {
     as \<leftarrow> spaces s a;
     let sz = u32 (int sz + int (vaddr mod PAGE_SIZE));
     let vaddr = page_of vaddr;
     let sz = page_of (u32 (int sz + int PAGE_SIZE - 1));
     let npages = sz div PAGE_SIZE;
     if as_vbase1 as = 0 then Some (OK, set_as a (as\<lparr>as_vbase1 := vaddr, as_npages1 := npages\<rparr>) s)
     else if as_vbase2 as = 0 then Some (OK, set_as a (as\<lparr>as_vbase2 := vaddr, as_npages2 := npages\<rparr>) s)
     else Some (EUNIMP, s)
   }"

definition as_prepare_load :: "nat \<Rightarrow> 'a vmsys_scheme \<Rightarrow> (rc \<times> 'a vmsys_scheme) option" where
  "as_prepare_load a s = do {
     as \<leftarrow> spaces s a;
     kassert (as_pbase1 as = 0);
     kassert (as_pbase2 as = 0);
     kassert (as_stackpbase as = 0);
     let (p1, s) = getppages (as_npages1 as) s;
     let as = as\<lparr>as_pbase1 := p1\<rparr>;
     let s = set_as a as s;
     if p1 = 0 then Some (ENOMEM, s)
     else do {
       let (p2, s) = getppages (as_npages2 as) s;
       let as = as\<lparr>as_pbase2 := p2\<rparr>;
       let s = set_as a as s;
       if p2 = 0 then Some (ENOMEM, s)
       else do {
         let (p3, s) = getppages DUMBVM_STACKPAGES s;
         let as = as\<lparr>as_stackpbase := p3\<rparr>;
         let s = set_as a as s;
         if p3 = 0 then Some (ENOMEM, s) else Some (OK, s)
       }
     }
   }"

definition as_complete_load :: "nat \<Rightarrow> 'a vmsys_scheme \<Rightarrow> (rc \<times> 'a vmsys_scheme) option" where
  "as_complete_load a s = Some (OK, s)"

definition as_define_stack :: "nat \<Rightarrow> 'a vmsys_scheme \<Rightarrow> ((rc \<times> nat) \<times> 'a vmsys_scheme) option" where
  "as_define_stack a s = do { as \<leftarrow> spaces s a; kassert (as_stackpbase as \<noteq> 0); Some ((OK, USERSTACK), s) }"

text \<open>\<open>memmove\<close> in the kernel memory; an address that is not mapped stops the machine.\<close>

definition core_move :: "nat \<Rightarrow> nat \<Rightarrow> nat \<Rightarrow> 'a vmsys_scheme \<Rightarrow> 'a vmsys_scheme option" where
  "core_move dst src len s = (case memmove dst src len (core s) of (ok, m) \<Rightarrow> if ok then Some (s\<lparr>core := m\<rparr>) else None)"

definition as_copy :: "nat \<Rightarrow> 'a vmsys_scheme \<Rightarrow> ('a vmsys_scheme, nat) kres" where
  "as_copy old s = do {
     (p, s) \<leftarrow> as_create s;
     case p of
       NULL \<Rightarrow> kfail ENOMEM s
     | Ptr new \<Rightarrow> do {
         oas \<leftarrow> spaces s old;
         nas \<leftarrow> spaces s new;
         let s = set_as new (nas\<lparr>as_vbase1 := as_vbase1 oas, as_npages1 := as_npages1 oas, as_vbase2 := as_vbase2 oas, as_npages2 := as_npages2 oas\<rparr>) s;
         (result, s) \<leftarrow> as_prepare_load new s;
         if result \<noteq> OK then do { s \<leftarrow> as_destroy new s; kfail ENOMEM s }
         else do {
           nas \<leftarrow> spaces s new;
           kassert (as_pbase1 nas \<noteq> 0);
           kassert (as_pbase2 nas \<noteq> 0);
           kassert (as_stackpbase nas \<noteq> 0);
           s \<leftarrow> core_move (PADDR_TO_KVADDR (as_pbase1 nas)) (PADDR_TO_KVADDR (as_pbase1 oas)) (u32 (int (as_npages1 oas) * int PAGE_SIZE)) s;
           s \<leftarrow> core_move (PADDR_TO_KVADDR (as_pbase2 nas)) (PADDR_TO_KVADDR (as_pbase2 oas)) (u32 (int (as_npages2 oas) * int PAGE_SIZE)) s;
           s \<leftarrow> core_move (PADDR_TO_KVADDR (as_stackpbase nas)) (PADDR_TO_KVADDR (as_stackpbase oas)) (DUMBVM_STACKPAGES * PAGE_SIZE) s;
           kret new s
         }
       }
   }"

section \<open>The heap leaves the rest of the state alone\<close>

lemma allocpageref_more: "allocpageref s = Some (r, s') \<Longrightarrow> kheap.more s' = kheap.more s"
  by (auto simp: allocpageref_def split: Option.bind_splits nullable.splits)

lemma freepageref_more: "freepageref p s = Some s' \<Longrightarrow> kheap.more s' = kheap.more s"
  by (auto simp: freepageref_def Let_def kassert_def split: Option.bind_splits if_splits)

lemma alloc_kpages_more: "alloc_kpages n s = (a, s') \<Longrightarrow> kheap.more s' = kheap.more s"
  by (auto simp: alloc_kpages_def getppages_def ram_stealmem_def spl_high_def spl_x_def Let_def split: if_splits)

lemma doalloc_more: "doalloc spl p s = Some (r, s') \<Longrightarrow> kheap.more s' = kheap.more s"
  by (auto simp: doalloc_def Let_def spl_x_def split: Option.bind_splits)

lemma fresh_page_more: "fresh_page t p a s = Some s' \<Longrightarrow> kheap.more s' = kheap.more s"
  by (auto simp: fresh_page_def Let_def split: Option.bind_splits)

lemma kmalloc_more: "kmalloc sz s = Some (r, s') \<Longrightarrow> kheap.more s' = kheap.more s"
  by (auto simp: kmalloc_def subpage_kmalloc_def Let_def spl_high_def spl_x_def
      dest!: allocpageref_more freepageref_more alloc_kpages_more doalloc_more fresh_page_more
      split: Option.bind_splits if_splits prod.splits nullable.splits)

lemma remove_same_more: "remove_same pr t prev guy s = Some s' \<Longrightarrow> kheap.more s' = kheap.more s"
  by (erule remove_same.raw_induct [rotated, where P = "\<lambda>pr t prev guy s y. kheap.more y = kheap.more s"]) (auto split: Option.bind_splits nullable.splits if_splits)

lemma remove_all_more: "remove_all pr prev guy s = Some s' \<Longrightarrow> kheap.more s' = kheap.more s"
  by (erule remove_all.raw_induct [rotated, where P = "\<lambda>pr prev guy s y. kheap.more y = kheap.more s"]) (auto split: Option.bind_splits nullable.splits if_splits)

lemma kfree_more: "kfree r s = Some s' \<Longrightarrow> kheap.more s' = kheap.more s"
  by (auto simp: kfree_def subpage_kfree_def remove_lists_def free_kpages_def Let_def spl_high_def spl_x_def
      dest!: freepageref_more remove_same_more remove_all_more
      split: Option.bind_splits if_splits prod.splits nullable.splits)

lemma vmsys_more:
  assumes "kheap.more s' = kheap.more s"
  shows "tlb s' = tlb s" "spaces s' = spaces s" "t_vmspace s' = t_vmspace s" "vmsys.more s' = vmsys.more s"
  using assms by (cases s; cases s'; simp)+

section \<open>Pages for an address space\<close>

lemma heap_inv_spaces [simp]: "heap_inv (s\<lparr>spaces := x\<rparr>) L = heap_inv s L"
  by (simp add: heap_inv_def heap_ok_def pages_ok_def ram_ok_def live_ok_def small_live_def large_live_def)

lemma heap_inv_sub: "heap_inv s L \<Longrightarrow> L' \<subseteq> L \<Longrightarrow> heap_inv s L'"
  unfolding heap_inv_def live_ok_def by blast

lemma heap_inv_ram: "heap_inv s L \<Longrightarrow> ram_ok s"
  by (auto simp: heap_inv_def heap_ok_def pages_ok_def)

lemma getppages_cases:
  assumes "heap_inv s L" and "0 < n" and "n \<le> 524288"
  shows "getppages n s = (0, s) \<and> lastpaddr s < firstpaddr s + 4096 * n
    \<or> getppages n s = (firstpaddr s, s\<lparr>firstpaddr := firstpaddr s + 4096 * n\<rparr>) \<and> firstpaddr s + 4096 * n \<le> lastpaddr s
      \<and> heap_inv (s\<lparr>firstpaddr := firstpaddr s + 4096 * n\<rparr>) (insert (MIPS_KSEG0 + firstpaddr s, 4096 * n) L)
      \<and> (\<forall>b \<in> L. extent b \<inter> extent (MIPS_KSEG0 + firstpaddr s, 4096 * n) = {})"
proof -
  have r: "4096 \<le> firstpaddr s" "firstpaddr s \<le> 532676608" using heap_inv_ram [OF assms(1)] by (auto simp: ram_ok_def)
  have n: "(4096 * n + 4095) div 4096 = n" "2048 \<le> 4096 * n" "4096 * n \<le> 2147483648" using assms(2,3) by linarith+
  note k = kmalloc_pages(1) [OF n(2,3), of _ s, OF refl, unfolded n(1)]
  have g: "alloc_kpages (int n) s = (let (pa, s) = getppages n s in if pa = 0 then (0, s) else (PADDR_TO_KVADDR pa, s))"
    using assms(3) by (simp add: alloc_kpages_def u32_id)
  have p: "PADDR_TO_KVADDR (firstpaddr s) = MIPS_KSEG0 + firstpaddr s" "MIPS_KSEG0 + firstpaddr s \<noteq> 0"
    using r by (simp_all add: PADDR_TO_KVADDR_def page_consts u32_id nat_add_distrib)
  have gp: "getppages n s = (0, s) \<and> lastpaddr s < firstpaddr s + 4096 * n \<or> getppages n s = (firstpaddr s, s\<lparr>firstpaddr := firstpaddr s + 4096 * n\<rparr>)
      \<and> firstpaddr s + 4096 * n \<le> lastpaddr s"
  proof -
    have "u32 (int n * int PAGE_SIZE) = 4096 * n" using assms(3) by (simp add: u32_id PAGE_SIZE_def nat_mult_distrib)
    moreover have "u32 (int (firstpaddr s) + int (4096 * n)) = firstpaddr s + 4096 * n" using r(2) n(3) by (intro u32_sum) linarith
    ultimately show ?thesis by (auto simp: getppages_def ram_stealmem_def spl_high_def spl_x_def Let_def)
  qed
  then show ?thesis
  proof (elim disjE)
    assume e: "getppages n s = (firstpaddr s, s\<lparr>firstpaddr := firstpaddr s + 4096 * n\<rparr>) \<and> firstpaddr s + 4096 * n \<le> lastpaddr s"
    then have "kmalloc (4096 * n) s = Some (Ptr (MIPS_KSEG0 + firstpaddr s), s\<lparr>firstpaddr := firstpaddr s + 4096 * n\<rparr>)"
      using k g p r(1) by (simp add: Let_def)
    with kmalloc_inv [OF assms(1) n(3)] e show ?thesis by auto
  qed simp
qed

definition as_mem :: "addrspace \<Rightarrow> (nat \<times> nat) set" where
  "as_mem as = {(MIPS_KSEG0 + as_pbase1 as, 4096 * as_npages1 as), (MIPS_KSEG0 + as_pbase2 as, 4096 * as_npages2 as), (MIPS_KSEG0 + as_stackpbase as, 49152)}"

definition as_fresh :: "addrspace \<Rightarrow> bool" where
  "as_fresh as \<longleftrightarrow> as_pbase1 as = 0 \<and> as_pbase2 as = 0 \<and> as_stackpbase as = 0
     \<and> 0 < as_npages1 as \<and> as_npages1 as \<le> 524288 \<and> 0 < as_npages2 as \<and> as_npages2 as \<le> 524288"

definition as_at :: "nat \<Rightarrow> addrspace \<Rightarrow> addrspace" where
  "as_at p as = as\<lparr>as_pbase1 := p, as_pbase2 := p + 4096 * as_npages1 as, as_stackpbase := p + 4096 * as_npages1 as + 4096 * as_npages2 as\<rparr>"

lemma as_at_simps [simp]:
  "as_vbase1 (as_at p as) = as_vbase1 as" "as_npages1 (as_at p as) = as_npages1 as" "as_pbase1 (as_at p as) = p"
  "as_vbase2 (as_at p as) = as_vbase2 as" "as_npages2 (as_at p as) = as_npages2 as" "as_pbase2 (as_at p as) = p + 4096 * as_npages1 as"
  "as_stackpbase (as_at p as) = p + 4096 * as_npages1 as + 4096 * as_npages2 as"
  by (simp_all add: as_at_def)

text \<open>\<open>as_prepare_load\<close> gives the address space the pages from \<open>firstpaddr\<close> on, or runs out of memory.\<close>

lemma as_prepare_load_cases:
  assumes "heap_inv s L" and "spaces s a = Some as" and "as_fresh as"
  shows "\<exists>r as' s'. as_prepare_load a s = Some (r, s') \<and> (\<exists>fp. s' = s\<lparr>firstpaddr := fp, spaces := (spaces s)(a \<mapsto> as')\<rparr>)
    \<and> (r = ENOMEM \<and> heap_inv s' L \<and> lastpaddr s < firstpaddr s + 4096 * (as_npages1 as + as_npages2 as + 12)
       \<or> r = OK \<and> as' = as_at (firstpaddr s) as \<and> firstpaddr s' = as_stackpbase as' + 49152 \<and> firstpaddr s' \<le> lastpaddr s
         \<and> heap_inv s' (as_mem as' \<union> L) \<and> (\<forall>b \<in> L. \<forall>c \<in> as_mem as'. extent b \<inter> extent c = {}))"
proof -
  note f = assms(3) [unfolded as_fresh_def]
  define n1 n2 where n: "n1 = as_npages1 as" "n2 = as_npages2 as"
  let ?p = "firstpaddr s" and ?up = "\<lambda>fp as'. s\<lparr>firstpaddr := fp, spaces := (spaces s)(a \<mapsto> as')\<rparr>"
  have e: "(s\<lparr>firstpaddr := fp\<rparr>)\<lparr>spaces := x\<rparr> = s\<lparr>spaces := x, firstpaddr := fp\<rparr>" for fp x by (cases s) simp
  define a1 a2 where a: "a1 = as\<lparr>as_pbase1 := ?p\<rparr>" "a2 = a1\<lparr>as_pbase2 := ?p + 4096 * n1\<rparr>"
  define t1 where "t1 = set_as a a1 (s\<lparr>firstpaddr := ?p + 4096 * n1\<rparr>)"
  define t2 where "t2 = set_as a a2 (t1\<lparr>firstpaddr := ?p + 4096 * n1 + 4096 * n2\<rparr>)"
  have t: "t1 = ?up (?p + 4096 * n1) a1" "t2 = ?up (?p + 4096 * n1 + 4096 * n2) a2" by (cases s; simp add: t1_def t2_def set_as_def)+
  let ?L1 = "insert (MIPS_KSEG0 + ?p, 4096 * n1) L"
  let ?L2 = "insert (MIPS_KSEG0 + ?p + 4096 * n1, 4096 * n2) ?L1"
  have pz: "0 < ?p" using heap_inv_ram [OF assms(1)] by (simp add: ram_ok_def)
  note D = as_prepare_load_def assms(2) f n Let_def kassert_def
  have out: ?thesis if "as_prepare_load a s = Some (ENOMEM, ?up fp as')" "heap_inv (?up fp as') L" "lastpaddr s < ?p + 4096 * (n1 + n2 + 12)" for fp as'
    using that unfolding n by blast
  have b1: "0 < n1" "n1 \<le> 524288" "0 < n2" "n2 \<le> 524288" using f n by simp_all
  consider (none) "getppages n1 s = (0, s)" "lastpaddr s < ?p + 4096 * n1" | (some) "getppages n1 s = (?p, s\<lparr>firstpaddr := ?p + 4096 * n1\<rparr>)"
      "heap_inv t1 ?L1" "\<forall>b \<in> L. extent b \<inter> extent (MIPS_KSEG0 + ?p, 4096 * n1) = {}"
    using getppages_cases [OF assms(1) b1(1,2)] by (auto simp: t1_def set_as_def)
  then show ?thesis
  proof cases
    case none
    then show ?thesis using assms(1) by (intro out [of "as\<lparr>as_pbase1 := 0\<rparr>" ?p]) (simp_all add: D set_as_def)
  next
    case some1: some
    have lp: "lastpaddr t1 = lastpaddr s" "lastpaddr t2 = lastpaddr s" by (simp_all add: t1_def t2_def set_as_def)
    have t1: "firstpaddr t1 = ?p + 4096 * n1" by (simp add: t1_def set_as_def)
    consider (none) "getppages n2 t1 = (0, t1)" "lastpaddr s < ?p + 4096 * n1 + 4096 * n2" | (some) "getppages n2 t1 = (?p + 4096 * n1, t1\<lparr>firstpaddr := ?p + 4096 * n1 + 4096 * n2\<rparr>)"
        "heap_inv t2 ?L2" "\<forall>b \<in> ?L1. extent b \<inter> extent (MIPS_KSEG0 + ?p + 4096 * n1, 4096 * n2) = {}"
      using getppages_cases [OF some1(2) b1(3,4)] t1 lp(1) by (auto simp: t2_def set_as_def add.assoc)
    then show ?thesis
    proof cases
      case none
      have "as_prepare_load a s = Some (ENOMEM, set_as a (a1\<lparr>as_pbase2 := 0\<rparr>) t1)"
        using none some1(1) pz by (simp add: D a t1_def)
      moreover have "set_as a (a1\<lparr>as_pbase2 := 0\<rparr>) t1 = ?up (?p + 4096 * n1) (a1\<lparr>as_pbase2 := 0\<rparr>)"
        unfolding t1_def set_as_def by (cases s) simp
      moreover have "heap_inv (set_as a (a1\<lparr>as_pbase2 := 0\<rparr>) t1) L" using heap_inv_sub [OF some1(2)] by (auto simp: set_as_def)
      moreover have "lastpaddr s < ?p + 4096 * (n1 + n2 + 12)" using none(2) by simp
      ultimately show ?thesis using out by metis
    next
      case some2: some
      have t2: "firstpaddr t2 = ?p + 4096 * n1 + 4096 * n2" by (simp add: t2_def set_as_def)
      have b3: "0 < DUMBVM_STACKPAGES" "DUMBVM_STACKPAGES \<le> 524288" "4096 * DUMBVM_STACKPAGES = 49152" by (simp_all add: DUMBVM_STACKPAGES_def)
      show ?thesis
        using getppages_cases [OF some2(2) b3(1,2), unfolded b3(3) t2]
      proof (elim disjE conjE)
        assume g: "getppages DUMBVM_STACKPAGES t2 = (0, t2)" and l: "lastpaddr t2 < ?p + 4096 * n1 + 4096 * n2 + 49152"
        have "as_prepare_load a s = Some (ENOMEM, set_as a (a2\<lparr>as_stackpbase := 0\<rparr>) t2)"
          using g some1(1) some2(1) pz by (simp add: D a t1_def t2_def)
        moreover have "set_as a (a2\<lparr>as_stackpbase := 0\<rparr>) t2 = ?up (?p + 4096 * n1 + 4096 * n2) (a2\<lparr>as_stackpbase := 0\<rparr>)"
          unfolding t1_def t2_def set_as_def by (cases s) simp
        moreover have "heap_inv (set_as a (a2\<lparr>as_stackpbase := 0\<rparr>) t2) L" using heap_inv_sub [OF some2(2)] by (auto simp: set_as_def)
        moreover have "lastpaddr s < ?p + 4096 * (n1 + n2 + 12)" using l lp by simp
        ultimately show ?thesis using out by metis
      next
        let ?q = "?p + 4096 * n1 + 4096 * n2" and ?as = "as_at ?p as"
        assume g: "getppages DUMBVM_STACKPAGES t2 = (?q, t2\<lparr>firstpaddr := ?q + 49152\<rparr>)" and l: "?q + 49152 \<le> lastpaddr t2"
          and i: "heap_inv (t2\<lparr>firstpaddr := ?q + 49152\<rparr>) (insert (MIPS_KSEG0 + ?q, 49152) ?L2)"
          and x: "\<forall>b \<in> ?L2. extent b \<inter> extent (MIPS_KSEG0 + ?q, 49152) = {}"
        have as: "?as = a2\<lparr>as_stackpbase := ?q\<rparr>" by (simp add: as_at_def a n)
        have "as_prepare_load a s = Some (OK, set_as a ?as (t2\<lparr>firstpaddr := ?q + 49152\<rparr>))"
          using g some1(1) some2(1) pz by (simp add: D a t1_def t2_def as)
        moreover have u: "set_as a ?as (t2\<lparr>firstpaddr := ?q + 49152\<rparr>) = ?up (?q + 49152) ?as"
          unfolding t1_def t2_def set_as_def by (cases s) simp
        moreover have m: "as_mem ?as \<union> L = insert (MIPS_KSEG0 + ?q, 49152) ?L2" by (auto simp: as_mem_def as_at_def n)
        moreover have "\<forall>b \<in> L. \<forall>c \<in> as_mem ?as. extent b \<inter> extent c = {}"
          using x some1(3) some2(3) by (auto simp: as_mem_def as_at_def n add.assoc)
        moreover have "?q + 49152 \<le> lastpaddr s" using l by (simp add: t1_def t2_def set_as_def)
        moreover have "heap_inv (?up (?q + 49152) ?as) (as_mem ?as \<union> L)" unfolding u [symmetric] m using i by (simp add: set_as_def)
        ultimately show ?thesis
          by (intro exI [of _ OK] exI [of _ ?as] exI [of _ "?up (?q + 49152) ?as"]) (auto simp: as_at_def n)
      qed
    qed
  qed
qed

section \<open>Faults find the pages\<close>

text \<open>The regions of a program: whole pages below the stack, which do not overlap.\<close>

definition regions_ok :: "addrspace \<Rightarrow> bool" where
  "regions_ok as \<longleftrightarrow> 0 < as_vbase1 as \<and> as_vbase1 as mod 4096 = 0 \<and> as_vbase1 as + 4096 * as_npages1 as \<le> 2147434496
     \<and> 0 < as_vbase2 as \<and> as_vbase2 as mod 4096 = 0 \<and> as_vbase2 as + 4096 * as_npages2 as \<le> 2147434496
     \<and> (as_vbase1 as + 4096 * as_npages1 as \<le> as_vbase2 as \<or> as_vbase2 as + 4096 * as_npages2 as \<le> as_vbase1 as)"

definition user_pages :: "addrspace \<Rightarrow> nat set" where
  "user_pages as = {v. v mod 4096 = 0 \<and> (as_vbase1 as \<le> v \<and> v < as_vbase1 as + 4096 * as_npages1 as
      \<or> as_vbase2 as \<le> v \<and> v < as_vbase2 as + 4096 * as_npages2 as \<or> 2147434496 \<le> v \<and> v < 2147483648)}"

definition entry_valid :: "nat \<times> nat \<Rightarrow> bool" where
  "entry_valid e \<longleftrightarrow> snd e AND TLBLO_VALID \<noteq> 0"

lemma tlb_load_eq:
  "tlb_load i n ehi elo t =
     (if \<exists>j. i \<le> j \<and> j < i + n \<and> \<not> entry_valid (t ! j) then Some (t[(LEAST j. i \<le> j \<and> \<not> entry_valid (t ! j)) := (ehi, elo)]) else None)"
proof (induction n arbitrary: i)
  case (Suc n)
  show ?case
  proof (cases "entry_valid (t ! i)")
    case True
    then have e: "(i \<le> j \<and> \<not> entry_valid (t ! j)) = (Suc i \<le> j \<and> \<not> entry_valid (t ! j))" for j
      by (metis Suc_leD le_antisym not_less_eq_eq)
    then have "(\<exists>j. i \<le> j \<and> j < i + Suc n \<and> \<not> entry_valid (t ! j)) = (\<exists>j. Suc i \<le> j \<and> j < Suc i + n \<and> \<not> entry_valid (t ! j))" by auto
    moreover have "tlb_load i (Suc n) ehi elo t = tlb_load (Suc i) n ehi elo t" using True by (simp add: entry_valid_def)
    ultimately show ?thesis unfolding e using Suc [of "Suc i"] by (simp only:)
  next
    case False
    then have "(LEAST j. i \<le> j \<and> \<not> entry_valid (t ! j)) = i" by (intro Least_equality) auto
    with False show ?thesis by (auto simp: entry_valid_def intro!: exI [of _ i])
  qed
qed simp

lemma page_of_aligned: "page_of p = p \<longleftrightarrow> p mod 4096 = 0"
  using mod_less_eq_dividend [of p 4096] by (auto simp: page_of_def PAGE_SIZE_def)

lemma page_of_mod: "page_of a mod 4096 = 0"
  by (simp add: page_of_def PAGE_SIZE_def minus_mod_eq_mult_div)

lemma entry_word:
  assumes "p mod 4096 = 0"
  shows "page_of (p OR TLBLO_DIRTY OR TLBLO_VALID) = p" "entry_valid (v, p OR TLBLO_DIRTY OR TLBLO_VALID)"
proof -
  have "take_bit 12 p = 0" using assms by (simp add: take_bit_eq_mod)
  moreover have "(1536 :: nat) = mask 12 AND 1536" by (simp add: mask_eq_exp_minus_1)
  ultimately have z: "p AND 1536 = 0" by (metis and.assoc take_bit_eq_mask and_zero_eq zero_and_eq)
  have "p + 1536 = p OR 1536" by (rule disjunctive_add_eq_or) (rule z)
  moreover have "p OR TLBLO_DIRTY OR TLBLO_VALID = p OR 1536" by (simp add: vm_consts or.assoc)
  ultimately have e: "p OR TLBLO_DIRTY OR TLBLO_VALID = p + 1536" by simp
  have "(p + 1536) mod 4096 = 1536" using mod_add_left_eq [of p 4096 1536] assms by simp
  then show "page_of (p OR TLBLO_DIRTY OR TLBLO_VALID) = p" unfolding e by (simp add: page_of_def PAGE_SIZE_def)
  have "(p OR TLBLO_DIRTY OR TLBLO_VALID) AND TLBLO_VALID = TLBLO_VALID" by (rule bit_eqI) (auto simp: bit_simps)
  then show "entry_valid (v, p OR TLBLO_DIRTY OR TLBLO_VALID)" by (simp add: entry_valid_def TLBLO_VALID_def)
qed

definition placed :: "nat \<Rightarrow> addrspace \<Rightarrow> bool" where
  "placed f as \<longleftrightarrow> regions_ok as \<and> 0 < as_npages1 as \<and> 0 < as_npages2 as \<and> 4096 \<le> f \<and> f mod 4096 = 0
     \<and> f + 4096 * as_npages1 as + 4096 * as_npages2 as + 49152 \<le> 532676608"

definition phys :: "nat \<Rightarrow> addrspace \<Rightarrow> nat \<Rightarrow> nat" where
  "phys f as v = (if as_vbase1 as \<le> v \<and> v < as_vbase1 as + 4096 * as_npages1 as then v - as_vbase1 as + f
     else if as_vbase2 as \<le> v \<and> v < as_vbase2 as + 4096 * as_npages2 as then v - as_vbase2 as + (f + 4096 * as_npages1 as)
     else v - 2147434496 + (f + 4096 * as_npages1 as + 4096 * as_npages2 as))"

lemma as_translate_at:
  assumes "placed f as" and "v mod 4096 = 0"
  shows "as_translate (as_at f as) v = (if v \<in> user_pages as then Some (phys f as v) else None)"
proof -
  note r = assms(1) [unfolded placed_def regions_ok_def]
  have u: "u32 (int n * int PAGE_SIZE) = 4096 * n" if "4096 * n \<le> 532676608" for n
    using that u32_id [of "int (4096 * n)"] by (simp add: PAGE_SIZE_def mult.commute)
  have m: "4096 * as_npages1 as \<le> 532676608" "4096 * as_npages2 as \<le> 532676608" using r by linarith+
  have t: "u32 (int (as_vbase1 as) + int (4096 * as_npages1 as)) = as_vbase1 as + 4096 * as_npages1 as"
      "u32 (int (as_vbase2 as) + int (4096 * as_npages2 as)) = as_vbase2 as + 4096 * as_npages2 as"
    using r by (intro u32_sum; linarith)+
  have a: "u32 (int x + int y) = x + y" if "x < 2147483648" "y < 2147483648" for x y using that by (intro u32_sum) linarith
  have s: "USERSTACK - DUMBVM_STACKPAGES * PAGE_SIZE = 2147434496" "USERSTACK = 2147483648" by (simp_all add: vm_consts)
  have "as_translate (as_at f as) v =
     (if as_vbase1 as \<le> v \<and> v < as_vbase1 as + 4096 * as_npages1 as then Some (u32 (int (v - as_vbase1 as) + int f))
      else if as_vbase2 as \<le> v \<and> v < as_vbase2 as + 4096 * as_npages2 as then Some (u32 (int (v - as_vbase2 as) + int (f + 4096 * as_npages1 as)))
      else if 2147434496 \<le> v \<and> v < 2147483648 then Some (u32 (int (v - 2147434496) + int (f + 4096 * as_npages1 as + 4096 * as_npages2 as)))
      else None)"
    unfolding as_translate_def Let_def s(1) unfolding s(2) by (simp only: as_at_simps u [OF m(1)] u [OF m(2)] t)
  also have "\<dots> = (if v \<in> user_pages as then Some (phys f as v) else None)"
  proof -
    have "u32 (int (v - as_vbase1 as) + int f) = v - as_vbase1 as + f" if "as_vbase1 as \<le> v" "v < as_vbase1 as + 4096 * as_npages1 as"
      using that r by (intro a) linarith+
    moreover have "u32 (int (v - as_vbase2 as) + int (f + 4096 * as_npages1 as)) = v - as_vbase2 as + (f + 4096 * as_npages1 as)"
      if "as_vbase2 as \<le> v" "v < as_vbase2 as + 4096 * as_npages2 as"
      using that r by (intro a) linarith+
    moreover have "u32 (int (v - 2147434496) + int (f + 4096 * as_npages1 as + 4096 * as_npages2 as)) = v - 2147434496 + (f + 4096 * as_npages1 as + 4096 * as_npages2 as)"
      if "2147434496 \<le> v" "v < 2147483648"
      using that r by (intro a) linarith+
    ultimately show ?thesis using assms(2) by (simp add: user_pages_def phys_def del: of_nat_add of_nat_diff cong: if_cong)
  qed
  finally show ?thesis .
qed

lemma phys_bounds:
  assumes "placed f as" and "v \<in> user_pages as"
  shows "f \<le> phys f as v" "phys f as v + 4096 \<le> f + 4096 * as_npages1 as + 4096 * as_npages2 as + 49152" "phys f as v mod 4096 = 0"
proof -
  note r = assms(1) [unfolded placed_def regions_ok_def]
  from r assms(2) obtain q b1 b2 g where e: "v = 4096 * q" "as_vbase1 as = 4096 * b1" "as_vbase2 as = 4096 * b2" "f = 4096 * g"
    by (auto simp: user_pages_def elim!: dvdE simp flip: dvd_eq_mod_eq_0)
  have "\<exists>k. phys f as v = 4096 * k \<and> g \<le> k \<and> k + 1 \<le> g + as_npages1 as + as_npages2 as + 12"
  proof -
    consider (one) "b1 \<le> q" "q < b1 + as_npages1 as" | (two) "\<not> (b1 \<le> q \<and> q < b1 + as_npages1 as)" "b2 \<le> q" "q < b2 + as_npages2 as"
      | (three) "\<not> (b1 \<le> q \<and> q < b1 + as_npages1 as)" "\<not> (b2 \<le> q \<and> q < b2 + as_npages2 as)" "524276 \<le> q" "q < 524288"
      using assms(2) unfolding user_pages_def e by force
    then show ?thesis
    proof cases
      case one
      then show ?thesis by (intro exI [of _ "q - b1 + g"]) (auto simp: phys_def e algebra_simps diff_mult_distrib2)
    next
      case two
      then show ?thesis by (intro exI [of _ "q - b2 + (g + as_npages1 as)"]) (auto simp: phys_def e algebra_simps diff_mult_distrib2)
    next
      case three
      then show ?thesis by (intro exI [of _ "q - 524276 + (g + as_npages1 as + as_npages2 as)"]) (auto simp: phys_def e algebra_simps diff_mult_distrib2)
    qed
  qed
  then obtain k where "phys f as v = 4096 * k" "g \<le> k" "k + 1 \<le> g + as_npages1 as + as_npages2 as + 12" by blast
  then show "f \<le> phys f as v" "phys f as v + 4096 \<le> f + 4096 * as_npages1 as + 4096 * as_npages2 as + 49152" "phys f as v mod 4096 = 0"
    using e(4) by simp_all
qed

lemma phys_inj:
  assumes "placed f as"
  shows "inj_on (phys f as) (user_pages as)"
proof (rule inj_on_inverseI [where g = "\<lambda>p. if p < f + 4096 * as_npages1 as then p - f + as_vbase1 as
      else if p < f + 4096 * as_npages1 as + 4096 * as_npages2 as then p - (f + 4096 * as_npages1 as) + as_vbase2 as
      else p - (f + 4096 * as_npages1 as + 4096 * as_npages2 as) + 2147434496"])
  fix v assume "v \<in> user_pages as"
  then show "(if phys f as v < f + 4096 * as_npages1 as then phys f as v - f + as_vbase1 as
      else if phys f as v < f + 4096 * as_npages1 as + 4096 * as_npages2 as then phys f as v - (f + 4096 * as_npages1 as) + as_vbase2 as
      else phys f as v - (f + 4096 * as_npages1 as + 4096 * as_npages2 as) + 2147434496) = v"
    by (auto simp: user_pages_def phys_def)
qed

lemma as_checks_at:
  assumes "placed f as"
  shows "as_checks (as_at f as) = Some ()"
proof -
  note r = assms [unfolded placed_def regions_ok_def]
  have "(f + 4096 * as_npages1 as) mod 4096 = 0" "(f + 4096 * as_npages1 as + 4096 * as_npages2 as) mod 4096 = 0" using r by simp_all
  with r show ?thesis by (simp add: as_checks_def kassert_def page_of_aligned)
qed

lemma vm_fault_at:
  assumes "placed f as" and "spaces u a = Some (as_at f as)" and "t_vmspace u = Ptr a" and "ft = VM_FAULT_READ \<or> ft = VM_FAULT_WRITE"
  shows "vm_fault ft va u =
    (if page_of va \<in> user_pages as \<and> (\<exists>j < 64. \<not> entry_valid (tlb u ! j)) then
       Some (OK, u\<lparr>tlb := (tlb u)[(LEAST j. \<not> entry_valid (tlb u ! j)) := (page_of va, phys f as (page_of va) OR TLBLO_DIRTY OR TLBLO_VALID)]\<rparr>)
     else Some (EFAULT, u))"
proof -
  have t: "spl_x (m_spl u) (u\<lparr>m_spl := 15, tlb := x\<rparr>) = u\<lparr>tlb := x\<rparr>" "spl_x (m_spl u) (u\<lparr>m_spl := 15\<rparr>) = u" for x
    by (cases u; simp add: spl_x_def)+
  have p: "page_of (phys f as (page_of va)) = phys f as (page_of va)" if "page_of va \<in> user_pages as"
    using phys_bounds(3) [OF assms(1) that] by (simp add: page_of_aligned)
  have ne: "VM_FAULT_READ \<noteq> VM_FAULT_READONLY" "VM_FAULT_WRITE \<noteq> VM_FAULT_READONLY" by (simp_all add: vm_consts)
  show ?thesis
    using assms(4) p by (elim disjE) (simp_all add: vm_fault_def spl_high_def kassert_def Let_def ne assms(2,3) as_checks_at [OF assms(1)]
        as_translate_at [OF assms(1) page_of_mod] tlb_load_eq [of 0, simplified] NUM_TLB_def t)
qed

section \<open>Copies of address spaces\<close>

definition vm_inv :: "'a vmsys_scheme \<Rightarrow> (nat \<times> nat) set \<Rightarrow> bool" where
  "vm_inv s L \<longleftrightarrow> heap_inv s L \<and> (\<forall>a. spaces s a \<noteq> None \<longrightarrow> (a, 28) \<in> L)"

lemma kvaddr_live:
  assumes "heap_inv s L" and "(MIPS_KSEG0 + p, n) \<in> L"
  shows "PADDR_TO_KVADDR p = MIPS_KSEG0 + p" "n \<le> 532676608"
proof -
  have "p + n \<le> 532676608"
    using live_block_facts(3,4) [OF assms] heap_inv_ram [OF assms(1)] by (simp add: ram_ok_def)
  then show "PADDR_TO_KVADDR p = MIPS_KSEG0 + p" "n \<le> 532676608"
    by (simp_all add: PADDR_TO_KVADDR_def page_consts u32_id nat_add_distrib)
qed

lemma core_move_live:
  assumes "heap_inv s L" and "(a, n) \<in> L" and "(b, n) \<in> L"
  shows "core_move a b n s = Some (s\<lparr>core := copied a b 0 n (core s)\<rparr>)" "heap_inv (s\<lparr>core := copied a b 0 n (core s)\<rparr>) L"
proof -
  have m: "mapped (core s) a n" "mapped (core s) b n" using live_block_facts(5) [OF assms(1)] assms(2,3) by blast+
  then show "core_move a b n s = Some (s\<lparr>core := copied a b 0 n (core s)\<rparr>)" by (simp add: core_move_def memmove_correct)
  show "heap_inv (s\<lparr>core := copied a b 0 n (core s)\<rparr>) L"
  proof (rule stores_inv [OF assms(1)])
    fix y assume "\<forall>b \<in> L. y \<notin> extent b"
    with assms(2) have "y \<notin> extent (a, n)" by blast
    then show "copied a b 0 n (core s) y = core s y" by (auto simp: copied_def extent_def)
  qed (rule mapped_copied [OF m(2) order_refl])
qed

text \<open>A small request takes at most one page.\<close>

lemma allocpageref_ram: "allocpageref s = Some (r, s') \<Longrightarrow> firstpaddr s' = firstpaddr s \<and> lastpaddr s' = lastpaddr s"
  by (auto simp: allocpageref_def split: Option.bind_splits nullable.splits)

lemma freepageref_ram: "freepageref p s = Some s' \<Longrightarrow> firstpaddr s' = firstpaddr s \<and> lastpaddr s' = lastpaddr s"
  by (auto simp: freepageref_def Let_def kassert_def split: Option.bind_splits if_splits)

lemma doalloc_ram: "doalloc spl p s = Some (r, s') \<Longrightarrow> firstpaddr s' = firstpaddr s \<and> lastpaddr s' = lastpaddr s"
  by (auto simp: doalloc_def Let_def spl_x_def split: Option.bind_splits)

lemma fresh_page_ram: "fresh_page t p a s = Some s' \<Longrightarrow> firstpaddr s' = firstpaddr s \<and> lastpaddr s' = lastpaddr s"
  by (auto simp: fresh_page_def Let_def split: Option.bind_splits)

lemma one_page_ram:
  "alloc_kpages 1 s = (a, s') \<Longrightarrow> (firstpaddr s' = firstpaddr s \<or> firstpaddr s' = u32 (int (firstpaddr s) + 4096)) \<and> lastpaddr s' = lastpaddr s"
  by (auto simp: alloc_kpages_def getppages_def ram_stealmem_def spl_high_def spl_x_def Let_def u32_id PAGE_SIZE_def split: if_splits)

lemma kmalloc_small_ram:
  assumes "kmalloc sz s = Some (r, s')" and "sz < 2048" and "firstpaddr s < 4294963200"
  shows "firstpaddr s' \<le> firstpaddr s + 4096 \<and> lastpaddr s' = lastpaddr s"
proof -
  have "(firstpaddr s' = firstpaddr s \<or> firstpaddr s' = u32 (int (firstpaddr s) + 4096)) \<and> lastpaddr s' = lastpaddr s"
    using assms(1,2)
    by (auto simp: kmalloc_def subpage_kmalloc_def Let_def spl_high_def spl_x_def LARGEST_SUBPAGE_SIZE_def
        dest!: allocpageref_ram freepageref_ram doalloc_ram fresh_page_ram one_page_ram
        split: Option.bind_splits if_splits prod.splits nullable.splits)
  then show ?thesis using u32_sum [of "firstpaddr s" 4096] assms(3) by auto
qed

text \<open>\<open>as_create\<close> puts the structure into a block of its own.\<close>

lemma as_create_cases:
  assumes "vm_inv s L"
  shows "\<exists>r s'. as_create s = Some (r, s') \<and> m_spl s' = m_spl s \<and> tlb s' = tlb s \<and> t_vmspace s' = t_vmspace s
    \<and> (\<forall>b \<in> L. \<forall>x \<in> extent b. core s' x = core s x) \<and> firstpaddr s' \<le> firstpaddr s + 4096 \<and> lastpaddr s' = lastpaddr s
    \<and> (r = NULL \<and> vm_inv s' L \<and> spaces s' = spaces s \<and> no_room 28 s
       \<or> (\<exists>a. r = Ptr a \<and> vm_inv s' (insert (a, 28) L) \<and> spaces s a = None \<and> (a, 28) \<notin> L \<and> spaces s' = (spaces s)(a \<mapsto> no_space_yet)))"
proof -
  have h: "heap_inv s L" using assms by (simp add: vm_inv_def)
  from kmalloc_inv [OF h, of 28] obtain r s' where k: "kmalloc 28 s = Some (r, s')" "m_spl s' = m_spl s" "\<forall>b \<in> L. \<forall>x \<in> extent b. core s' x = core s x"
    "r = NULL \<and> heap_inv s' L \<and> no_room 28 s \<or> (\<exists>x. r = Ptr x \<and> heap_inv s' (insert (x, 28) L) \<and> (\<forall>b \<in> L. extent b \<inter> extent (x, 28) = {}))" by auto
  have "firstpaddr s' \<le> firstpaddr s + 4096 \<and> lastpaddr s' = lastpaddr s"
    using kmalloc_small_ram [OF k(1)] heap_inv_ram [OF h] by (simp add: ram_ok_def)
  note m = vmsys_more [OF kmalloc_more [OF k(1)]] this
  from k(4) show ?thesis
  proof (elim disjE exE conjE)
    assume "r = NULL" "heap_inv s' L" "no_room 28 s"
    with k m assms show ?thesis by (auto simp: as_create_def vm_inv_def)
  next
    fix x assume x: "r = Ptr x" "heap_inv s' (insert (x, 28) L)" "\<forall>b \<in> L. extent b \<inter> extent (x, 28) = {}"
    have "(x, 28) \<notin> L" using x(3) by (force simp: extent_def)
    moreover have "spaces s x = None" using calculation assms by (auto simp: vm_inv_def)
    ultimately show ?thesis
      using x k m assms by (intro exI [of _ r] exI [of _ "set_as x no_space_yet s'"]) (auto simp: as_create_def set_as_def vm_inv_def)
  qed
qed

lemma as_destroy_live:
  assumes "heap_inv s (insert (a, 28) L)" and "(a, 28) \<notin> L"
  shows "\<exists>s'. as_destroy a s = Some s' \<and> heap_inv s' L \<and> m_spl s' = m_spl s \<and> tlb s' = tlb s \<and> t_vmspace s' = t_vmspace s
    \<and> spaces s' = (spaces s)(a := None) \<and> (\<forall>b \<in> L. \<forall>x \<in> extent b. core s' x = core s x)"
proof -
  have "insert (a, 28) L - {(a, 28)} = L" using assms(2) by auto
  with kfree_inv [OF assms(1), of a 28] obtain s' where k: "kfree (Ptr a) s = Some s'" "m_spl s' = m_spl s" "heap_inv s' L"
    "\<forall>b \<in> L. \<forall>x \<in> extent b. core s' x = core s x" by auto
  with vmsys_more [OF kfree_more [OF k(1)]] show ?thesis by (simp add: as_destroy_def)
qed

lemma live_disjoint: "heap_inv s L \<Longrightarrow> b \<in> L \<Longrightarrow> c \<in> L \<Longrightarrow> b \<noteq> c \<Longrightarrow> extent b \<inter> extent c = {}"
  unfolding heap_inv_def live_ok_def by blast

lemma copied_at: "i < n \<Longrightarrow> copied a b 0 n m (a + i) = m (b + i)"
  by (simp add: copied_def)

lemma copied_other: "extent (a, n) \<inter> extent c = {} \<Longrightarrow> x \<in> extent c \<Longrightarrow> copied a b 0 n m x = m x"
  by (auto simp: copied_def extent_def)

lemma byte_of: "i < n \<Longrightarrow> a + i \<in> extent (a, n)"
  by (simp add: extent_def)

text \<open>The bytes of the pages of an address space.\<close>

definition same_bytes :: "mem \<Rightarrow> addrspace \<Rightarrow> mem \<Rightarrow> addrspace \<Rightarrow> bool" where
  "same_bytes m as m' as' \<longleftrightarrow>
     (\<forall>i < 4096 * as_npages1 as. m' (MIPS_KSEG0 + as_pbase1 as' + i) = m (MIPS_KSEG0 + as_pbase1 as + i))
     \<and> (\<forall>i < 4096 * as_npages2 as. m' (MIPS_KSEG0 + as_pbase2 as' + i) = m (MIPS_KSEG0 + as_pbase2 as + i))
     \<and> (\<forall>i < 49152. m' (MIPS_KSEG0 + as_stackpbase as' + i) = m (MIPS_KSEG0 + as_stackpbase as + i))"

lemma same_bytes_cong:
  "same_bytes m1 as m' as' \<Longrightarrow> \<forall>b \<in> as_mem as. \<forall>x \<in> extent b. m1 x = m x \<Longrightarrow> same_bytes m as m' as'"
  by (simp add: same_bytes_def as_mem_def byte_of)

definition copy_pages :: "addrspace \<Rightarrow> addrspace \<Rightarrow> mem \<Rightarrow> mem" where
  "copy_pages as' as m =
     copied (MIPS_KSEG0 + as_stackpbase as') (MIPS_KSEG0 + as_stackpbase as) 0 49152
       (copied (MIPS_KSEG0 + as_pbase2 as') (MIPS_KSEG0 + as_pbase2 as) 0 (4096 * as_npages2 as)
         (copied (MIPS_KSEG0 + as_pbase1 as') (MIPS_KSEG0 + as_pbase1 as) 0 (4096 * as_npages1 as) m))"

lemma copy_pages_same:
  assumes "heap_inv s L" and "as_mem as' \<subseteq> L" and "as_mem as \<subseteq> L - as_mem as'" and "as' = as_at f no"
    and "as_npages1 no = as_npages1 as" and "as_npages2 no = as_npages2 as" and "0 < as_npages1 as" and "0 < as_npages2 as"
  shows "same_bytes (core s) as (copy_pages as' as (core s)) as'" "\<And>b x. b \<in> L - as_mem as' \<Longrightarrow> x \<in> extent b \<Longrightarrow> copy_pages as' as (core s) x = core s x"
proof -
  let ?d1 = "(MIPS_KSEG0 + as_pbase1 as', 4096 * as_npages1 as)" and ?d2 = "(MIPS_KSEG0 + as_pbase2 as', 4096 * as_npages2 as)"
    and ?d3 = "(MIPS_KSEG0 + as_stackpbase as', 49152 :: nat)"
  have m: "as_mem as' = {?d1, ?d2, ?d3}" using assms(4-6) by (auto simp: as_mem_def)
  have ne: "?d1 \<noteq> ?d2" "?d1 \<noteq> ?d3" "?d2 \<noteq> ?d3" using assms(4-8) by auto
  note x = live_disjoint [OF assms(1)]
  have o: "copied a b 0 n mm y = mm y" if "(a, n) \<in> as_mem as'" "c \<in> L" "c \<noteq> (a, n)" "y \<in> extent c" for a b n mm y c
    using x [of "(a, n)" c] that assms(2) by (intro copied_other [of a n c]) auto
  show k: "copy_pages as' as (core s) y = core s y" if "b \<in> L - as_mem as'" "y \<in> extent b" for b y
    using that o [of _ _ b] unfolding copy_pages_def m by simp
  have s: "(MIPS_KSEG0 + as_pbase1 as, 4096 * as_npages1 as) \<in> L - as_mem as'" "(MIPS_KSEG0 + as_pbase2 as, 4096 * as_npages2 as) \<in> L - as_mem as'"
    "(MIPS_KSEG0 + as_stackpbase as, 49152) \<in> L - as_mem as'" using assms(3) by (auto simp: as_mem_def)
  have d: "?d1 \<in> L" "?d2 \<in> L" using assms(2) m by auto
  show "same_bytes (core s) as (copy_pages as' as (core s)) as'"
    unfolding same_bytes_def
  proof (intro conjI allI impI)
    fix i assume i: "i < 4096 * as_npages1 as"
    show "copy_pages as' as (core s) (MIPS_KSEG0 + as_pbase1 as' + i) = core s (MIPS_KSEG0 + as_pbase1 as + i)"
      using i o [OF _ d(1) _ byte_of [OF i]] ne m by (simp add: copied_at copy_pages_def)
  next
    fix i assume i: "i < 4096 * as_npages2 as"
    show "copy_pages as' as (core s) (MIPS_KSEG0 + as_pbase2 as' + i) = core s (MIPS_KSEG0 + as_pbase2 as + i)"
      using i o [OF _ d(2) _ byte_of [OF i]] o [OF _ _ _ byte_of [OF i], of "MIPS_KSEG0 + as_pbase1 as'"] s(2) ne m by (simp add: copied_at copy_pages_def)
  next
    fix i :: nat assume i: "i < 49152"
    show "copy_pages as' as (core s) (MIPS_KSEG0 + as_stackpbase as' + i) = core s (MIPS_KSEG0 + as_stackpbase as + i)"
      using i o [OF _ _ _ byte_of [OF i]] s(3) ne m by (simp add: copied_at copy_pages_def)
  qed
qed

lemma core_moves_live:
  assumes "heap_inv s L" and "as_mem as' \<subseteq> L" and "as_mem as \<subseteq> L" and "as_npages1 as' = as_npages1 as" and "as_npages2 as' = as_npages2 as"
  shows "do { s \<leftarrow> core_move (PADDR_TO_KVADDR (as_pbase1 as')) (PADDR_TO_KVADDR (as_pbase1 as)) (u32 (int (as_npages1 as) * int PAGE_SIZE)) s;
       s \<leftarrow> core_move (PADDR_TO_KVADDR (as_pbase2 as')) (PADDR_TO_KVADDR (as_pbase2 as)) (u32 (int (as_npages2 as) * int PAGE_SIZE)) s;
       s \<leftarrow> core_move (PADDR_TO_KVADDR (as_stackpbase as')) (PADDR_TO_KVADDR (as_stackpbase as)) (DUMBVM_STACKPAGES * PAGE_SIZE) s;
       kret v s } = kret v (s\<lparr>core := copy_pages as' as (core s)\<rparr>)"
    "heap_inv (s\<lparr>core := copy_pages as' as (core s)\<rparr>) L"
proof -
  have i: "(MIPS_KSEG0 + as_pbase1 as, 4096 * as_npages1 as) \<in> L" "(MIPS_KSEG0 + as_pbase2 as, 4096 * as_npages2 as) \<in> L"
    "(MIPS_KSEG0 + as_stackpbase as, 49152) \<in> L" "(MIPS_KSEG0 + as_pbase1 as', 4096 * as_npages1 as) \<in> L"
    "(MIPS_KSEG0 + as_pbase2 as', 4096 * as_npages2 as) \<in> L" "(MIPS_KSEG0 + as_stackpbase as', 49152) \<in> L"
    using assms(2-5) by (auto simp: as_mem_def)
  note p = i [THEN kvaddr_live(1) [OF assms(1)]]
  have u: "u32 (int (as_npages1 as) * int PAGE_SIZE) = 4096 * as_npages1 as" "u32 (int (as_npages2 as) * int PAGE_SIZE) = 4096 * as_npages2 as"
    "DUMBVM_STACKPAGES * PAGE_SIZE = 49152"
    using i(1,2) [THEN kvaddr_live(2) [OF assms(1)]] u32_id [of "int (4096 * as_npages1 as)"] u32_id [of "int (4096 * as_npages2 as)"]
    by (simp_all add: vm_consts mult.commute)
  note c1 = core_move_live [OF assms(1) i(4,1)]
  note c2 = core_move_live [OF c1(2) i(5,2)]
  note c3 = core_move_live [OF c2(2) i(6,3)]
  show "do { s \<leftarrow> core_move (PADDR_TO_KVADDR (as_pbase1 as')) (PADDR_TO_KVADDR (as_pbase1 as)) (u32 (int (as_npages1 as) * int PAGE_SIZE)) s;
       s \<leftarrow> core_move (PADDR_TO_KVADDR (as_pbase2 as')) (PADDR_TO_KVADDR (as_pbase2 as)) (u32 (int (as_npages2 as) * int PAGE_SIZE)) s;
       s \<leftarrow> core_move (PADDR_TO_KVADDR (as_stackpbase as')) (PADDR_TO_KVADDR (as_stackpbase as)) (DUMBVM_STACKPAGES * PAGE_SIZE) s;
       kret v s } = kret v (s\<lparr>core := copy_pages as' as (core s)\<rparr>)"
    using c3(1) by (simp add: p u c1(1) c2(1) copy_pages_def)
  show "heap_inv (s\<lparr>core := copy_pages as' as (core s)\<rparr>) L" using c3(2) by (simp add: copy_pages_def)
qed

lemma as_copy_cases:
  assumes "vm_inv s L" and "spaces s old = Some as" and "as_mem as \<subseteq> L" and "0 < as_npages1 as" and "0 < as_npages2 as"
  shows "\<exists>r s'. as_copy old s = Some (r, s') \<and> m_spl s' = m_spl s \<and> tlb s' = tlb s \<and> t_vmspace s' = t_vmspace s
    \<and> (\<forall>b \<in> L. \<forall>x \<in> extent b. core s' x = core s x)
    \<and> (r = Inl ENOMEM \<and> vm_inv s' L \<and> spaces s' = spaces s
         \<and> (inuse (pagerefs_inuse s) = {..<256} \<or> lastpaddr s < firstpaddr s + 4096 * (as_npages1 as + as_npages2 as + 13))
       \<or> (\<exists>new as'. r = Inr new \<and> spaces s new = None \<and> spaces s' = (spaces s)(new \<mapsto> as') \<and> vm_inv s' (insert (new, 28) (as_mem as' \<union> L))
           \<and> (\<forall>b \<in> L. \<forall>c \<in> as_mem as'. extent b \<inter> extent c = {}) \<and> same_bytes (core s) as (core s') as'
           \<and> as_vbase1 as' = as_vbase1 as \<and> as_npages1 as' = as_npages1 as \<and> as_vbase2 as' = as_vbase2 as \<and> as_npages2 as' = as_npages2 as))"
proof -
  from as_create_cases [OF assms(1)] obtain r s1 where c: "as_create s = Some (r, s1)" "m_spl s1 = m_spl s" "tlb s1 = tlb s" "t_vmspace s1 = t_vmspace s"
      "\<forall>b \<in> L. \<forall>x \<in> extent b. core s1 x = core s x"
      "r = NULL \<and> vm_inv s1 L \<and> spaces s1 = spaces s \<and> no_room 28 s
       \<or> (\<exists>a. r = Ptr a \<and> vm_inv s1 (insert (a, 28) L) \<and> spaces s a = None \<and> (a, 28) \<notin> L \<and> spaces s1 = (spaces s)(a \<mapsto> no_space_yet))"
      "firstpaddr s1 \<le> firstpaddr s + 4096" "lastpaddr s1 = lastpaddr s"
    by blast
  from c(6) show ?thesis
  proof (elim disjE exE conjE)
    assume "r = NULL" "vm_inv s1 L" "spaces s1 = spaces s" "no_room 28 s"
    with c show ?thesis by (auto simp: as_copy_def kfail_def no_room_def)
  next
    fix new assume n: "r = Ptr new" "vm_inv s1 (insert (new, 28) L)" "spaces s new = None" "(new, 28) \<notin> L" "spaces s1 = (spaces s)(new \<mapsto> no_space_yet)"
    define no where "no = no_space_yet\<lparr>as_vbase1 := as_vbase1 as, as_npages1 := as_npages1 as, as_vbase2 := as_vbase2 as, as_npages2 := as_npages2 as\<rparr>"
    define s2 where "s2 = set_as new no s1"
    have on: "old \<noteq> new" using assms(2) n(3) by auto
    have h2: "heap_inv s2 (insert (new, 28) L)" "spaces s2 new = Some no" using n(2) by (simp_all add: s2_def set_as_def vm_inv_def)
    have "4096 * as_npages1 as \<le> 532676608" "4096 * as_npages2 as \<le> 532676608"
      using assms(1,3) by (auto simp: as_mem_def vm_inv_def dest: kvaddr_live(2))
    then have fr: "as_fresh no" using assms(4,5) by (simp add: as_fresh_def no_def no_space_yet_def)
    from as_prepare_load_cases [OF h2 fr] obtain e as' s3 fp where l: "as_prepare_load new s2 = Some (e, s3)"
      "s3 = s2\<lparr>firstpaddr := fp, spaces := (spaces s2)(new \<mapsto> as')\<rparr>"
      "e = ENOMEM \<and> heap_inv s3 (insert (new, 28) L) \<and> lastpaddr s2 < firstpaddr s2 + 4096 * (as_npages1 no + as_npages2 no + 12)
       \<or> e = OK \<and> as' = as_at (firstpaddr s2) no \<and> heap_inv s3 (as_mem as' \<union> insert (new, 28) L)
         \<and> (\<forall>b \<in> insert (new, 28) L. \<forall>c \<in> as_mem as'. extent b \<inter> extent c = {})" by blast
    have k3: "m_spl s3 = m_spl s" "tlb s3 = tlb s" "t_vmspace s3 = t_vmspace s" "core s3 = core s1" "spaces s3 = (spaces s)(new \<mapsto> as')"
      using c(2-4) n(5) by (simp_all add: l(2) s2_def set_as_def)
    have st: "as_copy old s = (if e \<noteq> OK then do { s \<leftarrow> as_destroy new s3; kfail ENOMEM s } else do {
           kassert (as_pbase1 as' \<noteq> 0); kassert (as_pbase2 as' \<noteq> 0); kassert (as_stackpbase as' \<noteq> 0);
           s \<leftarrow> core_move (PADDR_TO_KVADDR (as_pbase1 as')) (PADDR_TO_KVADDR (as_pbase1 as)) (u32 (int (as_npages1 as) * int PAGE_SIZE)) s3;
           s \<leftarrow> core_move (PADDR_TO_KVADDR (as_pbase2 as')) (PADDR_TO_KVADDR (as_pbase2 as)) (u32 (int (as_npages2 as) * int PAGE_SIZE)) s;
           s \<leftarrow> core_move (PADDR_TO_KVADDR (as_stackpbase as')) (PADDR_TO_KVADDR (as_stackpbase as)) (DUMBVM_STACKPAGES * PAGE_SIZE) s;
           kret new s })"
      using c(1) n(1,5) assms(2) on l(1) k3(5) by (simp add: as_copy_def Let_def s2_def no_def)
    from l(3) show ?thesis
    proof (elim disjE conjE)
      assume e: "e = ENOMEM" "heap_inv s3 (insert (new, 28) L)" "lastpaddr s2 < firstpaddr s2 + 4096 * (as_npages1 no + as_npages2 no + 12)"
      from as_destroy_live [OF e(2) n(4)] obtain s4 where d: "as_destroy new s3 = Some s4" "heap_inv s4 L" "m_spl s4 = m_spl s3" "tlb s4 = tlb s3"
        "t_vmspace s4 = t_vmspace s3" "spaces s4 = (spaces s3)(new := None)" "\<forall>b \<in> L. \<forall>x \<in> extent b. core s4 x = core s3 x" by blast
      have "spaces s4 = spaces s" using d(6) k3(5) n(3) by auto
      moreover have "vm_inv s4 L" using d(2) calculation assms(1) by (simp add: vm_inv_def)
      moreover have "as_copy old s = Some (Inl ENOMEM, s4)" using st e(1) d(1) by (simp add: kfail_def)
      moreover have "lastpaddr s < firstpaddr s + 4096 * (as_npages1 as + as_npages2 as + 13)"
        using e(3) c(7,8) by (simp add: s2_def set_as_def no_def)
      ultimately show ?thesis using d k3 c(5) by simp
    next
      assume e: "e = OK" "as' = as_at (firstpaddr s2) no" "heap_inv s3 (as_mem as' \<union> insert (new, 28) L)"
        "\<forall>b \<in> insert (new, 28) L. \<forall>c \<in> as_mem as'. extent b \<inter> extent c = {}"
      let ?L = "as_mem as' \<union> insert (new, 28) L"
      have np: "as_npages1 as' = as_npages1 as" "as_npages2 as' = as_npages2 as" "as_vbase1 as' = as_vbase1 as" "as_vbase2 as' = as_vbase2 as"
        by (simp_all add: e(2) no_def)
      have z: "b \<notin> as_mem as'" if "b \<in> insert (new, 28) L" for b using e(4) that by (force simp: extent_def)
      then have sub: "as_mem as' \<subseteq> ?L" "as_mem as \<subseteq> ?L" "as_mem as \<subseteq> ?L - as_mem as'" using assms(3) by auto
      have pz: "0 < firstpaddr s2" using heap_inv_ram [OF h2(1)] by (simp add: ram_ok_def)
      note mv = core_moves_live [OF e(3) sub(1,2) np(1,2)]
      note sm = copy_pages_same [OF e(3) sub(1,3) e(2) _ _ assms(4,5)]
      let ?s = "s3\<lparr>core := copy_pages as' as (core s3)\<rparr>"
      have nz: "as_pbase1 as' \<noteq> 0" "as_pbase2 as' \<noteq> 0" "as_stackpbase as' \<noteq> 0" using pz by (simp_all add: e(2))
      have "as_copy old s = kret new ?s" using st e(1) nz by (simp add: kassert_def mv(1) [of new])
      then have fin: "as_copy old s = Some (Inr new, ?s)" by (simp add: kret_def)
      have "insert (new, 28) (as_mem as' \<union> L) = ?L" by auto
      then have "vm_inv ?s (insert (new, 28) (as_mem as' \<union> L))" using mv(2) k3(5) assms(1) by (auto simp: vm_inv_def)
      moreover have keep: "core s1 x = core s x" "copy_pages as' as (core s3) x = core s x" if "b \<in> L" "x \<in> extent b" for b x
        using sm(2) [of b x] that z c(5) k3(4) by (auto simp: no_def)
      moreover have "same_bytes (core s) as (copy_pages as' as (core s3)) as'"
        by (rule same_bytes_cong [of "core s3"]) (use sm(1) c(5) assms(3) k3(4) in \<open>auto simp: no_def\<close>)
      ultimately show ?thesis using fin k3 n(3) e(4) np by (intro exI [of _ "Inr new"] exI [of _ ?s]) (auto intro!: exI [of _ as'])
    qed
  qed
qed

section \<open>Properties\<close>

definition vm0 :: "nat \<Rightarrow> (nat \<rightharpoonup> addrspace) \<Rightarrow> nat nullable \<Rightarrow> vmsys" where
  "vm0 fp sp t = kheap.extend (heap_boot fp 524288 (\<lambda>_. Some 0))
     (vmsys.fields (map (\<lambda>i. (TLBHI_INVALID i, 0)) [0..<64]) sp t)"

definition as0 :: addrspace where
  "as0 = no_space_yet\<lparr>as_vbase1 := 4194304, as_npages1 := 2, as_vbase2 := 268435456, as_npages2 := 1\<rparr>"

lemma vm0_simps [simp]:
  "firstpaddr (vm0 fp sp t) = fp" "lastpaddr (vm0 fp sp t) = 524288" "core (vm0 fp sp t) = (\<lambda>_. Some 0)" "m_spl (vm0 fp sp t) = m_spl (heap_boot fp 524288 (\<lambda>_. Some 0))"
  "tlb (vm0 fp sp t) = map (\<lambda>i. (TLBHI_INVALID i, 0)) [0..<64]" "spaces (vm0 fp sp t) = sp" "t_vmspace (vm0 fp sp t) = t"
  by (simp_all add: vm0_def kheap.defs vmsys.defs heap_boot_def)

lemma vm0_heap_inv:
  assumes "fp mod 4096 = 0" and "65536 \<le> fp" and "fp \<le> 524288"
    and "\<And>b. b \<in> L \<Longrightarrow> fst b mod 4096 = 0 \<and> MIPS_KSEG0 + 4096 \<le> fst b \<and> 0 < snd b \<and> fst b + snd b \<le> MIPS_KSEG0 + fp"
    and "\<And>b c. b \<in> L \<Longrightarrow> c \<in> L \<Longrightarrow> b \<noteq> c \<Longrightarrow> extent b \<inter> extent c = {}"
  shows "heap_inv (vm0 fp sp t) L"
proof -
  have "ram_ok (heap_boot fp 524288 (\<lambda>_. Some 0))" using assms(1-3) by (simp add: heap_boot_def ram_ok_def mapped_def)
  from boot_inv [OF this] obtain ps F where h: "heap_ok (heap_boot fp 524288 (\<lambda>_. Some 0)) ps F" by (auto simp: heap_inv_def)
  have "inuse (pagerefs_inuse (heap_boot fp 524288 (\<lambda>_. Some 0))) = {}" by (simp add: heap_boot_def inuse_def)
  with h have ps: "ps = []" by (simp add: heap_ok_def)
  have "heap_ok (vm0 fp sp t) [] F" using h unfolding ps by (simp add: heap_ok_def pages_ok_def ram_ok_def vm0_def kheap.defs)
  moreover have "live_ok (vm0 fp sp t) [] F L" using assms(4,5) by (simp add: live_ok_def large_live_def)
  ultimately show ?thesis unfolding heap_inv_def by blast
qed

lemma as0_facts: "as_fresh as0" "regions_ok as0"
  by (simp_all add: as_fresh_def regions_ok_def as0_def no_space_yet_def)

text \<open>C8. Page faults give every page of a program a physical page of its own. After \<open>as_prepare_load\<close> on an
  address space with two regions below the stack that do not overlap, there is an injective
  assignment of physical pages to the pages of the regions and of the stack, into the memory that was free
  before; and from then on, in any state with that address space, \<open>vm_fault\<close> for reading or writing returns,
  leaves the interrupt level as it was, and for an address on such a page puts into the first entry of the
  translation buffer that is not valid a valid entry that maps the page to the one assigned; for
  any other address, or with no such entry, it gives \<open>EFAULT\<close> and changes nothing.\<close>

theorem faults_find_private_pages:
  assumes "heap_inv s L" and "spaces s a = Some as" and "as_fresh as" and "regions_ok as"
    and "as_prepare_load a s = Some (OK, s1)"
  shows "\<exists>f. inj_on f (user_pages as) \<and> (\<forall>v \<in> user_pages as. f v mod 4096 = 0 \<and> firstpaddr s \<le> f v \<and> f v + 4096 \<le> firstpaddr s1)
    \<and> (\<forall>u :: 'a vmsys_scheme. \<forall>ft va. spaces u a = spaces s1 a \<longrightarrow> t_vmspace u = Ptr a \<longrightarrow> ft = VM_FAULT_READ \<or> ft = VM_FAULT_WRITE \<longrightarrow>
      (if page_of va \<in> user_pages as \<and> (\<exists>j < 64. \<not> entry_valid (tlb u ! j))
       then \<exists>elo. vm_fault ft va u = Some (OK, u\<lparr>tlb := (tlb u)[(LEAST j. \<not> entry_valid (tlb u ! j)) := (page_of va, elo)]\<rparr>)
          \<and> page_of elo = f (page_of va) \<and> entry_valid (page_of va, elo)
       else vm_fault ft va u = Some (EFAULT, u)))"
proof -
  from as_prepare_load_cases [OF assms(1-3)] assms(5) have l: "spaces s1 a = Some (as_at (firstpaddr s) as)"
    "firstpaddr s1 = firstpaddr s + 4096 * as_npages1 as + 4096 * as_npages2 as + 49152" "firstpaddr s1 \<le> lastpaddr s" by auto
  have p: "placed (firstpaddr s) as" using assms(3,4) l(2,3) heap_inv_ram [OF assms(1)] by (auto simp: placed_def as_fresh_def ram_ok_def)
  note b = phys_bounds [OF p]
  show ?thesis
  proof (intro exI [of _ "phys (firstpaddr s) as"] conjI allI impI ballI)
    fix u :: "'a vmsys_scheme" and ft va
    assume u: "spaces u a = spaces s1 a" "t_vmspace u = Ptr a" "ft = VM_FAULT_READ \<or> ft = VM_FAULT_WRITE"
    from vm_fault_at [OF p _ u(2,3), of va] u(1) l(1) entry_word [OF b(3)]
    show "if page_of va \<in> user_pages as \<and> (\<exists>j < 64. \<not> entry_valid (tlb u ! j))
       then \<exists>elo. vm_fault ft va u = Some (OK, u\<lparr>tlb := (tlb u)[(LEAST j. \<not> entry_valid (tlb u ! j)) := (page_of va, elo)]\<rparr>)
          \<and> page_of elo = phys (firstpaddr s) as (page_of va) \<and> entry_valid (page_of va, elo)
       else vm_fault ft va u = Some (EFAULT, u)" by auto
  qed (use b l(2) phys_inj [OF p] in auto)
qed

lemma as0_prepared:
  "as_prepare_load 2147549184 (vm0 69632 [2147549184 \<mapsto> as0] NULL) = Some (OK, (vm0 69632 [2147549184 \<mapsto> as_at 69632 as0] NULL)\<lparr>firstpaddr := 131072\<rparr>)"
proof -
  have "heap_inv (vm0 69632 [2147549184 \<mapsto> as0] NULL) {(2147549184, 28)}"
    by (rule vm0_heap_inv) (auto simp: MIPS_KSEG0_def)
  from as_prepare_load_cases [OF this, of 2147549184 as0] as0_facts(1)
  obtain r as' s' fp where p: "as_prepare_load 2147549184 (vm0 69632 [2147549184 \<mapsto> as0] NULL) = Some (r, s')"
    "s' = (vm0 69632 [2147549184 \<mapsto> as0] NULL)\<lparr>firstpaddr := fp, spaces := [2147549184 \<mapsto> as']\<rparr>"
    "r = ENOMEM \<and> 524288 < 69632 + 4096 * (as_npages1 as0 + as_npages2 as0 + 12) \<or> r = OK \<and> as' = as_at 69632 as0 \<and> firstpaddr s' = as_stackpbase as' + 49152"
    by auto
  then have "r = OK" "as' = as_at 69632 as0" "fp = 131072" by (auto simp: as0_def no_space_yet_def)
  with p show ?thesis by (simp add: vm0_def kheap.defs vmsys.defs)
qed

theorem faults_find_private_pages_witness:
  "as_prepare_load 2147549184 (vm0 69632 [2147549184 \<mapsto> as0] NULL) = Some (OK, (vm0 69632 [2147549184 \<mapsto> as_at 69632 as0] NULL)\<lparr>firstpaddr := 131072\<rparr>)
   \<and> (\<exists>s'. vm_fault VM_FAULT_READ 4198410 (vm0 131072 [2147549184 \<mapsto> as_at 69632 as0] (Ptr 2147549184)) = Some (OK, s'))
   \<and> vm_fault VM_FAULT_READ 16 (vm0 131072 [2147549184 \<mapsto> as_at 69632 as0] (Ptr 2147549184)) = Some (EFAULT, vm0 131072 [2147549184 \<mapsto> as_at 69632 as0] (Ptr 2147549184))"
proof -
  let ?u = "vm0 131072 [2147549184 \<mapsto> as_at 69632 as0] (Ptr 2147549184)"
  have i: "heap_inv (vm0 69632 [2147549184 \<mapsto> as0] NULL) {(2147549184, 28)}" by (rule vm0_heap_inv) (auto simp: MIPS_KSEG0_def)
  have pg: "page_of 4198410 \<in> user_pages as0" "page_of 16 \<notin> user_pages as0" by (simp_all add: page_of_def PAGE_SIZE_def user_pages_def as0_def no_space_yet_def)
  have v: "\<exists>j < 64. \<not> entry_valid (tlb ?u ! j)" by (intro exI [of _ 0]) (simp add: entry_valid_def)
  from faults_find_private_pages [OF i _ as0_facts as0_prepared] obtain f where f: "inj_on f (user_pages as0)"
    "\<forall>(u :: vmsys) ft va. spaces u 2147549184 = Some (as_at 69632 as0) \<longrightarrow> t_vmspace u = Ptr 2147549184 \<longrightarrow> ft = VM_FAULT_READ \<or> ft = VM_FAULT_WRITE \<longrightarrow>
      (if page_of va \<in> user_pages as0 \<and> (\<exists>j < 64. \<not> entry_valid (tlb u ! j))
       then \<exists>elo. vm_fault ft va u = Some (OK, u\<lparr>tlb := (tlb u)[(LEAST j. \<not> entry_valid (tlb u ! j)) := (page_of va, elo)]\<rparr>)
          \<and> page_of elo = f (page_of va) \<and> entry_valid (page_of va, elo)
       else vm_fault ft va u = Some (EFAULT, u))" by auto
  from f(2) [rule_format, of ?u VM_FAULT_READ 4198410] f(2) [rule_format, of ?u VM_FAULT_READ 16] pg v
  show ?thesis using as0_prepared by auto
qed


lemma vm0_loaded:
  "vm_inv (vm0 131072 [2147549184 \<mapsto> as_at 69632 as0] NULL) (insert (2147549184, 28) (as_mem (as_at 69632 as0)))"
  unfolding vm_inv_def
proof
  show "heap_inv (vm0 131072 [2147549184 \<mapsto> as_at 69632 as0] NULL) (insert (2147549184, 28) (as_mem (as_at 69632 as0)))"
    by (rule vm0_heap_inv) (auto simp: MIPS_KSEG0_def as_mem_def as0_def no_space_yet_def extent_def)
qed (auto split: if_splits)


text \<open>C37. A fault without an address space leaves the interrupts off. \<open>vm_fault\<close> raises the interrupt level
  on entry and restores it on every way out but one: when the thread has no address space it
  returns \<open>EFAULT\<close> at the high level.\<close>

theorem vm_fault_keeps_interrupts_off:
  assumes "t_vmspace s = NULL" and "ft = VM_FAULT_READ \<or> ft = VM_FAULT_WRITE"
  shows "vm_fault ft va s = Some (EFAULT, s\<lparr>m_spl := 15\<rparr>)"
  using assms by (auto simp: vm_fault_def spl_high_def kassert_def vm_consts Let_def)

theorem vm_fault_keeps_interrupts_off_witness:
  "vm_fault VM_FAULT_READ 4096 (vm0 65536 Map.empty NULL) = Some (EFAULT, (vm0 65536 Map.empty NULL)\<lparr>m_spl := 15\<rparr>)
   \<and> m_spl (vm0 65536 Map.empty NULL) = 0"
  using vm_fault_keeps_interrupts_off [of "vm0 65536 Map.empty NULL" VM_FAULT_READ 4096] by (simp add: heap_boot_def)

end
