(* ===== verification/Kprintf.thy ===== *)
theory Kprintf
  imports Klibc
begin

text \<open>
  Formatted printing: \<open>lib/libc/__printf.c\<close> and \<open>lib/libc/snprintf.c\<close>, which the kernel shares with the C
  library. A text is a list of bytes without a NUL. The variable arguments are a list: a number is the word
  that \<open>va_arg\<close> reads (\<open>int\<close>, \<open>long\<close> and pointers have 32 bits), a string is its text, or null; to
  take an argument that is not there, or of the other kind, stops the model. The function that \<open>__vprintf\<close> sends
  the text to is an argument, with its data. A string argument is read before it is sent, so that the result of
  \<open>snprintf\<close> with an argument inside its own buffer, which C leaves undefined, is not what this model says.
\<close>

datatype va = VA_NUM nat | VA_STR "byte list nullable"

datatype pf_size = INTSZ | LONGSZ

record 'c PF =
  sendfunc :: "'c \<Rightarrow> byte list \<Rightarrow> 'c option"
  clientdata :: 'c
  ap :: "va list"
  charcount :: int
  in_pct :: bool
  pf_size :: pf_size
  num :: nat
  sign :: int
  spacing :: int
  rightspc :: bool
  fillchar :: byte
  pf_base :: nat
  baseprefix :: bool
  altformat :: bool

definition NUMBER_BUF_SIZE :: nat where "NUMBER_BUF_SIZE = 12"

definition pf_print :: "'c PF \<Rightarrow> byte list \<Rightarrow> 'c PF option" where
  "pf_print pf txt = do {
     c \<leftarrow> sendfunc pf (clientdata pf) txt;
     Some (pf\<lparr>clientdata := c, charcount := s32 (charcount pf + int (length txt))\<rparr>)
   }"

definition pf_endfield :: "'c PF \<Rightarrow> 'c PF" where
  "pf_endfield pf = pf\<lparr>in_pct := False, pf_size := INTSZ, num := 0, sign := 0, spacing := 0, rightspc := False,
     fillchar := 32, pf_base := 0, baseprefix := False, altformat := False\<rparr>"

definition pf_modifier :: "'c PF \<Rightarrow> byte \<Rightarrow> 'c PF option" where
  "pf_modifier pf ch =
     (if ch = 35 then Some (pf\<lparr>altformat := True\<rparr>)
      else if ch = 45 then Some (pf\<lparr>rightspc := True\<rparr>)
      else if ch = 108 then Some (if pf_size pf = LONGSZ then pf else pf\<lparr>pf_size := LONGSZ\<rparr>)
      else if ch = 113 then Some (pf\<lparr>pf_size := LONGSZ\<rparr>)
      else if ch = 48 then
        Some (if spacing pf > 0 then pf\<lparr>spacing := s32 (spacing pf * 10)\<rparr> else pf\<lparr>fillchar := 48\<rparr>)
      else do {
        kassert (48 < ch \<and> ch \<le> 57);
        Some (pf\<lparr>spacing := s32 (spacing pf * 10 + int (unat ch - 48))\<rparr>)
      })"

text \<open>\<open>va_arg\<close> for a word and for a string.\<close>

definition va_num :: "va list \<Rightarrow> (nat \<times> va list) option" where
  "va_num args = (case args of VA_NUM n # args \<Rightarrow> Some (n, args) | _ \<Rightarrow> None)"

definition va_str :: "va list \<Rightarrow> (byte list nullable \<times> va list) option" where
  "va_str args = (case args of VA_STR p # args \<Rightarrow> Some (p, args) | _ \<Rightarrow> None)"

definition pf_getnum :: "'c PF \<Rightarrow> byte \<Rightarrow> 'c PF option" where
  "pf_getnum pf ch = do {
     (n, ap') \<leftarrow> va_num (ap pf);
     let pf = pf\<lparr>ap := ap'\<rparr>;
     if ch = 100 then
       (let signednum = s32 (int n)
        in if signednum < 0 then Some (pf\<lparr>sign := - 1, num := u32 (- signednum)\<rparr>)
           else Some (pf\<lparr>num := u32 signednum\<rparr>))
     else Some (pf\<lparr>num := u32 (int n)\<rparr>)
   }"

definition pf_setbase :: "'c PF \<Rightarrow> byte \<Rightarrow> 'c PF" where
  "pf_setbase pf ch =
     (let pf = (if ch = 100 \<or> ch = 117 then pf\<lparr>pf_base := 10\<rparr>
                else if ch = 120 \<or> ch = 112 then pf\<lparr>pf_base := 16\<rparr>
                else if ch = 111 then pf\<lparr>pf_base := 8\<rparr> else pf)
      in if altformat pf \<or> ch = 112 then pf\<lparr>baseprefix := True\<rparr> else pf)"

fun pf_fill :: "'c PF \<Rightarrow> nat \<Rightarrow> 'c PF option" where
  "pf_fill pf 0 = Some pf"
| "pf_fill pf (Suc spc) = do { pf \<leftarrow> pf_print pf [fillchar pf]; pf_fill pf spc }"

definition pf_printstuff :: "'c PF \<Rightarrow> byte list \<Rightarrow> byte list \<Rightarrow> byte list \<Rightarrow> 'c PF option" where
  "pf_printstuff pf prefix prefix2 stuff = do {
     let len = s32 (int (length prefix + length prefix2 + length stuff));
     let spc = (if spacing pf > len then s32 (spacing pf - len) else 0);
     pf \<leftarrow> (if spc > 0 \<and> \<not> rightspc pf \<and> fillchar pf \<noteq> 48 then pf_fill pf (nat spc) else Some pf);
     pf \<leftarrow> pf_print pf prefix;
     pf \<leftarrow> pf_print pf prefix2;
     pf \<leftarrow> (if spc > 0 \<and> \<not> rightspc pf \<and> fillchar pf = 48 then pf_fill pf (nat spc) else Some pf);
     pf \<leftarrow> pf_print pf stuff;
     if spc > 0 \<and> rightspc pf then pf_fill pf (nat spc) else Some pf
   }"

text \<open>
  The digits of a number, from the right into the buffer: the first argument is the number of places that
  are left in it, and to write before its first place stops the model.
\<close>

definition hexdigits :: "byte list" where
  "hexdigits = [48, 49, 50, 51, 52, 53, 54, 55, 56, 57, 97, 98, 99, 100, 101, 102]"

fun pf_digits :: "nat \<Rightarrow> nat \<Rightarrow> nat \<Rightarrow> byte list \<Rightarrow> byte list option" where
  "pf_digits 0 bas xnum buf = None"
| "pf_digits (Suc x) bas xnum buf = do {
     kassert (bas \<noteq> 0);
     d \<leftarrow> rd hexdigits (int (xnum mod bas));
     let buf = d # buf;
     let xnum = xnum div bas;
     if xnum > 0 then pf_digits x bas xnum buf else Some buf
   }"

definition pf_printnum :: "'c PF \<Rightarrow> 'c PF option" where
  "pf_printnum pf = do {
     x \<leftarrow> pf_digits (NUMBER_BUF_SIZE - 1) (pf_base pf) (num pf) [];
     let bprefix = (if baseprefix pf \<and> pf_base pf = 16 then [48, 120]
                    else if baseprefix pf \<and> pf_base pf = 8 then [48] else []);
     let sprefix = (if sign pf \<noteq> 0 then [45] else []);
     pf_printstuff pf sprefix bprefix x
   }"

definition modifiers :: "byte list" where
  "modifiers = [35, 45, 113, 108, 48, 49, 50, 51, 52, 53, 54, 55, 56, 57]"

definition inttypes :: "byte list" where
  "inttypes = [100, 111, 117, 112, 120]"

definition pf_send :: "'c PF \<Rightarrow> byte \<Rightarrow> 'c PF option" where
  "pf_send pf ch = do {
     kassert (ch \<noteq> 0);
     if \<not> in_pct pf \<and> ch \<noteq> 37 then pf_print pf [ch]
     else if \<not> in_pct pf then Some (pf\<lparr>in_pct := True\<rparr>)
     else if ch \<in> set modifiers then pf_modifier pf ch
     else if ch \<in> set inttypes then do {
       pf \<leftarrow> pf_getnum pf ch;
       pf \<leftarrow> pf_printnum (pf_setbase pf ch);
       Some (pf_endfield pf)
     }
     else if ch = 115 then do {
       (str, ap') \<leftarrow> va_str (ap pf);
       let str = (case str of NULL \<Rightarrow> [40, 110, 117, 108, 108, 41] | Ptr str \<Rightarrow> str);
       pf \<leftarrow> pf_printstuff (pf\<lparr>ap := ap'\<rparr>) [] [] str;
       Some (pf_endfield pf)
     }
     else do {
       (x, pf) \<leftarrow> (if ch = 99 then do { (n, ap') \<leftarrow> va_num (ap pf); Some (of_nat n, pf\<lparr>ap := ap'\<rparr>) } else Some (ch, pf));
       pf \<leftarrow> pf_printstuff pf [] [] (takeWhile (\<lambda>c. c \<noteq> 0) [x]);
       Some (pf_endfield pf)
     }
   }"

fun pf_loop :: "'c PF \<Rightarrow> byte list \<Rightarrow> 'c PF option" where
  "pf_loop pf [] = Some pf"
| "pf_loop pf (ch # format) = do { pf \<leftarrow> pf_send pf ch; pf_loop pf format }"

definition vprintf :: "('c \<Rightarrow> byte list \<Rightarrow> 'c option) \<Rightarrow> 'c \<Rightarrow> byte list \<Rightarrow> va list \<Rightarrow> (int \<times> 'c) option" where
  "vprintf func cdata format args = do {
     pf \<leftarrow> pf_loop (pf_endfield \<lparr>sendfunc = func, clientdata = cdata, ap = args, charcount = 0, in_pct = False, pf_size = INTSZ,
              num = 0, sign = 0, spacing = 0, rightspc = False, fillchar = 0, pf_base = 0, baseprefix = False, altformat = False\<rparr>) format;
     Some (charcount pf, clientdata pf)
   }"

section \<open>snprintf\<close>

record SNP =
  snp_buf :: nat
  snp_buflen :: nat
  snp_bufpos :: nat
  snp_mem :: mem

fun snprintf_send :: "SNP \<Rightarrow> byte list \<Rightarrow> SNP option" where
  "snprintf_send snp [] = Some snp"
| "snprintf_send snp (c # cs) =
     (if snp_bufpos snp < snp_buflen snp then do {
        m \<leftarrow> wrbytes (snp_mem snp) (snp_buf snp + snp_bufpos snp) [c];
        snprintf_send (snp\<lparr>snp_mem := m, snp_bufpos := snp_bufpos snp + 1\<rparr>) cs
      }
      else snprintf_send snp cs)"

definition vsnprintf :: "nat \<Rightarrow> nat \<Rightarrow> byte list \<Rightarrow> va list \<Rightarrow> mem \<Rightarrow> (int \<times> mem) option" where
  "vsnprintf buf len fmt args m = do {
     let snp = \<lparr>snp_buf = buf, snp_buflen = (if len = 0 then 0 else len - 1), snp_bufpos = 0, snp_mem = m\<rparr>;
     (chars, snp) \<leftarrow> vprintf snprintf_send snp fmt args;
     m \<leftarrow> (if len > 0 then wrbytes (snp_mem snp) (buf + snp_bufpos snp) [0] else Some (snp_mem snp));
     Some (chars, m)
   }"

definition snprintf :: "nat \<Rightarrow> nat \<Rightarrow> byte list \<Rightarrow> va list \<Rightarrow> mem \<Rightarrow> (int \<times> mem) option" where
  "snprintf buf len fmt args m = vsnprintf buf len fmt args m"

section \<open>What is sent does not depend on where it goes\<close>

definition collect :: "byte list \<Rightarrow> byte list \<Rightarrow> byte list option" where
  "collect c xs = Some (c @ xs)"

lemma rel_option_bindI:
  "rel_option R x y \<Longrightarrow> (\<And>a b. R a b \<Longrightarrow> rel_option S (f a) (g b)) \<Longrightarrow> rel_option S (Option.bind x f) (Option.bind y g)"
  by (cases x; cases y) auto

text \<open>
  A place for the text: sending it in pieces is the same as sending it at once, and never fails in a good
  state. The relation says that the same text has gone to the place and into a list.
\<close>

locale text_sink =
  fixes send :: "'c \<Rightarrow> byte list \<Rightarrow> 'c option" and good :: "'c \<Rightarrow> bool"
  assumes send_Nil: "good c \<Longrightarrow> send c [] = Some c"
    and send_total: "good c \<Longrightarrow> \<exists>c'. send c xs = Some c' \<and> good c'"
    and send_append: "good c \<Longrightarrow> send c (xs @ ys) = Option.bind (send c xs) (\<lambda>c. send c ys)"
begin

definition sent :: "'c \<Rightarrow> byte list PF \<Rightarrow> 'c PF \<Rightarrow> bool" where
  "sent c0 q p \<longleftrightarrow> sendfunc q = collect \<and> sendfunc p = send \<and> send c0 (clientdata q) = Some (clientdata p) \<and> ap p = ap q
     \<and> charcount p = charcount q \<and> in_pct p = in_pct q \<and> pf_size p = pf_size q \<and> num p = num q \<and> sign p = sign q
     \<and> spacing p = spacing q \<and> rightspc p = rightspc q \<and> fillchar p = fillchar q \<and> pf_base p = pf_base q
     \<and> baseprefix p = baseprefix q \<and> altformat p = altformat q"

lemma print_sent: "good c0 \<Longrightarrow> sent c0 q p \<Longrightarrow> rel_option (sent c0) (pf_print q txt) (pf_print p txt)"
proof -
  assume g: "good c0" and r: "sent c0 q p"
  have "send c0 (clientdata q @ txt) = send (clientdata p) txt" using r send_append [OF g] by (simp add: sent_def)
  moreover obtain c' where "send c0 (clientdata q @ txt) = Some c'" using send_total [OF g] by blast
  ultimately have "send (clientdata p) txt = Some c'" "send c0 (clientdata q @ txt) = Some c'" by simp_all
  then show ?thesis using r by (simp add: sent_def pf_print_def collect_def)
qed

lemma fill_sent: "good c0 \<Longrightarrow> sent c0 q p \<Longrightarrow> rel_option (sent c0) (pf_fill q n) (pf_fill p n)"
proof (induction n arbitrary: q p)
  case (Suc n)
  have "fillchar p = fillchar q" using Suc.prems(2) by (simp add: sent_def)
  with print_sent [OF Suc.prems] Suc.IH [OF Suc.prems(1)] show ?case by (auto intro: rel_option_bindI)
qed simp

lemma fill_if_sent:
  "good c0 \<Longrightarrow> sent c0 q p \<Longrightarrow> b = b' \<Longrightarrow> rel_option (sent c0) (if b then pf_fill q n else Some q) (if b' then pf_fill p n else Some p)"
  by (simp add: fill_sent)

lemma printstuff_sent:
  assumes "good c0" and "sent c0 q p"
  shows "rel_option (sent c0) (pf_printstuff q a b x) (pf_printstuff p a b x)"
proof -
  have f: "spacing p = spacing q" using assms(2) by (simp add: sent_def)
  have e: "(rightspc p \<longleftrightarrow> rightspc q) \<and> fillchar p = fillchar q" if "sent c0 q p" for q p using that by (simp add: sent_def)
  show ?thesis
    unfolding pf_printstuff_def Let_def f
    by (intro rel_option_bindI [where R = "sent c0"] fill_if_sent print_sent assms) (simp_all add: e assms e [OF assms(2)])
qed

lemma getnum_sent: "sent c0 q p \<Longrightarrow> rel_option (sent c0) (pf_getnum q ch) (pf_getnum p ch)"
  by (cases "va_num (ap q)") (auto simp: sent_def pf_getnum_def Let_def split: prod.splits)

lemma setbase_sent: "sent c0 q p \<Longrightarrow> sent c0 (pf_setbase q ch) (pf_setbase p ch)"
  by (simp add: sent_def pf_setbase_def Let_def)

lemma endfield_sent: "sent c0 q p \<Longrightarrow> sent c0 (pf_endfield q) (pf_endfield p)"
  by (simp add: sent_def pf_endfield_def)

lemma modifier_sent: "sent c0 q p \<Longrightarrow> rel_option (sent c0) (pf_modifier q ch) (pf_modifier p ch)"
  by (auto simp: sent_def pf_modifier_def kassert_def)

lemma printnum_sent: "good c0 \<Longrightarrow> sent c0 q p \<Longrightarrow> rel_option (sent c0) (pf_printnum q) (pf_printnum p)"
proof -
  assume g: "good c0" and r: "sent c0 q p"
  have f: "pf_base p = pf_base q" "num p = num q" "baseprefix p = baseprefix q" "sign p = sign q" using r by (simp_all add: sent_def)
  show ?thesis
    unfolding pf_printnum_def f Let_def by (intro rel_option_bindI [where R = "(=)"] printstuff_sent g r) (simp_all add: option.rel_eq printstuff_sent g r)
qed

lemma send_sent:
  assumes g: "good c0" and r: "sent c0 q p"
  shows "rel_option (sent c0) (pf_send q ch) (pf_send p ch)"
proof -
  have f: "in_pct p = in_pct q" "ap p = ap q" using r by (simp_all add: sent_def)
  have u: "sent c0 (q\<lparr>ap := x\<rparr>) (p\<lparr>ap := x\<rparr>)" "sent c0 (q\<lparr>in_pct := True\<rparr>) (p\<lparr>in_pct := True\<rparr>)" for x using r by (simp_all add: sent_def)
  have i: "rel_option (sent c0) (do { pf \<leftarrow> pf_getnum q ch; pf \<leftarrow> pf_printnum (pf_setbase pf ch); Some (pf_endfield pf) })
      (do { pf \<leftarrow> pf_getnum p ch; pf \<leftarrow> pf_printnum (pf_setbase pf ch); Some (pf_endfield pf) })"
    by (rule rel_option_bindI [OF getnum_sent [OF r]], rule rel_option_bindI [OF printnum_sent [OF g setbase_sent]]) (simp_all add: endfield_sent)
  have t: "rel_option (sent c0) (do { pf \<leftarrow> pf_printstuff q [] [] x; Some (pf_endfield pf) }) (do { pf \<leftarrow> pf_printstuff p [] [] x; Some (pf_endfield pf) })"
    if "sent c0 q p" for q p x
    by (rule rel_option_bindI [OF printstuff_sent [OF g that]]) (simp add: endfield_sent)
  show ?thesis
    unfolding pf_send_def f
    using i t [OF r] t [OF u(1)] u(2) print_sent [OF g r] modifier_sent [OF r]
    by (cases "va_num (ap q)"; cases "va_str (ap q)") (auto simp: kassert_def Let_def split: prod.splits)
qed

lemma loop_sent: "good c0 \<Longrightarrow> sent c0 q p \<Longrightarrow> rel_option (sent c0) (pf_loop q fmt) (pf_loop p fmt)"
  by (induction fmt arbitrary: q p) (auto intro!: rel_option_bindI [OF send_sent])

lemma vprintf_sent:
  assumes "good c0" and "vprintf collect [] fmt args = Some (n, out)"
  shows "\<exists>c. vprintf send c0 fmt args = Some (n, c) \<and> send c0 out = Some c"
proof -
  let ?pf = "\<lambda>f c. pf_endfield \<lparr>sendfunc = f, clientdata = c, ap = args, charcount = 0, in_pct = False, pf_size = INTSZ,
              num = 0, sign = 0, spacing = 0, rightspc = False, fillchar = 0, pf_base = 0, baseprefix = False, altformat = False\<rparr>"
  have "sent c0 (?pf collect []) (?pf send c0)" using send_Nil [OF assms(1)] by (simp add: sent_def pf_endfield_def)
  from loop_sent [OF assms(1) this, of fmt] assms(2) show ?thesis
    by (auto simp: vprintf_def sent_def split: Option.bind_splits elim!: option.rel_cases)
qed

end

section \<open>The buffer of snprintf\<close>

definition snp_good :: "SNP \<Rightarrow> bool" where
  "snp_good snp \<longleftrightarrow> mapped (snp_mem snp) (snp_buf snp) (snp_buflen snp) \<and> snp_bufpos snp \<le> snp_buflen snp"

definition snp_put :: "SNP \<Rightarrow> byte list \<Rightarrow> SNP" where
  "snp_put snp xs = snp\<lparr>snp_mem := put (snp_mem snp) (snp_buf snp + snp_bufpos snp) (take (snp_buflen snp - snp_bufpos snp) xs),
     snp_bufpos := snp_bufpos snp + min (length xs) (snp_buflen snp - snp_bufpos snp)\<rparr>"

lemma snprintf_send_eq: "snp_good snp \<Longrightarrow> snprintf_send snp xs = Some (snp_put snp xs) \<and> snp_good (snp_put snp xs)"
proof (induction xs arbitrary: snp)
  case Nil
  then show ?case by (simp add: snp_put_def put_Nil)
next
  case (Cons x xs)
  show ?case
  proof (cases "snp_bufpos snp < snp_buflen snp")
    case True
    let ?a = "snp_buf snp + snp_bufpos snp"
    let ?s = "snp\<lparr>snp_mem := put (snp_mem snp) ?a [x], snp_bufpos := snp_bufpos snp + 1\<rparr>"
    have "mapped (snp_mem snp) ?a 1" using Cons.prems True mapped_sub [of "snp_mem snp" "snp_buf snp" "snp_buflen snp" "snp_bufpos snp" 1] by (simp add: snp_good_def)
    then have w: "wrbytes (snp_mem snp) ?a [x] = Some (put (snp_mem snp) ?a [x])" by (simp add: wrbytes_eq)
    have g: "snp_good ?s" using Cons.prems True by (simp add: snp_good_def mapped_put)
    obtain k where k: "snp_buflen snp - snp_bufpos snp = Suc k" using True by (metis Suc_diff_Suc)
    then have k': "snp_buflen snp - (snp_bufpos snp + 1) = k" by simp
    have "snp_put ?s xs = snp_put snp (x # xs)" using k k' put_append [of "snp_mem snp" ?a "[x]"] by (simp add: snp_put_def)
    with Cons.IH [OF g] True w show ?thesis by simp
  next
    case False
    then have "snp_put snp xs = snp_put snp (x # xs)" by (simp add: snp_put_def)
    with Cons.IH [OF Cons.prems] False show ?thesis by simp
  qed
qed

lemma snp_put_append: "snp_good snp \<Longrightarrow> snp_put (snp_put snp xs) ys = snp_put snp (xs @ ys)"
proof -
  assume g: "snp_good snp"
  let ?k = "snp_buflen snp - snp_bufpos snp" and ?a = "snp_buf snp + snp_bufpos snp"
  have p: "put (put (snp_mem snp) ?a (take ?k xs)) (?a + min (length xs) ?k) (take (?k - length xs) ys) = put (snp_mem snp) ?a (take ?k (xs @ ys))"
    using put_append [of "snp_mem snp" ?a "take ?k xs" "take (?k - length xs) ys"] by (simp add: min.commute)
  have r: "snp_buflen snp - (snp_bufpos snp + min (length xs) ?k) = ?k - length xs" by simp
  have "snp_bufpos snp + min (length xs) ?k + min (length ys) (?k - length xs) = snp_bufpos snp + min (length (xs @ ys)) ?k" by simp
  then show ?thesis using p r by (simp add: snp_put_def add.assoc)
qed

interpretation snp: text_sink snprintf_send snp_good
proof
  fix c :: SNP and xs ys assume c: "snp_good c"
  show "snprintf_send c [] = Some c" by simp
  show "\<exists>c'. snprintf_send c xs = Some c' \<and> snp_good c'" using snprintf_send_eq [OF c] by simp
  show "snprintf_send c (xs @ ys) = Option.bind (snprintf_send c xs) (\<lambda>c. snprintf_send c ys)"
    using snprintf_send_eq [OF c] snprintf_send_eq [of "snp_put c xs" ys] snp_put_append [OF c, of xs ys] by simp
qed

section \<open>Every format is printed\<close>

text \<open>The arguments that a format asks for; the flag says that a field has begun.\<close>

fun args_ok :: "bool \<Rightarrow> byte list \<Rightarrow> va list \<Rightarrow> bool" where
  "args_ok p [] args = True"
| "args_ok p (ch # fmt) args =
     (if \<not> p then args_ok (ch = 37) fmt args
      else if ch \<in> set modifiers then args_ok True fmt args
      else if ch \<in> set inttypes \<or> ch = 99 then (case args of VA_NUM n # args \<Rightarrow> args_ok False fmt args | _ \<Rightarrow> False)
      else if ch = 115 then (case args of VA_STR t # args \<Rightarrow> args_ok False fmt args | _ \<Rightarrow> False)
      else args_ok False fmt args)"

lemma s32_add: "s32 (s32 a + b) = s32 (a + b)"
  by (simp add: s32_def mod_simps add_ac)

definition counted :: "byte list PF \<Rightarrow> bool" where
  "counted q \<longleftrightarrow> sendfunc q = collect \<and> charcount q = s32 (int (length (clientdata q)))"

definition printed :: "byte list \<Rightarrow> byte list PF \<Rightarrow> byte list PF" where
  "printed txt q = q\<lparr>clientdata := clientdata q @ txt, charcount := s32 (int (length (clientdata q @ txt)))\<rparr>"

lemma print_counted: "counted q \<Longrightarrow> pf_print q txt = Some (printed txt q)"
  by (simp add: counted_def pf_print_def collect_def printed_def s32_add)

lemma counted_printed [simp]: "counted q \<Longrightarrow> counted (printed txt q)"
  by (simp add: counted_def printed_def)

lemma printed_printed [simp]: "printed ys (printed xs q) = printed (xs @ ys) q" "counted q \<Longrightarrow> printed [] q = q"
  by (simp_all add: printed_def counted_def add.assoc)

lemma printed_fields [simp]:
  "spacing (printed t q) = spacing q" "rightspc (printed t q) = rightspc q" "fillchar (printed t q) = fillchar q" "ap (printed t q) = ap q"
  "in_pct (printed t q) = in_pct q" "clientdata (printed t q) = clientdata q @ t"
  by (simp_all add: printed_def)

lemma fill_counted: "counted q \<Longrightarrow> pf_fill q n = Some (printed (replicate n (fillchar q)) q)"
proof (induction n arbitrary: q)
  case (Suc n)
  from Suc.IH [OF counted_printed [OF Suc.prems, of "[fillchar q]"]] print_counted [OF Suc.prems, of "[fillchar q]"] show ?case by simp
qed simp

text \<open>A field: the text with its prefixes, filled up to the width.\<close>

definition pf_field :: "'c PF \<Rightarrow> byte list \<Rightarrow> byte list \<Rightarrow> byte list" where
  "pf_field q pre txt =
     (let len = s32 (int (length pre + length txt));
          fill = (if spacing q > len \<and> s32 (spacing q - len) > 0 then replicate (nat (s32 (spacing q - len))) (fillchar q) else [])
      in if rightspc q then pre @ txt @ fill else if fillchar q = 48 then pre @ fill @ txt else fill @ pre @ txt)"

lemma printstuff_counted: "counted q \<Longrightarrow> pf_printstuff q a b x = Some (printed (pf_field q (a @ b) x) q)"
  by (simp add: pf_printstuff_def pf_field_def Let_def fill_counted print_counted)

text \<open>The loop over the digits fits into the buffer and gives the digits of the number in the base.\<close>

lemma digits_fit:
  assumes "2 \<le> bas" and "bas \<le> 16" and "xnum < bas ^ Suc x"
  shows "\<exists>ds. pf_digits (Suc x) bas xnum buf = Some (map ((!) hexdigits) ds @ buf) \<and> length ds \<le> Suc x
    \<and> ds \<noteq> [] \<and> set ds \<subseteq> {..<bas} \<and> foldl (\<lambda>v d. v * bas + d) 0 ds = xnum"
  using assms(3)
proof (induction x arbitrary: xnum buf)
  case 0
  then have "xnum < bas" by simp
  with assms show ?case by (intro exI [of _ "[xnum]"]) (simp add: rd_in hexdigits_def kassert_def Let_def)
next
  case (Suc x)
  let ?d = "xnum mod bas"
  have d: "?d < bas" using assms(1) by simp
  then have r: "rd hexdigits (int ?d) = Some (hexdigits ! ?d)" using assms(2) by (simp add: rd_in hexdigits_def)
  show ?case
  proof (cases "xnum div bas > 0")
    case True
    have "xnum div bas < bas ^ Suc x" using Suc.prems by (simp add: less_mult_imp_div_less mult.commute)
    from Suc.IH [OF this, of "hexdigits ! ?d # buf"] obtain ds
      where "pf_digits (Suc x) bas (xnum div bas) (hexdigits ! ?d # buf) = Some (map ((!) hexdigits) ds @ hexdigits ! ?d # buf)" "length ds \<le> Suc x"
        "set ds \<subseteq> {..<bas}" "foldl (\<lambda>v d. v * bas + d) 0 ds = xnum div bas" by blast
    with True r d assms(1) show ?thesis
      by (intro exI [of _ "ds @ [?d]"]) (simp add: kassert_def Let_def del: pf_digits.simps(2) add: pf_digits.simps(2) [of "Suc x"])
  next
    case False
    then have "xnum < bas" using assms(1) by (simp add: div_eq_0_iff)
    with r d assms(1) show ?thesis by (intro exI [of _ "[xnum]"]) (simp add: kassert_def Let_def)
  qed
qed

lemma printnum_counted:
  assumes "counted q" and "pf_base q = 8 \<or> pf_base q = 10 \<or> pf_base q = 16" and "num q < 4294967296"
  shows "\<exists>t. pf_printnum q = Some (printed t q)"
proof -
  have b: "num q < pf_base q ^ Suc 10" "2 \<le> pf_base q" "pf_base q \<le> 16" using assms(2,3) by auto
  from digits_fit [OF b(2,3,1), of "[]"] obtain ds where "pf_digits (Suc 10) (pf_base q) (num q) [] = Some ds" by auto
  then have "pf_digits (NUMBER_BUF_SIZE - 1) (pf_base q) (num q) [] = Some ds" by (simp only: NUMBER_BUF_SIZE_def) simp
  then show ?thesis by (auto simp: pf_printnum_def printstuff_counted [OF assms(1)] Let_def)
qed

lemma counted_fields:
  "counted (q\<lparr>in_pct := a\<rparr>) = counted q" "counted (q\<lparr>pf_size := b\<rparr>) = counted q" "counted (q\<lparr>spacing := c\<rparr>) = counted q"
  "counted (q\<lparr>rightspc := d\<rparr>) = counted q" "counted (q\<lparr>fillchar := e\<rparr>) = counted q" "counted (q\<lparr>altformat := f\<rparr>) = counted q"
  "counted (q\<lparr>ap := g\<rparr>) = counted q" "counted (q\<lparr>num := h\<rparr>) = counted q" "counted (q\<lparr>sign := i\<rparr>) = counted q"
  "counted (q\<lparr>pf_base := j\<rparr>) = counted q" "counted (q\<lparr>baseprefix := k\<rparr>) = counted q"
  by (simp_all add: counted_def)

lemma endfield_fields [simp]: "counted (pf_endfield q) = counted q" "in_pct (pf_endfield q) = False" "ap (pf_endfield q) = ap q"
  by (simp_all add: counted_def pf_endfield_def)

lemma modifier_counted:
  assumes "ch \<in> set modifiers" and "counted q"
  shows "\<exists>q'. pf_modifier q ch = Some q' \<and> counted q' \<and> in_pct q' = in_pct q \<and> ap q' = ap q"
proof -
  have "ch \<in> {35, 45, 113, 108, 48} \<or> ch \<in> {49, 50, 51, 52, 53, 54, 55, 56, 57}" using assms(1) by (simp add: modifiers_def)
  then show ?thesis using assms(2) by (auto simp: pf_modifier_def counted_fields kassert_def)
qed

lemma inttype_counted:
  assumes "ch \<in> set inttypes" and "counted q" and "ap q = VA_NUM n # rest"
  shows "\<exists>q'. do { pf \<leftarrow> pf_getnum q ch; pf \<leftarrow> pf_printnum (pf_setbase pf ch); Some (pf_endfield pf) } = Some q'
    \<and> counted q' \<and> \<not> in_pct q' \<and> ap q' = rest"
proof -
  have "\<exists>g. pf_getnum q ch = Some g \<and> counted g \<and> ap g = rest \<and> num g < 4294967296"
    using assms(2,3) by (auto simp: pf_getnum_def va_num_def Let_def counted_fields u32_less)
  then obtain g where g: "pf_getnum q ch = Some g" "counted g" "ap g = rest" "num g < 4294967296" by blast
  let ?b = "pf_setbase g ch"
  have b: "counted ?b" "ap ?b = rest" "num ?b < 4294967296" "pf_base ?b = 8 \<or> pf_base ?b = 10 \<or> pf_base ?b = 16"
    using g(2-4) assms(1) by (auto simp: pf_setbase_def Let_def counted_fields inttypes_def)
  from printnum_counted [OF b(1,4,3)] obtain t where "pf_printnum ?b = Some (printed t ?b)" by blast
  with g(1) b(1,2) show ?thesis by simp
qed

lemma loop_counted:
  assumes "counted q" and "0 \<notin> set fmt" and "args_ok (in_pct q) fmt (ap q)"
  shows "\<exists>q'. pf_loop q fmt = Some q' \<and> counted q'"
  using assms
proof (induction fmt arbitrary: q)
  case (Cons ch fmt)
  have "\<exists>q'. pf_send q ch = Some q' \<and> counted q' \<and> args_ok (in_pct q') fmt (ap q')"
  proof (cases "in_pct q")
    case False
    then show ?thesis using Cons.prems by (auto simp: pf_send_def print_counted counted_fields)
  next
    case p: True
    note C = Cons.prems(1)
    have A: "args_ok True (ch # fmt) (ap q)" using Cons.prems(3) p by metis
    have nz: "ch \<noteq> 0" using Cons.prems(2) by auto
    show ?thesis
    proof (cases "ch \<in> set modifiers")
      case True
      with modifier_counted [OF True C] A p nz show ?thesis by (auto simp: pf_send_def)
    next
      case m: False
      show ?thesis
      proof (cases "ch \<in> set inttypes")
        case True
        with A m obtain n rest where a: "ap q = VA_NUM n # rest" "args_ok False fmt rest" by (auto split: list.splits va.splits)
        from inttype_counted [OF True C a(1)] True m p nz a(2) show ?thesis by (auto simp: pf_send_def)
      next
        case i: False
        show ?thesis
          using A m i p nz C
          by (auto simp: pf_send_def va_str_def va_num_def printstuff_counted counted_fields Let_def split: list.splits va.splits if_splits)
      qed
    qed
  qed
  then show ?case using Cons.IH Cons.prems(2) by auto
qed simp

lemma vprintf_collect:
  assumes "0 \<notin> set fmt" and "args_ok False fmt args"
  shows "\<exists>out. vprintf collect [] fmt args = Some (s32 (int (length out)), out)"
proof -
  let ?pf = "pf_endfield \<lparr>sendfunc = collect, clientdata = [], ap = args, charcount = 0, in_pct = False, pf_size = INTSZ,
              num = 0, sign = 0, spacing = 0, rightspc = False, fillchar = 0, pf_base = 0, baseprefix = False, altformat = False\<rparr>"
  have "counted ?pf" by (simp add: counted_def pf_endfield_def s32_def)
  moreover have "args_ok (in_pct ?pf) fmt (ap ?pf)" using assms(2) by (simp add: pf_endfield_def)
  ultimately obtain q' where "pf_loop ?pf fmt = Some q'" "counted q'" using loop_counted [OF _ assms(1)] by blast
  then show ?thesis by (simp add: vprintf_def counted_def)
qed

lemma snprintf_collect:
  assumes "mapped m buf len" and "vprintf collect [] fmt args = Some (n, out)"
  shows "snprintf buf len fmt args m = Some (n, if len = 0 then m else put m buf (take (len - 1) out @ [0]))"
proof -
  let ?s = "\<lparr>snp_buf = buf, snp_buflen = (if len = 0 then 0 else len - 1), snp_bufpos = 0, snp_mem = m\<rparr>"
  have g: "snp_good ?s" using mapped_sub [OF assms(1), of 0 "len - 1"] assms(1) by (auto simp: snp_good_def)
  from snp.vprintf_sent [OF g assms(2)] snprintf_send_eq [OF g, of out]
  have v: "vprintf snprintf_send ?s fmt args = Some (n, snp_put ?s out)" by auto
  show ?thesis
  proof (cases "len = 0")
    case True
    with v show ?thesis by (simp add: snprintf_def vsnprintf_def snp_put_def)
  next
    case False
    let ?k = "min (length out) (len - 1)"
    have "mapped m (buf + ?k) 1" using mapped_sub [OF assms(1), of ?k 1] False by simp
    moreover have "put (put m buf (take (len - 1) out)) (buf + ?k) [0] = put m buf (take (len - 1) out @ [0])"
      using put_append [of m buf "take (len - 1) out" "[0]"] by (simp add: min.commute)
    ultimately show ?thesis using v False by (simp add: snprintf_def vsnprintf_def snp_put_def wrbytes_eq Let_def)
  qed
qed

text \<open>C13. \<open>snprintf\<close> returns for every format and stays in its buffer. Whatever the format, with the arguments it
  asks for, the printing of each field and of the whole format comes to an end, no number leaves its
  buffer of twelve bytes, and the buffer holds exactly the text that any other place to
  print to would be sent, cut to one byte less than its length, and a NUL; no other byte changes, and the result is the
  length of the whole text. With a length of zero nothing is written.\<close>

theorem snprintf_returns_within_buffer:
  assumes "mapped m buf len" and "0 \<notin> set fmt" and "args_ok False fmt args"
  shows "\<exists>out. vprintf collect [] fmt args = Some (s32 (int (length out)), out)
    \<and> snprintf buf len fmt args m = Some (s32 (int (length out)), if len = 0 then m else put m buf (take (len - 1) out @ [0]))"
  using vprintf_collect [OF assms(2,3)] snprintf_collect [OF assms(1)] by blast

theorem snprintf_returns_within_buffer_witness:
  "\<exists>out. vprintf collect [] [37, 48, 53, 100, 58, 37, 115] [VA_NUM 42, VA_STR (Ptr [97, 98])] = Some (s32 (int (length out)), out)
    \<and> out = [48, 48, 48, 52, 50, 58, 97, 98]
    \<and> snprintf 100 6 [37, 48, 53, 100, 58, 37, 115] [VA_NUM 42, VA_STR (Ptr [97, 98])] (\<lambda>_. Some 1)
       = Some (8, put (\<lambda>_. Some 1) 100 [48, 48, 48, 52, 50, 0])"
proof -
  let ?f = "[37, 48, 53, 100, 58, 37, 115] :: byte list" and ?a = "[VA_NUM 42, VA_STR (Ptr [97, 98])]"
  have c: "vprintf collect [] ?f ?a = Some (8, [48, 48, 48, 52, 50, 58, 97, 98])" by code_simp
  from snprintf_returns_within_buffer [of "\<lambda>_. Some 1" 100 6 ?f ?a] c show ?thesis
    by (auto simp: mapped_def modifiers_def inttypes_def)
qed

lemma hexdigit_char: "d < 10 \<Longrightarrow> hexdigits ! d = digit_char d"
proof -
  have "list_all (\<lambda>d. hexdigits ! d = digit_char d) [0..<10]" by code_simp
  then show "d < 10 \<Longrightarrow> ?thesis" by (simp add: list_all_iff)
qed

lemma digits_more: "pf_digits x bas n buf = Some ds \<Longrightarrow> pf_digits (Suc x) bas n buf = Some ds"
proof (induction x arbitrary: n buf)
  case (Suc x)
  then show ?case
    unfolding pf_digits.simps(2) [of "Suc x" bas n buf] using Suc.prems [unfolded pf_digits.simps(2) [of x bas n buf]] Suc.IH
    by (auto simp: kassert_def Let_def simp del: pf_digits.simps split: Option.bind_splits if_splits)
qed simp

lemma print_decimal:
  assumes "- 2147483648 \<le> v" and "v \<le> 2147483647"
  shows "\<exists>ds. vprintf collect [] [37, 100] [VA_NUM (u32 v)] = Some (int (length ((if v < 0 then [45] else []) @ map digit_char ds)), (if v < 0 then [45] else []) @ map digit_char ds)
    \<and> ds \<noteq> [] \<and> set ds \<subseteq> {..<10} \<and> int (decimal ds) = \<bar>v\<bar> \<and> length ds \<le> 10"
proof -
  have v: "s32 (int (u32 v)) = v" "nat \<bar>v\<bar> < 10 ^ Suc 9" "u32 \<bar>v\<bar> = nat \<bar>v\<bar>"
    using assms by (auto simp: s32_def u32_def mod_simps)
  from digits_fit [of 10 "nat \<bar>v\<bar>" 9 "[]"] v(2) obtain ds where d: "pf_digits (Suc 9) 10 (nat \<bar>v\<bar>) [] = Some (map ((!) hexdigits) ds)"
    "ds \<noteq> []" "set ds \<subseteq> {..<10}" "decimal ds = nat \<bar>v\<bar>" "length ds \<le> 10" by (auto simp: decimal_def)
  have dc: "map ((!) hexdigits) ds = map digit_char ds" using d(3) by (auto intro!: hexdigit_char)
  have p: "pf_digits (NUMBER_BUF_SIZE - 1) 10 (nat \<bar>v\<bar>) [] = Some (map digit_char ds)"
    using digits_more [OF d(1)] unfolding dc by (simp add: NUMBER_BUF_SIZE_def numeral_eq_Suc del: pf_digits.simps)
  have f: "pf_field q pre t = pre @ t" if "spacing q = 0" "\<not> rightspc q" "length pre + length t \<le> 100" for q :: "byte list PF" and pre t :: "byte list"
    using that by (simp add: pf_field_def Let_def s32_id INT_MAX_def)
  have l: "s32 (int (length ds)) = int (length ds)" "s32 (1 + int (length ds)) = 1 + int (length ds)" using d(5) by (simp_all add: s32_id INT_MAX_def)
  have c: "counted \<lparr>sendfunc = collect, clientdata = [], ap = a, charcount = 0, in_pct = b, pf_size = INTSZ, num = n, sign = sg, spacing = 0,
      rightspc = False, fillchar = 32, pf_base = bs, baseprefix = False, altformat = False\<rparr>" for a b n sg bs by (simp add: counted_def s32_def)
  have "vprintf collect [] [37, 100] [VA_NUM (u32 v)] = Some (int (length ((if v < 0 then [45] else []) @ map digit_char ds)), (if v < 0 then [45] else []) @ map digit_char ds)"
    using v(1,3) p d(5) l
    by (auto simp: vprintf_def pf_send_def pf_endfield_def modifiers_def inttypes_def pf_getnum_def va_num_def Let_def pf_setbase_def
        pf_printnum_def printstuff_counted [OF c] f printed_def)
  with d show ?thesis by auto
qed

text \<open>C39. Printing a number and reading it back. For every value of an \<open>int\<close>, \<open>snprintf\<close> with the format \<open>%d\<close> into a
  buffer of at least twelve bytes writes a string, returns its length, and \<open>atoi\<close> on the buffer gives the
  value back.\<close>

theorem snprintf_atoi_roundtrip:
  assumes "mapped m buf len" and "12 \<le> len" and "- 2147483648 \<le> v" and "v \<le> 2147483647"
  shows "\<exists>txt m'. snprintf buf len [37, 100] [VA_NUM (u32 v)] m = Some (int (length txt), m') \<and> cstr m' buf txt \<and> atoi m' buf = Some v"
proof -
  from print_decimal [OF assms(3,4)] obtain ds where d: "vprintf collect [] [37, 100] [VA_NUM (u32 v)]
      = Some (int (length ((if v < 0 then [45] else []) @ map digit_char ds)), (if v < 0 then [45] else []) @ map digit_char ds)"
    "ds \<noteq> []" "set ds \<subseteq> {..<10}" "int (decimal ds) = \<bar>v\<bar>" "length ds \<le> 10" by blast
  let ?t = "(if v < 0 then [45] else []) @ map digit_char ds" and ?sg = "if v < 0 then [45] else [] :: byte list"
  have "length ?t \<le> len - 1" using d(5) assms(2) by auto
  then have s: "snprintf buf len [37, 100] [VA_NUM (u32 v)] m = Some (int (length ?t), put m buf (?t @ [0]))"
    using snprintf_collect [OF assms(1) d(1)] assms(2) by simp
  have "0 \<notin> set ?t" using d(3) offset_digits by fastforce
  then have c: "cstr (put m buf (?t @ [0])) buf ?t" by (rule cstr_put)
  have "sint (of_int v :: 32 word) = v" using assms(3,4) by (simp add: signed_take_bit_int_eq_self sint_sbintrunc')
  moreover have "(if ?sg = [45] then - of_nat (decimal ds) else of_nat (decimal ds)) = (of_int v :: 32 word)"
    using arg_cong [OF d(4), of "of_int :: int \<Rightarrow> 32 word"] by (auto simp: abs_if)
  ultimately have "atoi (put m buf (?t @ [0])) buf = Some v"
    using atoi_cstr [of "put m buf (?t @ [0])" buf "[]" ?sg ds "[]"] c d(2,3) by (auto split: if_splits)
  with s c show ?thesis by blast
qed

theorem snprintf_atoi_roundtrip_witness:
  "\<exists>txt m'. snprintf 64 12 [37, 100] [VA_NUM 2147483648] (\<lambda>_. Some 7) = Some (int (length txt), m') \<and> cstr m' 64 txt \<and> atoi m' 64 = Some (- 2147483648)"
  using snprintf_atoi_roundtrip [of "\<lambda>_. Some 7" 64 12 "- 2147483648"] by (simp add: mapped_def u32_def)

end
