(* ===== verification/Kvfs.thy ===== *)
theory Kvfs
  imports Kuio Kprintf
begin

unbundle bit_operations_syntax

text \<open>
  The virtual file system layer: \<open>kern/fs/vfs/vfslist.c\<close> (the table of named devices), \<open>vfslookup.c\<close>
  (path names to vnodes), \<open>vfscwd.c\<close> (the current directory), \<open>vfspath.c\<close> (operations on path names) and
  \<open>device.c\<close> (vnodes of devices). The layer calls file systems and vnodes through tables of functions,
  \<open>struct vnode_ops\<close> and \<open>struct fs\<close>; the tables are an argument here, as the record \<open>vops\<close>, and the state
  of everything below them is the field \<open>world\<close>. Vnodes, file systems and devices are named by their
  addresses. Strings are their bytes without the NUL. The two locks of the layer are taken and released inside
  each operation, which runs alone; messages on the console are left out.
\<close>

record 'w vops =
  v_incref :: "nat \<Rightarrow> 'w \<Rightarrow> 'w option"
  v_decref :: "nat \<Rightarrow> 'w \<Rightarrow> 'w option"
  v_incopen :: "nat \<Rightarrow> 'w \<Rightarrow> 'w option"
  v_decopen :: "nat \<Rightarrow> 'w \<Rightarrow> 'w option"
  v_open :: "nat \<Rightarrow> nat \<Rightarrow> 'w \<Rightarrow> ('w, unit) kres"
  v_gettype :: "nat \<Rightarrow> 'w \<Rightarrow> ('w, nat) kres"
  v_truncate :: "nat \<Rightarrow> int \<Rightarrow> 'w \<Rightarrow> ('w, unit) kres"
  v_namefile :: "nat \<Rightarrow> uio \<Rightarrow> 'w \<Rightarrow> (rc \<times> uio \<times> 'w) option"
  v_readlink :: "nat \<Rightarrow> uio \<Rightarrow> 'w \<Rightarrow> (rc \<times> uio \<times> 'w) option"
  v_creat :: "nat \<Rightarrow> byte list \<Rightarrow> bool \<Rightarrow> 'w \<Rightarrow> ('w, nat) kres"
  v_symlink :: "nat \<Rightarrow> byte list \<Rightarrow> byte list \<Rightarrow> 'w \<Rightarrow> ('w, unit) kres"
  v_mkdir :: "nat \<Rightarrow> byte list \<Rightarrow> 'w \<Rightarrow> ('w, unit) kres"
  v_link :: "nat \<Rightarrow> byte list \<Rightarrow> nat \<Rightarrow> 'w \<Rightarrow> ('w, unit) kres"
  v_remove :: "nat \<Rightarrow> byte list \<Rightarrow> 'w \<Rightarrow> ('w, unit) kres"
  v_rmdir :: "nat \<Rightarrow> byte list \<Rightarrow> 'w \<Rightarrow> ('w, unit) kres"
  v_rename :: "nat \<Rightarrow> byte list \<Rightarrow> nat \<Rightarrow> byte list \<Rightarrow> 'w \<Rightarrow> ('w, unit) kres"
  v_lookup :: "nat \<Rightarrow> byte list \<Rightarrow> 'w \<Rightarrow> ('w, nat) kres"
  v_lookparent :: "nat \<Rightarrow> byte list \<Rightarrow> nat \<Rightarrow> 'w \<Rightarrow> ('w, nat \<times> byte list) kres"
  v_fs :: "nat \<Rightarrow> 'w \<Rightarrow> nat nullable"
  f_sync :: "nat \<Rightarrow> 'w \<Rightarrow> (rc \<times> 'w) option"
  f_getvolname :: "nat \<Rightarrow> 'w \<Rightarrow> byte list nullable"
  f_getroot :: "nat \<Rightarrow> 'w \<Rightarrow> (nat \<times> 'w) option"
  f_unmount :: "nat \<Rightarrow> 'w \<Rightarrow> (rc \<times> 'w) option"

record knowndev =
  kd_name :: "byte list"
  kd_rawname :: "byte list nullable"
  kd_device :: "nat nullable"
  kd_vnode :: nat
  kd_fs :: "nat nullable"

record 'w vfs =
  knowndevs :: "knowndev list"
  bootfs_vnode :: "nat nullable"
  t_cwd :: "nat nullable"
  world :: 'w

text \<open>A call through the tables.\<close>

definition vdo :: "('w \<Rightarrow> 'w option) \<Rightarrow> 'w vfs \<Rightarrow> 'w vfs option" where
  "vdo f s = do { w \<leftarrow> f (world s); Some (s\<lparr>world := w\<rparr>) }"

definition vcall :: "('w \<Rightarrow> ('w, 'a) kres) \<Rightarrow> 'w vfs \<Rightarrow> ('w vfs, 'a) kres" where
  "vcall f s = do { (r, w) \<leftarrow> f (world s); Some (r, s\<lparr>world := w\<rparr>) }"

definition fcall :: "('w \<Rightarrow> (rc \<times> 'w) option) \<Rightarrow> 'w vfs \<Rightarrow> (rc \<times> 'w vfs) option" where
  "fcall f s = do { (r, w) \<leftarrow> f (world s); Some (r, s\<lparr>world := w\<rparr>) }"

section \<open>Device vnodes: device.c\<close>

text \<open>A device: its size, and its own routines, which are an argument of the operations.\<close>

record device =
  d_blocks :: nat
  d_blocksize :: nat

definition dev_open :: "(nat \<Rightarrow> rc) \<Rightarrow> nat \<Rightarrow> rc" where
  "dev_open d_open flags = (if flags AND (4 OR 16 OR 8 OR 32) \<noteq> 0 then EINVAL else d_open flags)"

definition dev_read :: "(uio \<Rightarrow> 'd \<Rightarrow> (rc \<times> uio \<times> 'd) option) \<Rightarrow> uio \<Rightarrow> 'd \<Rightarrow> (rc \<times> uio \<times> 'd) option" where
  "dev_read d_io u d = do { kassert (uio_rw u = UIO_READ); d_io u d }"

definition dev_write :: "(uio \<Rightarrow> 'd \<Rightarrow> (rc \<times> uio \<times> 'd) option) \<Rightarrow> uio \<Rightarrow> 'd \<Rightarrow> (rc \<times> uio \<times> 'd) option" where
  "dev_write d_io u d = do { kassert (uio_rw u = UIO_WRITE); d_io u d }"

definition dev_ioctl :: "(int \<Rightarrow> nat \<Rightarrow> 'd \<Rightarrow> (rc \<times> 'd) option) \<Rightarrow> int \<Rightarrow> nat \<Rightarrow> 'd \<Rightarrow> (rc \<times> 'd) option" where
  "dev_ioctl d_ioctl op data d = d_ioctl op data d"

definition null_io :: rc where
  "null_io = EINVAL"

text \<open>\<open>S_IFBLK\<close> is octal 50000 and \<open>S_IFCHR\<close> octal 40000.\<close>

definition dev_gettype :: "device \<Rightarrow> nat" where
  "dev_gettype d = (if d_blocks d > 0 then 20480 else 16384)"

text \<open>The mode, the number of links, the size and the number of blocks.\<close>

definition dev_stat :: "device \<Rightarrow> nat \<times> nat \<times> int \<times> nat" where
  "dev_stat d = (dev_gettype d, 1, if d_blocks d > 0 then s32 (int (u32 (int (d_blocks d) * int (d_blocksize d)))) else 0, d_blocks d)"

definition dev_tryseek :: "device \<Rightarrow> int \<Rightarrow> rc option" where
  "dev_tryseek d pos =
     (if d_blocks d > 0 then do {
        kassert (d_blocksize d \<noteq> 0);
        Some (if u32 pos mod d_blocksize d \<noteq> 0 then EINVAL
              else if pos < 0 then EINVAL
              else if u32 pos div d_blocksize d \<ge> d_blocks d then EINVAL
              else OK)
      }
      else Some ESPIPE)"

definition dev_truncate :: "device \<Rightarrow> int \<Rightarrow> rc" where
  "dev_truncate d len = (if d_blocks d > 0 \<and> s32 (int (u32 (int (d_blocks d) * int (d_blocksize d)))) = len then OK else EINVAL)"

definition null_fsync :: rc where "null_fsync = OK"
definition dev_mmap :: rc where "dev_mmap = EUNIMP"
definition dev_namefile :: rc where "dev_namefile = OK"
definition null_creat :: rc where "null_creat = ENOTDIR"
definition null_symlink :: rc where "null_symlink = ENOTDIR"
definition null_nameop :: rc where "null_nameop = ENOTDIR"
definition null_link :: rc where "null_link = ENOTDIR"
definition null_rename :: rc where "null_rename = ENOTDIR"
definition dev_lookparent :: rc where "dev_lookparent = ENOTDIR"

text \<open>The argument is \<open>VOP_INCREF\<close> on the directory.\<close>

definition dev_lookup :: "('w \<Rightarrow> 'w option) \<Rightarrow> nat \<Rightarrow> byte list \<Rightarrow> 'w \<Rightarrow> ('w, nat) kres" where
  "dev_lookup incref dir pathname w =
     (if length pathname > 0 then kfail ENOENT w else do { w \<leftarrow> incref w; kret dir w })"

text \<open>The null device of \<open>devnull.c\<close>.\<close>

definition nullopen :: "nat \<Rightarrow> rc" where "nullopen openflags = OK"
definition nullclose :: rc where "nullclose = OK"
definition nullioctl :: rc where "nullioctl = EINVAL"

definition nullio :: "uio \<Rightarrow> 'd \<Rightarrow> (rc \<times> uio \<times> 'd) option" where
  "nullio u d = Some (OK, if uio_rw u = UIO_WRITE then u\<lparr>uio_resid := 0\<rparr> else u, d)"

section \<open>The table of devices: vfslist.c\<close>

definition samestring :: "byte list nullable \<Rightarrow> byte list nullable \<Rightarrow> bool" where
  "samestring a b = (case (a, b) of (Ptr x, Ptr y) \<Rightarrow> scmp x y = 0 | _ \<Rightarrow> False)"

definition samestring3 :: "byte list nullable \<Rightarrow> byte list nullable \<Rightarrow> byte list nullable \<Rightarrow> byte list nullable \<Rightarrow> bool" where
  "samestring3 a b c d \<longleftrightarrow> samestring a b \<or> samestring a c \<or> samestring a d"

definition mkrawname :: "byte list \<Rightarrow> byte list" where
  "mkrawname name = name @ [114, 97, 119]"

text \<open>The name of the volume of the file system on a device, if there is one.\<close>

definition kd_volname :: "'w vops \<Rightarrow> 'w \<Rightarrow> knowndev \<Rightarrow> byte list nullable" where
  "kd_volname ops w kd = (case kd_fs kd of NULL \<Rightarrow> NULL | Ptr fs \<Rightarrow> f_getvolname ops fs w)"

fun badnames :: "'w vops \<Rightarrow> 'w \<Rightarrow> knowndev list \<Rightarrow> byte list nullable \<Rightarrow> byte list nullable \<Rightarrow> byte list nullable \<Rightarrow> bool" where
  "badnames ops w [] n1 n2 n3 = False"
| "badnames ops w (kd # kds) n1 n2 n3 =
     (if kd_fs kd \<noteq> NULL \<and> samestring3 (kd_volname ops w kd) n1 n2 n3 then True
      else if samestring3 (kd_rawname kd) n1 n2 n3 \<or> samestring3 (Ptr (kd_name kd)) n1 n2 n3 then True
      else badnames ops w kds n1 n2 n3)"

text \<open>The answers of the allocator while a device is added: for the name, the raw name, the vnode (with the
  address it gets), the structure and the table.\<close>

record add_mem =
  am_name :: bool
  am_rawname :: bool
  am_vnode :: "nat nullable"
  am_kd :: bool
  am_array :: bool

definition vfs_doadd :: "'w vops \<Rightarrow> add_mem \<Rightarrow> byte list \<Rightarrow> bool \<Rightarrow> nat nullable \<Rightarrow> nat nullable \<Rightarrow> 'w vfs \<Rightarrow> rc \<times> 'w vfs" where
  "vfs_doadd ops am dname mountable dev fs s =
     (if \<not> am_name am then (ENOMEM, s)
      else if mountable \<and> \<not> am_rawname am then (ENOMEM, s)
      else case am_vnode am of
        NULL \<Rightarrow> (ENOMEM, s)
      | Ptr vnode \<Rightarrow>
          if \<not> am_kd am then (ENOMEM, s)
          else
            (let rawname = (if mountable then Ptr (mkrawname dname) else NULL);
                 kd = \<lparr>kd_name = dname, kd_rawname = rawname, kd_device = dev, kd_vnode = vnode, kd_fs = fs\<rparr>;
                 volname = kd_volname ops (world s) kd
             in if \<not> badnames ops (world s) (knowndevs s) (Ptr dname) rawname volname then
                  (if am_array am then (OK, s\<lparr>knowndevs := knowndevs s @ [kd]\<rparr>) else (ENOMEM, s))
                else (EEXIST, s)))"

definition vfs_adddev :: "'w vops \<Rightarrow> add_mem \<Rightarrow> byte list \<Rightarrow> nat \<Rightarrow> bool \<Rightarrow> 'w vfs \<Rightarrow> rc \<times> 'w vfs" where
  "vfs_adddev ops am devname dev mountable s = vfs_doadd ops am devname mountable (Ptr dev) NULL s"

definition vfs_addfs :: "'w vops \<Rightarrow> add_mem \<Rightarrow> byte list \<Rightarrow> nat \<Rightarrow> 'w vfs \<Rightarrow> rc \<times> 'w vfs" where
  "vfs_addfs ops am devname fs s = vfs_doadd ops am devname False NULL (Ptr fs) s"

text \<open>The loop of \<open>vfs_getroot\<close>.\<close>

fun getroot_loop :: "'w vops \<Rightarrow> byte list \<Rightarrow> knowndev list \<Rightarrow> 'w \<Rightarrow> ('w, nat) kres" where
  "getroot_loop ops devname [] w = kfail ENODEV w"
| "getroot_loop ops devname (kd # kds) w =
     (case kd_fs kd of
        Ptr fs \<Rightarrow>
          if scmp (kd_name kd) devname = 0 \<or> (case f_getvolname ops fs w of NULL \<Rightarrow> False | Ptr v \<Rightarrow> scmp v devname = 0) then
            do { (root, w) \<leftarrow> f_getroot ops fs w; kret root w }
          else if (case kd_rawname kd of NULL \<Rightarrow> False | Ptr r \<Rightarrow> scmp r devname = 0) then
            do { kassert (kd_device kd \<noteq> NULL); w \<leftarrow> v_incref ops (kd_vnode kd) w; kret (kd_vnode kd) w }
          else getroot_loop ops devname kds w
      | NULL \<Rightarrow>
          if kd_rawname kd \<noteq> NULL \<and> scmp (kd_name kd) devname = 0 then kfail ENXIO w
          else if scmp (kd_name kd) devname = 0 then
            do { kassert (kd_rawname kd = NULL); kassert (kd_device kd \<noteq> NULL); w \<leftarrow> v_incref ops (kd_vnode kd) w; kret (kd_vnode kd) w }
          else if (case kd_rawname kd of NULL \<Rightarrow> False | Ptr r \<Rightarrow> scmp r devname = 0) then
            do { kassert (kd_device kd \<noteq> NULL); w \<leftarrow> v_incref ops (kd_vnode kd) w; kret (kd_vnode kd) w }
          else getroot_loop ops devname kds w)"

definition vfs_getroot :: "'w vops \<Rightarrow> byte list \<Rightarrow> 'w vfs \<Rightarrow> ('w vfs, nat) kres" where
  "vfs_getroot ops devname s = vcall (getroot_loop ops devname (knowndevs s)) s"

fun getdevname_loop :: "nat \<Rightarrow> knowndev list \<Rightarrow> byte list nullable" where
  "getdevname_loop fs [] = NULL"
| "getdevname_loop fs (kd # kds) = (if kd_fs kd = Ptr fs then Ptr (kd_name kd) else getdevname_loop fs kds)"

definition vfs_getdevname :: "nat \<Rightarrow> 'w vfs \<Rightarrow> byte list nullable" where
  "vfs_getdevname fs s = getdevname_loop fs (knowndevs s)"

fun sync_loop :: "'w vops \<Rightarrow> knowndev list \<Rightarrow> 'w \<Rightarrow> 'w option" where
  "sync_loop ops [] w = Some w"
| "sync_loop ops (kd # kds) w =
     (case kd_fs kd of NULL \<Rightarrow> sync_loop ops kds w | Ptr fs \<Rightarrow> do { (_, w) \<leftarrow> f_sync ops fs w; sync_loop ops kds w })"

definition vfs_sync :: "'w vops \<Rightarrow> 'w vfs \<Rightarrow> (rc \<times> 'w vfs) option" where
  "vfs_sync ops s = do { s \<leftarrow> vdo (sync_loop ops (knowndevs s)) s; Some (OK, s) }"

text \<open>\<open>findmount\<close> gives the index of the device.\<close>

fun findmount_from :: "nat \<Rightarrow> byte list \<Rightarrow> knowndev list \<Rightarrow> nat option" where
  "findmount_from i devname [] = None"
| "findmount_from i devname (kd # kds) =
     (if kd_rawname kd = NULL then findmount_from (Suc i) devname kds
      else if scmp devname (kd_name kd) = 0 then Some i
      else findmount_from (Suc i) devname kds)"

definition findmount :: "byte list \<Rightarrow> 'w vfs \<Rightarrow> nat option" where
  "findmount devname s = findmount_from 0 devname (knowndevs s)"

definition set_fs :: "nat \<Rightarrow> nat nullable \<Rightarrow> 'w vfs \<Rightarrow> 'w vfs" where
  "set_fs i fs s = s\<lparr>knowndevs := (knowndevs s)[i := (knowndevs s ! i)\<lparr>kd_fs := fs\<rparr>]\<rparr>"

definition vfs_mount :: "(nat \<Rightarrow> 'w \<Rightarrow> ('w, nat nullable) kres) \<Rightarrow> byte list \<Rightarrow> 'w vfs \<Rightarrow> (rc \<times> 'w vfs) option" where
  "vfs_mount mountfunc devname s =
     (case findmount devname s of
        None \<Rightarrow> Some (ENODEV, s)
      | Some i \<Rightarrow> do {
          let kd = knowndevs s ! i;
          if kd_fs kd \<noteq> NULL then Some (EBUSY, s)
          else do {
            kassert (kd_rawname kd \<noteq> NULL);
            dev \<leftarrow> (case kd_device kd of NULL \<Rightarrow> None | Ptr dev \<Rightarrow> Some dev);
            (result, s) \<leftarrow> vcall (mountfunc dev) s;
            case result of
              Inl e \<Rightarrow> Some (e, s)
            | Inr fs \<Rightarrow> do { kassert (fs \<noteq> NULL); Some (OK, set_fs i fs s) }
          }
        })"

definition vfs_unmount :: "'w vops \<Rightarrow> byte list \<Rightarrow> 'w vfs \<Rightarrow> (rc \<times> 'w vfs) option" where
  "vfs_unmount ops devname s =
     (case findmount devname s of
        None \<Rightarrow> Some (ENODEV, s)
      | Some i \<Rightarrow>
          (let kd = knowndevs s ! i
           in case kd_fs kd of
                NULL \<Rightarrow> Some (EINVAL, s)
              | Ptr fs \<Rightarrow> do {
                  kassert (kd_rawname kd \<noteq> NULL);
                  kassert (kd_device kd \<noteq> NULL);
                  (result, s) \<leftarrow> fcall (f_sync ops fs) s;
                  if result \<noteq> OK then Some (result, s)
                  else do {
                    (result, s) \<leftarrow> fcall (f_unmount ops fs) s;
                    if result \<noteq> OK then Some (result, s) else Some (OK, set_fs i NULL s)
                  }
                }))"

text \<open>One device in the loop of \<open>vfs_unmountall\<close>: a failed sync is tried once more.\<close>

definition unmount_one :: "'w vops \<Rightarrow> nat \<Rightarrow> nat \<Rightarrow> 'w vfs \<Rightarrow> 'w vfs option" where
  "unmount_one ops i fs s = do {
     (result, s) \<leftarrow> fcall (f_sync ops fs) s;
     (result, s) \<leftarrow> (if result \<noteq> OK then fcall (f_sync ops fs) s else Some (OK, s));
     if result \<noteq> OK then Some s
     else do {
       (result, s) \<leftarrow> fcall (f_unmount ops fs) s;
       if result = EBUSY then Some s
       else if result \<noteq> OK then Some s
       else Some (set_fs i NULL s)
     }
   }"

fun unmountall_from :: "'w vops \<Rightarrow> nat \<Rightarrow> nat \<Rightarrow> 'w vfs \<Rightarrow> 'w vfs option" where
  "unmountall_from ops i 0 s = Some s"
| "unmountall_from ops i (Suc n) s = do {
     let dev = knowndevs s ! i;
     s \<leftarrow> (if kd_rawname dev = NULL then Some s
           else case kd_fs dev of NULL \<Rightarrow> Some s | Ptr fs \<Rightarrow> unmount_one ops i fs s);
     unmountall_from ops (Suc i) n s
   }"

definition vfs_unmountall :: "'w vops \<Rightarrow> 'w vfs \<Rightarrow> (rc \<times> 'w vfs) option" where
  "vfs_unmountall ops s = do { s \<leftarrow> unmountall_from ops 0 (length (knowndevs s)) s; Some (OK, s) }"

text \<open>\<open>devnull_create\<close> and \<open>vfs_bootstrap\<close>; a lack of memory is a panic.\<close>

definition devnull_create :: "'w vops \<Rightarrow> nat nullable \<Rightarrow> add_mem \<Rightarrow> 'w vfs \<Rightarrow> 'w vfs option" where
  "devnull_create ops dev am s =
     (case dev of
        NULL \<Rightarrow> None
      | Ptr dev \<Rightarrow> (case vfs_adddev ops am [110, 117, 108, 108] dev False s of (result, s) \<Rightarrow> if result \<noteq> OK then None else Some s))"

definition vfs_bootstrap :: "'w vops \<Rightarrow> bool \<Rightarrow> bool \<Rightarrow> bool \<Rightarrow> nat nullable \<Rightarrow> add_mem \<Rightarrow> 'w vfs \<Rightarrow> 'w vfs option" where
  "vfs_bootstrap ops arr lock bootlock dev am s = do {
     kassert arr;
     kassert lock;
     kassert bootlock;
     devnull_create ops dev am (s\<lparr>knowndevs := []\<rparr>)
   }"

section \<open>The current directory: vfscwd.c\<close>

definition vfs_getcurdir :: "'w vops \<Rightarrow> 'w vfs \<Rightarrow> ('w vfs, nat) kres" where
  "vfs_getcurdir ops s =
     (case t_cwd s of NULL \<Rightarrow> kfail ENOENT s | Ptr v \<Rightarrow> do { s \<leftarrow> vdo (v_incref ops v) s; kret v s })"

text \<open>\<open>S_ISDIR\<close>: \<open>S_IFMT\<close> is octal 70000 and \<open>S_IFDIR\<close> octal 20000.\<close>

definition S_ISDIR :: "nat \<Rightarrow> bool" where
  "S_ISDIR mode \<longleftrightarrow> mode AND 28672 = 8192"

definition drop_old :: "'w vops \<Rightarrow> nat nullable \<Rightarrow> 'w vfs \<Rightarrow> 'w vfs option" where
  "drop_old ops old s = (case old of NULL \<Rightarrow> Some s | Ptr v \<Rightarrow> vdo (v_decref ops v) s)"

definition vfs_setcurdir :: "'w vops \<Rightarrow> nat \<Rightarrow> 'w vfs \<Rightarrow> ('w vfs, unit) kres" where
  "vfs_setcurdir ops dir s =
     kbind (vcall (v_gettype ops dir) s) (\<lambda>vtype s.
       if \<not> S_ISDIR vtype then kfail ENOTDIR s
       else do {
         s \<leftarrow> vdo (v_incref ops dir) s;
         let old = t_cwd s;
         s \<leftarrow> drop_old ops old (s\<lparr>t_cwd := Ptr dir\<rparr>);
         kret () s
       })"

definition vfs_clearcurdir :: "'w vops \<Rightarrow> 'w vfs \<Rightarrow> (rc \<times> 'w vfs) option" where
  "vfs_clearcurdir ops s = do { s \<leftarrow> drop_old ops (t_cwd s) (s\<lparr>t_cwd := NULL\<rparr>); Some (OK, s) }"

section \<open>Path names: vfslookup.c\<close>

text \<open>The position of the first colon or slash, as \<open>colon\<close> and \<open>slash\<close>; \<open>-1\<close> for none. A colon is byte 58, a
  slash 47.\<close>

fun first_sep :: "int \<Rightarrow> byte list \<Rightarrow> int \<times> int" where
  "first_sep i [] = (- 1, - 1)"
| "first_sep i (c # cs) = (if c = 58 then (i, - 1) else if c = 47 then (- 1, i) else first_sep (i + 1) cs)"

definition skip_slashes :: "byte list \<Rightarrow> byte list" where
  "skip_slashes path = dropWhile (\<lambda>c. c = 47) path"

text \<open>\<open>getdevice\<close>: the rest of the path and the vnode to start from.\<close>

definition getdevice :: "'w vops \<Rightarrow> byte list \<Rightarrow> 'w vfs \<Rightarrow> ('w vfs, byte list \<times> nat) kres" where
  "getdevice ops path s = do {
     let (colon, slash) = first_sep 0 path;
     if colon < 0 \<and> slash \<noteq> 0 then kbind (vfs_getcurdir ops s) (\<lambda>v s. kret (path, v) s)
     else if colon > 0 then
       kbind (vfs_getroot ops (take (nat colon) path) s) (\<lambda>v s. kret (skip_slashes (drop (nat colon + 1) path), v) s)
     else do {
       kassert (colon = 0 \<or> slash = 0);
       if hd path = 47 then
         (case bootfs_vnode s of
            NULL \<Rightarrow> kfail ENOENT s
          | Ptr v \<Rightarrow> do { s \<leftarrow> vdo (v_incref ops v) s; kret (skip_slashes (tl path), v) s })
       else do {
         kassert (hd path = 58);
         kbind (vfs_getcurdir ops s) (\<lambda>vn s. do {
           fs \<leftarrow> (case v_fs ops vn (world s) of NULL \<Rightarrow> None | Ptr fs \<Rightarrow> Some fs);
           (root, w) \<leftarrow> f_getroot ops fs (world s);
           s \<leftarrow> vdo (v_decref ops vn) (s\<lparr>world := w\<rparr>);
           kret (skip_slashes (tl path), root) s
         })
       }
     }
   }"

definition vfs_lookparent :: "'w vops \<Rightarrow> byte list \<Rightarrow> nat \<Rightarrow> 'w vfs \<Rightarrow> ('w vfs, nat \<times> byte list) kres" where
  "vfs_lookparent ops path buflen s =
     kbind (getdevice ops path s) (\<lambda>(path, startvn) s. do {
       (result, s) \<leftarrow> (if length path = 0 then kfail EINVAL s else vcall (v_lookparent ops startvn path buflen) s);
       s \<leftarrow> vdo (v_decref ops startvn) s;
       Some (result, s)
     })"

definition vfs_lookup :: "'w vops \<Rightarrow> byte list \<Rightarrow> 'w vfs \<Rightarrow> ('w vfs, nat) kres" where
  "vfs_lookup ops path s =
     kbind (getdevice ops path s) (\<lambda>(path, startvn) s.
       if length path = 0 then kret startvn s
       else do {
         (result, s) \<leftarrow> vcall (v_lookup ops startvn path) s;
         s \<leftarrow> vdo (v_decref ops startvn) s;
         Some (result, s)
       })"

definition vfs_chdir :: "'w vops \<Rightarrow> byte list \<Rightarrow> 'w vfs \<Rightarrow> ('w vfs, unit) kres" where
  "vfs_chdir ops path s =
     kbind (vfs_lookup ops path s) (\<lambda>vn s. do {
       (result, s) \<leftarrow> vfs_setcurdir ops vn s;
       s \<leftarrow> vdo (v_decref ops vn) s;
       Some (result, s)
     })"

definition vfs_getcwd :: "'w vops \<Rightarrow> uio \<Rightarrow> 'w vfs \<Rightarrow> (rc \<times> uio \<times> 'w vfs) option" where
  "vfs_getcwd ops u s = do {
     kassert (uio_rw u = UIO_READ);
     (r, s) \<leftarrow> vfs_getcurdir ops s;
     case r of
       Inl e \<Rightarrow> Some (e, u, s)
     | Inr cwd \<Rightarrow> do {
         fs \<leftarrow> (case v_fs ops cwd (world s) of NULL \<Rightarrow> None | Ptr fs \<Rightarrow> Some fs);
         name \<leftarrow> (case (case f_getvolname ops fs (world s) of NULL \<Rightarrow> vfs_getdevname fs s | Ptr n \<Rightarrow> Ptr n) of NULL \<Rightarrow> None | Ptr n \<Rightarrow> Some n);
         (result, _, u) \<leftarrow> uiomove name 0 (length name) u;
         (result, u, s) \<leftarrow> (if result \<noteq> OK then Some (result, u, s)
            else do {
              (result, _, u) \<leftarrow> uiomove [58] 0 1 u;
              if result \<noteq> OK then Some (result, u, s)
              else do { (result, u, w) \<leftarrow> v_namefile ops cwd u (world s); Some (result, u, s\<lparr>world := w\<rparr>) }
            });
         s \<leftarrow> vdo (v_decref ops cwd) s;
         Some (result, u, s)
       }
   }"

definition change_bootfs :: "'w vops \<Rightarrow> nat nullable \<Rightarrow> 'w vfs \<Rightarrow> 'w vfs option" where
  "change_bootfs ops newguy s = drop_old ops (bootfs_vnode s) (s\<lparr>bootfs_vnode := newguy\<rparr>)"

text \<open>\<open>vfs_setbootfs\<close>: the name is printed into a buffer with room for 254 bytes and the NUL. The test on the
  colon takes the length of the string that starts at it.\<close>

definition vfs_setbootfs :: "'w vops \<Rightarrow> byte list \<Rightarrow> 'w vfs \<Rightarrow> ('w vfs, unit) kres" where
  "vfs_setbootfs ops fsname s =
     (let tmp = take 254 fsname;
          s1 = dropWhile (\<lambda>c. c \<noteq> 58) tmp
      in if s1 \<noteq> [] \<and> length s1 > 0 then kfail EINVAL s
         else
           (let tmp = (if s1 = [] then tmp @ [58] else tmp)
            in kbind (vfs_chdir ops tmp s) (\<lambda>_ s.
                 kbind (vfs_getcurdir ops s) (\<lambda>newguy s. do {
                   s \<leftarrow> change_bootfs ops (Ptr newguy) s;
                   kret () s
                 }))))"

definition vfs_clearbootfs :: "'w vops \<Rightarrow> 'w vfs \<Rightarrow> 'w vfs option" where
  "vfs_clearbootfs ops s = change_bootfs ops NULL s"

section \<open>Operations on path names: vfspath.c\<close>

definition vfs_open :: "'w vops \<Rightarrow> byte list \<Rightarrow> nat \<Rightarrow> 'w vfs \<Rightarrow> ('w vfs, nat) kres" where
  "vfs_open ops path openflags s =
     (let how = openflags AND 3
      in if how \<noteq> 0 \<and> how \<noteq> 1 \<and> how \<noteq> 2 then kfail EINVAL s
         else
           kbind (if openflags AND 4 \<noteq> 0 then
                    kbind (vfs_lookparent ops path 256 s) (\<lambda>(dir, name) s. do {
                      (result, s) \<leftarrow> vcall (v_creat ops dir name (openflags AND 8 \<noteq> 0)) s;
                      s \<leftarrow> vdo (v_decref ops dir) s;
                      Some (result, s)
                    })
                  else vfs_lookup ops path s) (\<lambda>vn s. do {
             (result, s) \<leftarrow> vcall (v_open ops vn openflags) s;
             case result of
               Inl e \<Rightarrow> do { s \<leftarrow> vdo (v_decref ops vn) s; kfail e s }
             | Inr _ \<Rightarrow> do {
                 s \<leftarrow> vdo (v_incopen ops vn) s;
                 if openflags AND 16 \<noteq> 0 then do {
                   (result, s) \<leftarrow> (if how = 0 then kfail EINVAL s else vcall (v_truncate ops vn 0) s);
                   case result of
                     Inl e \<Rightarrow> do { s \<leftarrow> vdo (v_decopen ops vn) s; s \<leftarrow> vdo (v_decref ops vn) s; kfail e s }
                   | Inr _ \<Rightarrow> kret vn s
                 }
                 else kret vn s
               }
           }))"

definition vfs_close :: "'w vops \<Rightarrow> nat \<Rightarrow> 'w vfs \<Rightarrow> 'w vfs option" where
  "vfs_close ops vn s = do { s \<leftarrow> vdo (v_decopen ops vn) s; vdo (v_decref ops vn) s }"

text \<open>The operations with one name: find the parent, call it, drop it.\<close>

definition on_parent :: "'w vops \<Rightarrow> byte list \<Rightarrow> (nat \<Rightarrow> byte list \<Rightarrow> 'w \<Rightarrow> ('w, unit) kres) \<Rightarrow> 'w vfs \<Rightarrow> ('w vfs, unit) kres" where
  "on_parent ops path f s =
     kbind (vfs_lookparent ops path 256 s) (\<lambda>(dir, name) s. do {
       (result, s) \<leftarrow> vcall (f dir name) s;
       s \<leftarrow> vdo (v_decref ops dir) s;
       Some (result, s)
     })"

definition vfs_remove :: "'w vops \<Rightarrow> byte list \<Rightarrow> 'w vfs \<Rightarrow> ('w vfs, unit) kres" where
  "vfs_remove ops path s = on_parent ops path (v_remove ops) s"

definition vfs_mkdir :: "'w vops \<Rightarrow> byte list \<Rightarrow> 'w vfs \<Rightarrow> ('w vfs, unit) kres" where
  "vfs_mkdir ops path s = on_parent ops path (v_mkdir ops) s"

definition vfs_rmdir :: "'w vops \<Rightarrow> byte list \<Rightarrow> 'w vfs \<Rightarrow> ('w vfs, unit) kres" where
  "vfs_rmdir ops path s = on_parent ops path (v_rmdir ops) s"

definition vfs_symlink :: "'w vops \<Rightarrow> byte list \<Rightarrow> byte list \<Rightarrow> 'w vfs \<Rightarrow> ('w vfs, unit) kres" where
  "vfs_symlink ops contents path s = on_parent ops path (\<lambda>dir name. v_symlink ops dir name contents) s"

text \<open>The end of \<open>vfs_rename\<close> and \<open>vfs_link\<close>: both vnodes must be of one file system.\<close>

definition one_fs :: "'w vops \<Rightarrow> nat \<Rightarrow> nat \<Rightarrow> 'w \<Rightarrow> bool" where
  "one_fs ops a b w \<longleftrightarrow> v_fs ops a w \<noteq> NULL \<and> v_fs ops b w \<noteq> NULL \<and> v_fs ops a w = v_fs ops b w"

definition on_both :: "'w vops \<Rightarrow> nat \<Rightarrow> nat \<Rightarrow> ('w \<Rightarrow> ('w, unit) kres) \<Rightarrow> 'w vfs \<Rightarrow> ('w vfs, unit) kres" where
  "on_both ops old newdir f s = do {
     (result, s) \<leftarrow> (if \<not> one_fs ops old newdir (world s) then kfail EXDEV s else vcall f s);
     s \<leftarrow> vdo (v_decref ops newdir) s;
     s \<leftarrow> vdo (v_decref ops old) s;
     Some (result, s)
   }"

definition vfs_rename :: "'w vops \<Rightarrow> byte list \<Rightarrow> byte list \<Rightarrow> 'w vfs \<Rightarrow> ('w vfs, unit) kres" where
  "vfs_rename ops oldpath newpath s =
     kbind (vfs_lookparent ops oldpath 256 s) (\<lambda>(olddir, oldname) s. do {
       (r, s) \<leftarrow> vfs_lookparent ops newpath 256 s;
       case r of
         Inl e \<Rightarrow> do { s \<leftarrow> vdo (v_decref ops olddir) s; kfail e s }
       | Inr (newdir, newname) \<Rightarrow> on_both ops olddir newdir (v_rename ops olddir oldname newdir newname) s
     })"

definition vfs_link :: "'w vops \<Rightarrow> byte list \<Rightarrow> byte list \<Rightarrow> 'w vfs \<Rightarrow> ('w vfs, unit) kres" where
  "vfs_link ops oldpath newpath s =
     kbind (vfs_lookup ops oldpath s) (\<lambda>oldfile s. do {
       (r, s) \<leftarrow> vfs_lookparent ops newpath 256 s;
       case r of
         Inl e \<Rightarrow> do { s \<leftarrow> vdo (v_decref ops oldfile) s; kfail e s }
       | Inr (newdir, newname) \<Rightarrow> on_both ops oldfile newdir (v_link ops newdir newname oldfile) s
     })"

definition vfs_readlink :: "'w vops \<Rightarrow> byte list \<Rightarrow> uio \<Rightarrow> 'w vfs \<Rightarrow> (rc \<times> uio \<times> 'w vfs) option" where
  "vfs_readlink ops path u s = do {
     (r, s) \<leftarrow> vfs_lookup ops path s;
     case r of
       Inl e \<Rightarrow> Some (e, u, s)
     | Inr vn \<Rightarrow> do {
         (result, u, w) \<leftarrow> v_readlink ops vn u (world s);
         s \<leftarrow> vdo (v_decref ops vn) (s\<lparr>world := w\<rparr>);
         Some (result, u, s)
       }
   }"

section \<open>The root file system\<close>

lemma find_colon: "58 \<in> set xs \<Longrightarrow> dropWhile (\<lambda>c. c \<noteq> (58 :: byte)) xs \<noteq> []"
  by (auto simp: dropWhile_eq_Nil_conv)

text \<open>C40. A name with a colon is refused by \<open>vfs_setbootfs\<close> wherever the colon is, and nothing is changed:
  the test on what follows the colon counts the colon itself. The name \<open>"lhd0:"\<close> that \<open>vfs.h\<close> gives as an
  example is refused.\<close>

lemma vfs_setbootfs_rejects_colon:
  assumes "58 \<in> set (take 254 fsname)"
  shows "vfs_setbootfs ops fsname s = Some (Inl EINVAL, s)"
  using find_colon [OF assms] by (simp add: vfs_setbootfs_def Let_def kfail_def)

theorem vfs_setbootfs_rejects_colon_witness:
  "\<forall>(ops :: unit vops) s. vfs_setbootfs ops [108, 104, 100, 48, 58] s = Some (Inl EINVAL, s)"
  by (intro allI, rule vfs_setbootfs_rejects_colon) simp

end
