(* ===== verification/Kvfs_Refs.thy ===== *)
theory Kvfs_Refs
  imports Kvfs "HOL-Library.Multiset"
begin

text \<open>
  References to vnodes. The layer takes a reference whenever it keeps a vnode (the current directory, the root
  for paths that begin with a slash, a directory during a lookup, the result it hands to its caller) and drops
  it afterwards. \<open>vnode_layer\<close> is what it relies on: how each operation of the tables changes the counts. The
  lemmas of the locale follow the references through every operation of the layer, on every branch.
\<close>

section \<open>Counting references\<close>

text \<open>
  \<open>grew w M w'\<close>: the counts have grown by the references in \<open>M\<close>. A vnode that nobody referred to may be left
  with one count too many when it cannot be reclaimed, unless \<open>strict\<close> says that this does not happen.
  \<open>owed b M w\<close>: the counts are those of the others, \<open>b\<close>, and of \<open>M\<close>.
\<close>

definition grew :: "bool \<Rightarrow> ('w \<Rightarrow> nat \<Rightarrow> int) \<Rightarrow> 'w \<Rightarrow> nat multiset \<Rightarrow> 'w \<Rightarrow> bool" where
  "grew strict refs w M w' \<longleftrightarrow> (\<forall>v. refs w' v = refs w v + int (count M v)
     \<or> \<not> strict \<and> refs w v = 0 \<and> refs w' v = int (count M v) + 1)"

definition owed :: "bool \<Rightarrow> ('w \<Rightarrow> nat \<Rightarrow> int) \<Rightarrow> (nat \<Rightarrow> int) \<Rightarrow> nat multiset \<Rightarrow> 'w \<Rightarrow> bool" where
  "owed strict refs b M w \<longleftrightarrow> size M \<le> 10 \<and> (\<forall>v. 0 \<le> b v \<and> b v + 16 < INT_MAX
     \<and> (refs w v = b v + int (count M v) \<or> \<not> strict \<and> b v = 0 \<and> refs w v = int (count M v) + 1))"

definition few_refs :: "('w \<Rightarrow> nat \<Rightarrow> int) \<Rightarrow> 'w \<Rightarrow> bool" where
  "few_refs refs w \<longleftrightarrow> (\<forall>v. 0 \<le> refs w v \<and> refs w v + 2 < INT_MAX)"

lemma owed_few: "owed strict refs b M w \<Longrightarrow> few_refs refs w"
  unfolding few_refs_def
proof
  fix v assume o: "owed strict refs b M w"
  have "count M v \<le> size M" by (rule count_le_size)
  moreover have "size M \<le> 10" "0 \<le> b v" "b v + 16 < INT_MAX" "refs w v = b v + int (count M v) \<or> refs w v = int (count M v) + 1 \<and> b v = 0"
    using o by (auto simp: owed_def)
  ultimately show "0 \<le> refs w v \<and> refs w v + 2 < INT_MAX" by linarith
qed

lemma owed_grew:
  assumes "owed strict refs b M w" and "grew strict refs w N w'" and "size (M + N) \<le> 10"
  shows "owed strict refs b (M + N) w'"
  unfolding owed_def
proof (intro conjI allI)
  fix v
  have o: "0 \<le> b v" "b v + 16 < INT_MAX" "refs w v = b v + int (count M v) \<or> \<not> strict \<and> b v = 0 \<and> refs w v = int (count M v) + 1"
    using assms(1) by (auto simp: owed_def)
  have g: "refs w' v = refs w v + int (count N v) \<or> \<not> strict \<and> refs w v = 0 \<and> refs w' v = int (count N v) + 1"
    using assms(2) unfolding grew_def by blast
  show "0 \<le> b v" "b v + 16 < INT_MAX" using o by blast+
  show "refs w' v = b v + int (count (M + N) v) \<or> \<not> strict \<and> b v = 0 \<and> refs w' v = int (count (M + N) v) + 1"
    using o g by (auto simp: plus_multiset.rep_eq)
qed (use assms(3) in simp)

section \<open>Results of calls\<close>

text \<open>What holds of every way in which a call can return.\<close>

definition gives :: "('s, 'a) kres \<Rightarrow> ('a \<Rightarrow> 's \<Rightarrow> bool) \<Rightarrow> ('s \<Rightarrow> bool) \<Rightarrow> bool" where
  "gives m Q E \<longleftrightarrow> (\<forall>r s. m = Some (r, s) \<longrightarrow> (case r of Inl e \<Rightarrow> E s | Inr x \<Rightarrow> Q x s))"

lemma gives_kbind: "gives m Q E \<Longrightarrow> (\<And>x s. Q x s \<Longrightarrow> gives (f x s) Q' E) \<Longrightarrow> gives (kbind m f) Q' E"
  unfolding gives_def kbind_Some by (fastforce split: sum.splits)

lemma gives_kret: "Q x s \<Longrightarrow> gives (kret x s) Q E"
  by (simp add: gives_def kret_def)

lemma gives_kfail: "E s \<Longrightarrow> gives (kfail e s) Q E"
  by (simp add: gives_def kfail_def)

lemma gives_bind: "(\<And>x. m = Some x \<Longrightarrow> gives (f x) Q E) \<Longrightarrow> gives (Option.bind m f) Q E"
  by (auto simp: gives_def split: Option.bind_splits)

lemma gives_Some: "(\<And>e. r = Inl e \<Longrightarrow> E s) \<Longrightarrow> (\<And>x. r = Inr x \<Longrightarrow> Q x s) \<Longrightarrow> gives (Some (r, s)) Q E"
  by (auto simp: gives_def split: sum.splits)

lemma gives_mono: "gives m Q E \<Longrightarrow> (\<And>x s. Q x s \<Longrightarrow> Q' x s) \<Longrightarrow> (\<And>s. E s \<Longrightarrow> E' s) \<Longrightarrow> gives m Q' E'"
  unfolding gives_def by (fastforce split: sum.splits)

lemma gives_None: "gives None Q E"
  by (simp add: gives_def)

lemma gives_result:
  assumes "gives m Q E" and "\<And>e s. E s \<Longrightarrow> gives (f (Inl e) s) Q' E'" and "\<And>x s. Q x s \<Longrightarrow> gives (f (Inr x) s) Q' E'"
  shows "gives (Option.bind m (\<lambda>(r, s). f r s)) Q' E'"
proof (rule gives_bind)
  fix y assume "m = Some y"
  then show "gives ((\<lambda>(r, s). f r s) y) Q' E'" using assms by (cases y; cases "fst y") (auto simp: gives_def)
qed

section \<open>The references of the layer\<close>

definition mset_of :: "'a nullable \<Rightarrow> 'a multiset" where
  "mset_of p = (case p of NULL \<Rightarrow> {#} | Ptr v \<Rightarrow> {#v#})"

lemma mset_of_simps [simp]: "mset_of NULL = {#}" "mset_of (Ptr v) = {#v#}" "size (mset_of p) \<le> Suc 0"
  by (simp_all add: mset_of_def split: nullable.splits)

text \<open>The references that the layer keeps between operations.\<close>

definition kept :: "'w vfs \<Rightarrow> nat multiset" where
  "kept s = mset_of (t_cwd s) + mset_of (bootfs_vnode s)"

text \<open>
  The operations as commands. \<open>vfs_cmd\<close> gives the references that the caller of the operation has got: the
  vnode that a lookup or an open returns. \<open>given\<close> is the reference that \<open>vfs_close\<close> takes from its caller. A
  run is a sequence of operations whose callers close what they have and hold fewer than \<open>2\<^sup>2\<^sup>9\<close> references.
\<close>

datatype vcmd =
    Lookup "byte list" | Lookparent "byte list" nat | Open "byte list" nat | Close nat
  | Remove "byte list" | Mkdir "byte list" | Rmdir "byte list" | Symlink "byte list" "byte list"
  | Rename "byte list" "byte list" | Link "byte list" "byte list" | Readlink "byte list" uio
  | Getcurdir | Setcurdir nat | Clearcurdir | Chdir "byte list" | Getcwd uio
  | Setbootfs "byte list" | Clearbootfs | Sync

definition got :: "('a \<Rightarrow> nat multiset) \<Rightarrow> ((rc + 'a) \<times> 's) option \<Rightarrow> (nat multiset \<times> 's) option" where
  "got g m = do { (r, s) \<leftarrow> m; Some (case r of Inl _ \<Rightarrow> {#} | Inr x \<Rightarrow> g x, s) }"

fun vfs_cmd :: "'w vops \<Rightarrow> vcmd \<Rightarrow> 'w vfs \<Rightarrow> (nat multiset \<times> 'w vfs) option" where
  "vfs_cmd ops (Lookup path) s = got (\<lambda>v. {#v#}) (vfs_lookup ops path s)"
| "vfs_cmd ops (Lookparent path n) s = got (\<lambda>x. {#fst x#}) (vfs_lookparent ops path n s)"
| "vfs_cmd ops (Open path flags) s = got (\<lambda>v. {#v#}) (vfs_open ops path flags s)"
| "vfs_cmd ops (Close v) s = do { s \<leftarrow> vfs_close ops v s; Some ({#}, s) }"
| "vfs_cmd ops (Remove path) s = got (\<lambda>_. {#}) (vfs_remove ops path s)"
| "vfs_cmd ops (Mkdir path) s = got (\<lambda>_. {#}) (vfs_mkdir ops path s)"
| "vfs_cmd ops (Rmdir path) s = got (\<lambda>_. {#}) (vfs_rmdir ops path s)"
| "vfs_cmd ops (Symlink contents path) s = got (\<lambda>_. {#}) (vfs_symlink ops contents path s)"
| "vfs_cmd ops (Rename path path2) s = got (\<lambda>_. {#}) (vfs_rename ops path path2 s)"
| "vfs_cmd ops (Link path path2) s = got (\<lambda>_. {#}) (vfs_link ops path path2 s)"
| "vfs_cmd ops (Readlink path u) s = do { (_, _, s) \<leftarrow> vfs_readlink ops path u s; Some ({#}, s) }"
| "vfs_cmd ops Getcurdir s = got (\<lambda>v. {#v#}) (vfs_getcurdir ops s)"
| "vfs_cmd ops (Setcurdir v) s = got (\<lambda>_. {#}) (vfs_setcurdir ops v s)"
| "vfs_cmd ops Clearcurdir s = do { (_, s) \<leftarrow> vfs_clearcurdir ops s; Some ({#}, s) }"
| "vfs_cmd ops (Chdir path) s = got (\<lambda>_. {#}) (vfs_chdir ops path s)"
| "vfs_cmd ops (Getcwd u) s = do { (_, _, s) \<leftarrow> vfs_getcwd ops u s; Some ({#}, s) }"
| "vfs_cmd ops (Setbootfs name) s = got (\<lambda>_. {#}) (vfs_setbootfs ops name s)"
| "vfs_cmd ops Clearbootfs s = do { s \<leftarrow> vfs_clearbootfs ops s; Some ({#}, s) }"
| "vfs_cmd ops Sync s = do { (_, s) \<leftarrow> vfs_sync ops s; Some ({#}, s) }"

definition given :: "vcmd \<Rightarrow> nat multiset" where
  "given c = (case c of Close v \<Rightarrow> {#v#} | _ \<Rightarrow> {#})"

inductive vfs_run :: "'w vops \<Rightarrow> 'w vfs \<Rightarrow> nat multiset \<Rightarrow> 'w vfs \<Rightarrow> bool" for ops s0 where
  start: "vfs_run ops s0 {#} s0"
| step: "vfs_run ops s0 M s \<Longrightarrow> given c \<subseteq># M \<Longrightarrow> size M < 2 ^ 29 \<Longrightarrow> vfs_cmd ops c s = Some (N, s')
    \<Longrightarrow> vfs_run ops s0 (M - given c + N) s'"

definition balanced :: "bool \<Rightarrow> ('w \<Rightarrow> nat \<Rightarrow> int) \<Rightarrow> (nat \<Rightarrow> int) \<Rightarrow> nat multiset \<Rightarrow> 'w vfs \<Rightarrow> bool" where
  "balanced strict refs b M s \<longleftrightarrow> (\<forall>v. refs (world s) v = b v + int (count (kept s + M) v)
     \<or> \<not> strict \<and> b v = 0 \<and> refs (world s) v = int (count (kept s + M) v) + 1)"

locale vnode_layer =
  fixes ops :: "'w vops" and refs :: "'w \<Rightarrow> nat \<Rightarrow> int" and strict :: bool and good :: "'w \<Rightarrow> bool"
  assumes incref_law: "good w \<Longrightarrow> few_refs refs w \<Longrightarrow> v_incref ops v w = Some w' \<Longrightarrow> good w' \<and> refs w' = (refs w)(v := refs w v + 1)"
    and decref_law: "good w \<Longrightarrow> few_refs refs w \<Longrightarrow> v_decref ops v w = Some w' \<Longrightarrow>
      good w' \<and> (refs w' = (refs w)(v := refs w v - 1) \<or> \<not> strict \<and> refs w v = 1 \<and> refs w' = refs w)"
    and open_laws: "good w \<Longrightarrow> few_refs refs w \<Longrightarrow> v_incopen ops v w = Some w' \<Longrightarrow> good w' \<and> refs w' = refs w"
      "good w \<Longrightarrow> few_refs refs w \<Longrightarrow> v_decopen ops v w = Some w' \<Longrightarrow> good w' \<and> refs w' = refs w"
    and lookup_laws:
      "good w \<Longrightarrow> few_refs refs w \<Longrightarrow> gives (v_lookup ops v path w) (\<lambda>x w'. good w' \<and> grew strict refs w {#x#} w') (\<lambda>w'. good w' \<and> grew strict refs w {#} w')"
      "good w \<Longrightarrow> few_refs refs w \<Longrightarrow> gives (v_creat ops v path ex w) (\<lambda>x w'. good w' \<and> grew strict refs w {#x#} w') (\<lambda>w'. good w' \<and> grew strict refs w {#} w')"
      "good w \<Longrightarrow> few_refs refs w \<Longrightarrow> gives (v_lookparent ops v path n w) (\<lambda>x w'. good w' \<and> grew strict refs w {#fst x#} w') (\<lambda>w'. good w' \<and> grew strict refs w {#} w')"
    and getroot_law: "good w \<Longrightarrow> few_refs refs w \<Longrightarrow> f_getroot ops fs w = Some (x, w') \<Longrightarrow> good w' \<and> grew strict refs w {#x#} w'"
    and call_laws:
      "good w \<Longrightarrow> few_refs refs w \<Longrightarrow> gives (v_open ops v fl w) (\<lambda>_ w'. good w' \<and> grew strict refs w {#} w') (\<lambda>w'. good w' \<and> grew strict refs w {#} w')"
      "good w \<Longrightarrow> few_refs refs w \<Longrightarrow> gives (v_gettype ops v w) (\<lambda>_ w'. good w' \<and> grew strict refs w {#} w') (\<lambda>w'. good w' \<and> grew strict refs w {#} w')"
      "good w \<Longrightarrow> few_refs refs w \<Longrightarrow> gives (v_truncate ops v len w) (\<lambda>_ w'. good w' \<and> grew strict refs w {#} w') (\<lambda>w'. good w' \<and> grew strict refs w {#} w')"
      "good w \<Longrightarrow> few_refs refs w \<Longrightarrow> gives (v_symlink ops v path c w) (\<lambda>_ w'. good w' \<and> grew strict refs w {#} w') (\<lambda>w'. good w' \<and> grew strict refs w {#} w')"
      "good w \<Longrightarrow> few_refs refs w \<Longrightarrow> gives (v_mkdir ops v path w) (\<lambda>_ w'. good w' \<and> grew strict refs w {#} w') (\<lambda>w'. good w' \<and> grew strict refs w {#} w')"
      "good w \<Longrightarrow> few_refs refs w \<Longrightarrow> gives (v_link ops v path x w) (\<lambda>_ w'. good w' \<and> grew strict refs w {#} w') (\<lambda>w'. good w' \<and> grew strict refs w {#} w')"
      "good w \<Longrightarrow> few_refs refs w \<Longrightarrow> gives (v_remove ops v path w) (\<lambda>_ w'. good w' \<and> grew strict refs w {#} w') (\<lambda>w'. good w' \<and> grew strict refs w {#} w')"
      "good w \<Longrightarrow> few_refs refs w \<Longrightarrow> gives (v_rmdir ops v path w) (\<lambda>_ w'. good w' \<and> grew strict refs w {#} w') (\<lambda>w'. good w' \<and> grew strict refs w {#} w')"
      "good w \<Longrightarrow> few_refs refs w \<Longrightarrow> gives (v_rename ops v path x path2 w) (\<lambda>_ w'. good w' \<and> grew strict refs w {#} w') (\<lambda>w'. good w' \<and> grew strict refs w {#} w')"
    and uio_laws: "good w \<Longrightarrow> few_refs refs w \<Longrightarrow> v_namefile ops v u w = Some (r, u', w') \<Longrightarrow> good w' \<and> grew strict refs w {#} w'"
      "good w \<Longrightarrow> few_refs refs w \<Longrightarrow> v_readlink ops v u w = Some (r, u', w') \<Longrightarrow> good w' \<and> grew strict refs w {#} w'"
    and sync_law: "good w \<Longrightarrow> few_refs refs w \<Longrightarrow> f_sync ops fs w = Some (r, w') \<Longrightarrow> good w' \<and> grew strict refs w {#} w'"
begin

text \<open>The state with the references \<open>M\<close> held besides those the layer keeps.\<close>

definition holds :: "(nat \<Rightarrow> int) \<Rightarrow> nat multiset \<Rightarrow> 'w vfs \<Rightarrow> bool" where
  "holds b M s \<longleftrightarrow> good (world s) \<and> owed strict refs b (kept s + M) (world s)"

lemma incref_holds:
  assumes "holds b M s" and "size M \<le> 6" and "vdo (v_incref ops v) s = Some s'"
  shows "holds b (add_mset v M) s' \<and> t_cwd s' = t_cwd s \<and> bootfs_vnode s' = bootfs_vnode s"
proof -
  from assms(3) obtain w where w: "v_incref ops v (world s) = Some w" "s' = s\<lparr>world := w\<rparr>" by (auto simp: vdo_def split: Option.bind_splits)
  have o: "owed strict refs b (kept s + M) (world s)" "good (world s)" using assms(1) by (simp_all add: holds_def)
  from incref_law [OF o(2) owed_few [OF o(1)] w(1)] have g: "good w" "grew strict refs (world s) {#v#} w" by (auto simp: grew_def)
  have "size (mset_of (t_cwd s)) \<le> Suc 0" "size (mset_of (bootfs_vnode s)) \<le> Suc 0" by simp_all
  then have "size (kept s + M + {#v#}) \<le> 10" using assms(2) unfolding kept_def size_union by (simp del: mset_of_simps)
  from owed_grew [OF o(1) g(2) this] g(1) show ?thesis by (simp add: holds_def w(2) kept_def)
qed

lemma decref_owed:
  assumes "good w" and "owed strict refs b (add_mset v M) w" and "v_decref ops v w = Some w'"
  shows "good w' \<and> owed strict refs b M w'"
proof -
  have o: "0 \<le> b x" "b x + 16 < INT_MAX" "refs w x = b x + int (count (add_mset v M) x) \<or> \<not> strict \<and> b x = 0 \<and> refs w x = int (count (add_mset v M) x) + 1" for x
    using assms(2) by (auto simp: owed_def)
  from decref_law [OF assms(1) owed_few [OF assms(2)] assms(3)]
  have d: "good w'" "refs w' = (refs w)(v := refs w v - 1) \<or> \<not> strict \<and> refs w v = 1 \<and> refs w' = refs w" by blast+
  have "refs w' x = b x + int (count M x) \<or> \<not> strict \<and> b x = 0 \<and> refs w' x = int (count M x) + 1" for x
    using d(2) o [of x] by (cases "x = v") auto
  moreover have "size M \<le> 10" using assms(2) by (simp add: owed_def)
  ultimately show ?thesis using o d(1) by (auto simp: owed_def)
qed

lemma decref_holds:
  assumes "holds b (add_mset v M) s" and "vdo (v_decref ops v) s = Some s'"
  shows "holds b M s' \<and> t_cwd s' = t_cwd s \<and> bootfs_vnode s' = bootfs_vnode s"
proof -
  from assms(2) obtain w where w: "v_decref ops v (world s) = Some w" "s' = s\<lparr>world := w\<rparr>" by (auto simp: vdo_def split: Option.bind_splits)
  have "good (world s)" "owed strict refs b (add_mset v (kept s + M)) (world s)" using assms(1) by (simp_all add: holds_def)
  from decref_owed [OF this w(1)] show ?thesis by (simp add: holds_def w(2) kept_def)
qed

text \<open>A call through the tables that gives one reference for its result, or none.\<close>

lemma vcall_gives:
  assumes "holds b M s" and "size M \<le> 6"
    and "good (world s) \<Longrightarrow> few_refs refs (world s) \<Longrightarrow> gives (f (world s)) (\<lambda>x w'. good w' \<and> grew strict refs (world s) (N x) w') (\<lambda>w'. good w' \<and> grew strict refs (world s) {#} w')"
    and "\<And>x. size (N x) \<le> 1"
  shows "gives (vcall f s) (\<lambda>x. holds b (N x + M)) (holds b M)"
  unfolding vcall_def
proof (rule gives_bind)
  fix y assume y: "f (world s) = Some y"
  obtain r w' where rw: "y = (r, w')" by (cases y)
  have o: "owed strict refs b (kept s + M) (world s)" "good (world s)" using assms(1) by (simp_all add: holds_def)
  have k: "size (kept s) \<le> 2"
    using mset_of_simps(3) [of "t_cwd s"] mset_of_simps(3) [of "bootfs_vnode s"] unfolding kept_def size_union by linarith
  have step: "good w' \<Longrightarrow> grew strict refs (world s) X w' \<Longrightarrow> size X \<le> 1 \<Longrightarrow> holds b (X + M) (s\<lparr>world := w'\<rparr>)" for X
    using owed_grew [OF o(1), of X w'] k assms(2) by (simp add: holds_def kept_def add_ac)
  have g: "case r of Inl e \<Rightarrow> good w' \<and> grew strict refs (world s) {#} w' | Inr x \<Rightarrow> good w' \<and> grew strict refs (world s) (N x) w'"
    using assms(3) [OF o(2) owed_few [OF o(1)]] y rw by (simp add: gives_def)
  show "gives ((\<lambda>(r, w). Some (r, s\<lparr>world := w\<rparr>)) y) (\<lambda>x. holds b (N x + M)) (holds b M)"
    unfolding rw prod.case
  proof (rule gives_Some)
    fix e assume "r = Inl e"
    then show "holds b M (s\<lparr>world := w'\<rparr>)" using g step [of "{#}"] by simp
  next
    fix x assume "r = Inr x"
    then show "holds b (N x + M) (s\<lparr>world := w'\<rparr>)" using g step [of "N x"] assms(4) [of x] by simp
  qed
qed

lemma vcall_plain:
  assumes "holds b M s" and "size M \<le> 6"
    and "\<And>w. good w \<Longrightarrow> few_refs refs w \<Longrightarrow> gives (f w) (\<lambda>_ w'. good w' \<and> grew strict refs w {#} w') (\<lambda>w'. good w' \<and> grew strict refs w {#} w')"
  shows "gives (vcall f s) (\<lambda>_. holds b M) (holds b M)"
  using vcall_gives [OF assms(1,2), where f = f and N = "\<lambda>_. {#}"] assms(3) by simp

lemma vcall_one:
  assumes "holds b M s" and "size M \<le> 6"
    and "\<And>w. good w \<Longrightarrow> few_refs refs w \<Longrightarrow> gives (f w) (\<lambda>x w'. good w' \<and> grew strict refs w {#g x#} w') (\<lambda>w'. good w' \<and> grew strict refs w {#} w')"
  shows "gives (vcall f s) (\<lambda>x. holds b (add_mset (g x) M)) (holds b M)"
  using vcall_gives [OF assms(1,2), where f = f and N = "\<lambda>x. {#g x#}"] assms(3) by simp

lemma incref_gives:
  "holds b M s \<Longrightarrow> size M \<le> 6 \<Longrightarrow> (\<And>s'. holds b (add_mset v M) s' \<Longrightarrow> gives (f s') Q E) \<Longrightarrow> gives (Option.bind (vdo (v_incref ops v) s) f) Q E"
  by (rule gives_bind) (use incref_holds in blast)

lemma decref_gives:
  "holds b (add_mset v M) s \<Longrightarrow> (\<And>s'. holds b M s' \<Longrightarrow> gives (f s') Q E) \<Longrightarrow> gives (Option.bind (vdo (v_decref ops v) s) f) Q E"
  by (rule gives_bind) (use decref_holds in blast)

text \<open>The end of most operations: drop the directory and return what the call gave.\<close>

lemma drop_gives:
  assumes "gives m (\<lambda>x. holds b (add_mset v (N x))) (holds b (add_mset v M))"
  shows "gives (Option.bind m (\<lambda>(r, s). Option.bind (vdo (v_decref ops v) s) (\<lambda>s. Some (r, s)))) (\<lambda>x. holds b (N x)) (holds b M)"
proof (rule gives_bind)
  fix y assume y: "m = Some y"
  obtain r s where rs: "y = (r, s)" by (cases y)
  show "gives ((\<lambda>(r, s). Option.bind (vdo (v_decref ops v) s) (\<lambda>s. Some (r, s))) y) (\<lambda>x. holds b (N x)) (holds b M)"
  proof (cases r)
    case (Inl e)
    then have "holds b (add_mset v M) s" using assms y rs by (simp add: gives_def)
    then show ?thesis unfolding rs prod.case by (rule decref_gives) (auto intro: gives_Some simp: Inl)
  next
    case (Inr x)
    then have "holds b (add_mset v (N x)) s" using assms y rs by (simp add: gives_def)
    then show ?thesis unfolding rs prod.case by (rule decref_gives) (auto intro: gives_Some simp: Inr)
  qed
qed

text \<open>The operations, in the order in which they call each other.\<close>

lemma vfs_getcurdir_gives:
  assumes "holds b M s" and "size M \<le> 6"
  shows "gives (vfs_getcurdir ops s) (\<lambda>v. holds b (add_mset v M)) (holds b M)"
  using assms by (auto simp: vfs_getcurdir_def intro!: gives_kfail incref_gives gives_kret split: nullable.split)

lemma incref_grew: "good w \<Longrightarrow> few_refs refs w \<Longrightarrow> v_incref ops v w = Some w' \<Longrightarrow> good w' \<and> grew strict refs w {#v#} w'"
  using incref_law [of w v w'] by (simp add: grew_def)

lemma getroot_loop_gives:
  assumes "good w" and "few_refs refs w"
  shows "gives (getroot_loop ops devname kds w) (\<lambda>x w'. good w' \<and> grew strict refs w {#x#} w') (\<lambda>w'. good w' \<and> grew strict refs w {#} w')"
proof (induction kds)
  case Nil
  show ?case using assms(1) by (simp add: gives_def kfail_def grew_def)
next
  case (Cons kd kds)
  have stay: "good w \<and> grew strict refs w {#} w" using assms(1) by (simp add: grew_def)
  show ?case using Cons stay incref_grew [OF assms] getroot_law [OF assms]
    by (auto split: nullable.split intro!: gives_kfail gives_bind gives_kret)
qed

lemma vfs_getroot_gives:
  assumes "holds b M s" and "size M \<le> 6"
  shows "gives (vfs_getroot ops devname s) (\<lambda>v. holds b (add_mset v M)) (holds b M)"
  unfolding vfs_getroot_def by (rule vcall_one [OF assms, where g = "\<lambda>x. x"]) (rule getroot_loop_gives)

lemma getroot_gives:
  assumes "holds b M s" and "size M \<le> 6" and "\<And>root s'. holds b (add_mset root M) s' \<Longrightarrow> gives (f root s') Q E"
  shows "gives (Option.bind (f_getroot ops fs (world s)) (\<lambda>(root, w). f root (s\<lparr>world := w\<rparr>))) Q E"
proof (rule gives_bind)
  fix y assume y: "f_getroot ops fs (world s) = Some y"
  obtain root w where rw: "y = (root, w)" by (cases y)
  have "gives (vcall (\<lambda>w. Option.bind (f_getroot ops fs w) (\<lambda>(x, w). kret x w)) s) (\<lambda>x. holds b (add_mset x M)) (holds b M)"
    by (rule vcall_one [OF assms(1,2), where g = "\<lambda>x. x"]) (auto intro!: gives_bind gives_kret dest: getroot_law)
  then have "holds b (add_mset root M) (s\<lparr>world := w\<rparr>)" using y rw by (simp add: gives_def vcall_def kret_def)
  then show "gives ((\<lambda>(root, w). f root (s\<lparr>world := w\<rparr>)) y) Q E" using assms(3) rw by simp
qed

lemma getdevice_gives:
  assumes "holds b M s" and "size M \<le> 4"
  shows "gives (getdevice ops path s) (\<lambda>x. holds b (add_mset (snd x) M)) (holds b M)"
proof -
  have m: "size M \<le> 6" using assms(2) by simp
  obtain colon slash where cs: "first_sep 0 path = (colon, slash)" by (cases "first_sep 0 path")
  note cwd = gives_kbind [OF vfs_getcurdir_gives [OF assms(1) m]]
  consider (relative) "colon < 0" "slash \<noteq> 0" | (device) "\<not> (colon < 0 \<and> slash \<noteq> 0)" "colon > 0"
    | (root) "\<not> (colon < 0 \<and> slash \<noteq> 0)" "\<not> colon > 0" "hd path = 47" | (same) "\<not> (colon < 0 \<and> slash \<noteq> 0)" "\<not> colon > 0" "hd path \<noteq> 47"
    by blast
  then show ?thesis
  proof cases
    case relative
    then show ?thesis by (simp add: getdevice_def cs) (rule cwd, rule gives_kret, simp)
  next
    case device
    then show ?thesis by (simp add: getdevice_def cs) (rule gives_kbind [OF vfs_getroot_gives [OF assms(1) m]], rule gives_kret, simp)
  next
    case root
    have "gives (case bootfs_vnode s of NULL \<Rightarrow> kfail ENOENT s
          | Ptr v \<Rightarrow> do { s \<leftarrow> vdo (v_incref ops v) s; kret (skip_slashes (tl path), v) s }) (\<lambda>x. holds b (add_mset (snd x) M)) (holds b M)"
      by (cases "bootfs_vnode s") (simp_all add: gives_kfail assms(1) incref_gives [OF assms(1) m] gives_kret)
    then show ?thesis using root by (auto simp: getdevice_def cs kassert_def gives_None)
  next
    case same
    have drop: "holds b (add_mset vn M) s1 \<Longrightarrow> gives (Option.bind (f_getroot ops fs (world s1)) (\<lambda>(root, w). Option.bind (vdo (v_decref ops vn) (s1\<lparr>world := w\<rparr>)) (kret (skip_slashes (tl path), root)))) (\<lambda>x. holds b (add_mset (snd x) M)) (holds b M)" for vn s1 fs
      by (rule getroot_gives, assumption) (use assms(2) in \<open>auto intro!: decref_gives gives_kret simp: add_mset_commute\<close>)
    have "gives (kbind (vfs_getcurdir ops s) (\<lambda>vn s. do {
           fs \<leftarrow> (case v_fs ops vn (world s) of NULL \<Rightarrow> None | Ptr fs \<Rightarrow> Some fs);
           (root, w) \<leftarrow> f_getroot ops fs (world s);
           s \<leftarrow> vdo (v_decref ops vn) (s\<lparr>world := w\<rparr>);
           kret (skip_slashes (tl path), root) s })) (\<lambda>x. holds b (add_mset (snd x) M)) (holds b M)"
      by (rule cwd, rule gives_bind, rule drop)
    then show ?thesis using same by (auto simp: getdevice_def cs kassert_def gives_None)
  qed
qed

lemma vfs_lookparent_gives:
  assumes "holds b M s" and "size M \<le> 4"
  shows "gives (vfs_lookparent ops path n s) (\<lambda>x. holds b (add_mset (fst x) M)) (holds b M)"
  unfolding vfs_lookparent_def
proof (rule gives_kbind [OF getdevice_gives [OF assms]], goal_cases device)
  case (device x s1)
  have "gives (vcall (v_lookparent ops (snd x) (fst x) n) s1) (\<lambda>y. holds b (add_mset (fst y) (add_mset (snd x) M))) (holds b (add_mset (snd x) M))"
    by (rule vcall_one [OF device]) (use assms(2) lookup_laws(3) in simp_all)
  then have "gives (if length (fst x) = 0 then kfail EINVAL s1 else vcall (v_lookparent ops (snd x) (fst x) n) s1)
     (\<lambda>y. holds b (add_mset (snd x) (add_mset (fst y) M))) (holds b (add_mset (snd x) M))"
    using device by (simp add: add_mset_commute gives_kfail)
  from drop_gives [OF this] show ?case by (simp add: case_prod_beta)
qed

lemma vfs_lookup_gives:
  assumes "holds b M s" and "size M \<le> 4"
  shows "gives (vfs_lookup ops path s) (\<lambda>v. holds b (add_mset v M)) (holds b M)"
  unfolding vfs_lookup_def
proof (rule gives_kbind [OF getdevice_gives [OF assms]], goal_cases device)
  case (device x s1)
  have "gives (vcall (v_lookup ops (snd x) (fst x)) s1) (\<lambda>y. holds b (add_mset y (add_mset (snd x) M))) (holds b (add_mset (snd x) M))"
    by (rule vcall_one [OF device]) (use assms(2) lookup_laws(1) in simp_all)
  then have "gives (vcall (v_lookup ops (snd x) (fst x)) s1) (\<lambda>y. holds b (add_mset (snd x) (add_mset y M))) (holds b (add_mset (snd x) M))"
    by (simp add: add_mset_commute)
  from drop_gives [OF this] show ?case using device by (simp add: case_prod_beta gives_kret)
qed

lemma drop_old_holds:
  assumes "holds b (mset_of old + M) s" and "drop_old ops old s = Some s'"
  shows "holds b M s'"
  using assms decref_holds by (cases old) (auto simp: drop_old_def)

lemma new_cwd: "holds b (mset_of new + M) s \<Longrightarrow> holds b (mset_of (t_cwd s) + M) (s\<lparr>t_cwd := new\<rparr>)"
  by (simp add: holds_def kept_def add_ac)

lemma new_bootfs: "holds b (mset_of new + M) s \<Longrightarrow> holds b (mset_of (bootfs_vnode s) + M) (s\<lparr>bootfs_vnode := new\<rparr>)"
  by (simp add: holds_def kept_def add_ac)

lemma vfs_setcurdir_gives:
  assumes "holds b M s" and "size M \<le> 6"
  shows "gives (vfs_setcurdir ops dir s) (\<lambda>_. holds b M) (holds b M)"
  unfolding vfs_setcurdir_def
proof (rule gives_kbind [OF vcall_plain [OF assms call_laws(2)]], assumption, assumption, goal_cases gettype)
  case (gettype vtype s1)
  have "gives (do { s \<leftarrow> vdo (v_incref ops dir) s1; s \<leftarrow> drop_old ops (t_cwd s) (s\<lparr>t_cwd := Ptr dir\<rparr>); kret () s }) (\<lambda>_. holds b M) (holds b M)"
  proof (rule incref_gives [OF gettype assms(2)], rule gives_bind, rule gives_kret)
    fix s2 s3 assume "holds b (add_mset dir M) s2" and d: "drop_old ops (t_cwd s2) (s2\<lparr>t_cwd := Ptr dir\<rparr>) = Some s3"
    then have "holds b (mset_of (t_cwd s2) + M) (s2\<lparr>t_cwd := Ptr dir\<rparr>)" by (intro new_cwd) simp
    from drop_old_holds [OF this d] show "holds b M s3" .
  qed
  then show ?case using gettype by (simp add: gives_kfail)
qed

lemma vfs_clearcurdir_holds: "holds b M s \<Longrightarrow> vfs_clearcurdir ops s = Some (r, s') \<Longrightarrow> holds b M s'"
  using new_cwd [where new = NULL] drop_old_holds by (fastforce simp: vfs_clearcurdir_def split: Option.bind_splits)

lemma vfs_chdir_gives:
  assumes "holds b M s" and "size M \<le> 4"
  shows "gives (vfs_chdir ops path s) (\<lambda>_. holds b M) (holds b M)"
  unfolding vfs_chdir_def
proof (rule gives_kbind [OF vfs_lookup_gives [OF assms]], rule drop_gives)
  fix v s1 assume "holds b (add_mset v M) s1"
  then show "gives (vfs_setcurdir ops v s1) (\<lambda>_. holds b (add_mset v M)) (holds b (add_mset v M))"
    by (rule vfs_setcurdir_gives) (use assms(2) in simp)
qed

lemma change_bootfs_holds: "holds b (mset_of new + M) s \<Longrightarrow> change_bootfs ops new s = Some s' \<Longrightarrow> holds b M s'"
  unfolding change_bootfs_def by (rule drop_old_holds [OF new_bootfs])

lemma vfs_setbootfs_gives:
  assumes "holds b M s" and "size M \<le> 4"
  shows "gives (vfs_setbootfs ops fsname s) (\<lambda>_. holds b M) (holds b M)"
proof -
  have "gives (kbind (vfs_chdir ops tmp s) (\<lambda>_ s. kbind (vfs_getcurdir ops s) (\<lambda>newguy s. do { s \<leftarrow> change_bootfs ops (Ptr newguy) s; kret () s })))
     (\<lambda>_. holds b M) (holds b M)" for tmp
  proof (rule gives_kbind [OF vfs_chdir_gives [OF assms]], rule gives_kbind [OF vfs_getcurdir_gives], assumption)
    show "size M \<le> 6" using assms(2) by simp
    fix v s1 assume "holds b (add_mset v M) s1"
    then show "gives (do { s \<leftarrow> change_bootfs ops (Ptr v) s1; kret () s }) (\<lambda>_. holds b M) (holds b M)"
      using change_bootfs_holds [of b "Ptr v" M s1] by (auto intro!: gives_bind gives_kret)
  qed
  then show ?thesis using assms(1) by (simp add: vfs_setbootfs_def Let_def gives_kfail)
qed

lemma on_parent_gives:
  assumes "holds b M s" and "size M \<le> 4"
    and "\<And>dir name w. good w \<Longrightarrow> few_refs refs w \<Longrightarrow> gives (f dir name w) (\<lambda>_ w'. good w' \<and> grew strict refs w {#} w') (\<lambda>w'. good w' \<and> grew strict refs w {#} w')"
  shows "gives (on_parent ops path f s) (\<lambda>_. holds b M) (holds b M)"
  unfolding on_parent_def
proof (rule gives_kbind [OF vfs_lookparent_gives [OF assms(1,2)]], goal_cases parent)
  case (parent x s1)
  have "gives (vcall (f (fst x) (snd x)) s1) (\<lambda>_. holds b (add_mset (fst x) M)) (holds b (add_mset (fst x) M))"
    by (rule vcall_plain [OF parent]) (use assms(2,3) in auto)
  from drop_gives [OF this] show ?case by (simp add: case_prod_beta)
qed

lemma on_both_gives:
  assumes "holds b (add_mset new (add_mset old M)) s" and "size M \<le> 4"
    and "\<And>w. good w \<Longrightarrow> few_refs refs w \<Longrightarrow> gives (f w) (\<lambda>_ w'. good w' \<and> grew strict refs w {#} w') (\<lambda>w'. good w' \<and> grew strict refs w {#} w')"
  shows "gives (on_both ops old new f s) (\<lambda>_. holds b M) (holds b M)"
proof -
  let ?m = "if \<not> one_fs ops old new (world s) then kfail EXDEV s else vcall f s"
  have "gives (vcall f s) (\<lambda>_. holds b (add_mset new (add_mset old M))) (holds b (add_mset new (add_mset old M)))"
    by (rule vcall_plain [OF assms(1)]) (use assms(2,3) in auto)
  then have "gives ?m (\<lambda>_. holds b (add_mset new (add_mset old M))) (holds b (add_mset new (add_mset old M)))"
    using assms(1) by (simp add: gives_kfail)
  from drop_gives [OF drop_gives [OF this]] show ?thesis
    by (simp add: on_both_def case_prod_beta split_def)
qed

text \<open>The second name of \<open>vfs_rename\<close> and \<open>vfs_link\<close>, with the vnode of the first one in hand.\<close>

lemma second_name_gives:
  assumes "holds b (add_mset old M) s" and "size M \<le> 3"
    and "\<And>dir name w. good w \<Longrightarrow> few_refs refs w \<Longrightarrow> gives (f dir name w) (\<lambda>_ w'. good w' \<and> grew strict refs w {#} w') (\<lambda>w'. good w' \<and> grew strict refs w {#} w')"
  shows "gives (do {
       (r, s) \<leftarrow> vfs_lookparent ops path 256 s;
       case r of
         Inl e \<Rightarrow> do { s \<leftarrow> vdo (v_decref ops old) s; kfail e s }
       | Inr (newdir, newname) \<Rightarrow> on_both ops old newdir (f newdir newname) s
     }) (\<lambda>_. holds b M) (holds b M)"
proof (rule gives_bind, goal_cases parent)
  case (parent y)
  obtain r s1 where y: "y = (r, s1)" by (cases y)
  have "gives (vfs_lookparent ops path 256 s) (\<lambda>x. holds b (add_mset (fst x) (add_mset old M))) (holds b (add_mset old M))"
    by (rule vfs_lookparent_gives [OF assms(1)]) (use assms(2) in simp)
  then have h: "case r of Inl e \<Rightarrow> holds b (add_mset old M) s1 | Inr x \<Rightarrow> holds b (add_mset (fst x) (add_mset old M)) s1"
    using parent y by (simp add: gives_def)
  show ?case
  proof (cases r)
    case (Inl e)
    then show ?thesis using h y by (auto intro!: decref_gives [where M = M] gives_kfail)
  next
    case (Inr x)
    then show ?thesis using h y on_both_gives [of b "fst x" old M s1 "f (fst x) (snd x)"] assms(2,3) by (simp add: case_prod_beta)
  qed
qed

lemma vfs_rename_gives:
  assumes "holds b M s" and "size M \<le> 3"
  shows "gives (vfs_rename ops oldpath newpath s) (\<lambda>_. holds b M) (holds b M)"
  unfolding vfs_rename_def
proof (rule gives_kbind [OF vfs_lookparent_gives [OF assms(1)]], goal_cases room first)
  case (first x s1)
  then show ?case using second_name_gives [OF first assms(2), of "\<lambda>d n. v_rename ops (fst x) (snd x) d n"] call_laws(9)
    by (simp add: case_prod_beta)
qed (use assms(2) in simp)

lemma vfs_link_gives:
  assumes "holds b M s" and "size M \<le> 3"
  shows "gives (vfs_link ops oldpath newpath s) (\<lambda>_. holds b M) (holds b M)"
  unfolding vfs_link_def
proof (rule gives_kbind [OF vfs_lookup_gives [OF assms(1)]], goal_cases room first)
  case (first x s1)
  then show ?case using second_name_gives [OF first assms(2), of "\<lambda>d n. v_link ops d n x"] call_laws(6) by simp
qed (use assms(2) in simp)

lemma decopen_holds:
  assumes "holds b M s" and "vdo (v_decopen ops v) s = Some s'"
  shows "holds b M s'"
proof -
  from assms(2) obtain w where w: "v_decopen ops v (world s) = Some w" "s' = s\<lparr>world := w\<rparr>" by (auto simp: vdo_def split: Option.bind_splits)
  have o: "owed strict refs b (kept s + M) (world s)" "good (world s)" using assms(1) by (simp_all add: holds_def)
  from open_laws(2) [OF o(2) owed_few [OF o(1)] w(1)] show ?thesis using o(1) by (simp add: holds_def w(2) kept_def owed_def)
qed

lemma incopen_holds:
  assumes "holds b M s" and "vdo (v_incopen ops v) s = Some s'"
  shows "holds b M s'"
proof -
  from assms(2) obtain w where w: "v_incopen ops v (world s) = Some w" "s' = s\<lparr>world := w\<rparr>" by (auto simp: vdo_def split: Option.bind_splits)
  have o: "owed strict refs b (kept s + M) (world s)" "good (world s)" using assms(1) by (simp_all add: holds_def)
  from open_laws(1) [OF o(2) owed_few [OF o(1)] w(1)] show ?thesis using o(1) by (simp add: holds_def w(2) kept_def owed_def)
qed

lemma vfs_close_holds:
  assumes "holds b (add_mset vn M) s" and "vfs_close ops vn s = Some s'"
  shows "holds b M s'"
  using assms(2) decopen_holds [OF assms(1)] decref_holds [of b vn M] by (auto simp: vfs_close_def split: Option.bind_splits)

text \<open>The first half of \<open>vfs_open\<close> finds or makes the file; the second opens it and may cut it to length 0.\<close>

lemma open_find_gives:
  assumes "holds b M s" and "size M \<le> 3"
  shows "gives (if c then
                    kbind (vfs_lookparent ops path 256 s) (\<lambda>(dir, name) s. do {
                      (result, s) \<leftarrow> vcall (v_creat ops dir name x) s;
                      s \<leftarrow> vdo (v_decref ops dir) s;
                      Some (result, s)
                    })
                  else vfs_lookup ops path s) (\<lambda>v. holds b (add_mset v M)) (holds b M)"
proof (cases c)
  case True
  have "gives (kbind (vfs_lookparent ops path 256 s) (\<lambda>(dir, name) s. do {
                      (result, s) \<leftarrow> vcall (v_creat ops dir name x) s;
                      s \<leftarrow> vdo (v_decref ops dir) s;
                      Some (result, s)
                    })) (\<lambda>v. holds b (add_mset v M)) (holds b M)"
  proof (rule gives_kbind [OF vfs_lookparent_gives [OF assms(1)]], goal_cases room parent)
    case (parent y s1)
    have "gives (vcall (v_creat ops (fst y) (snd y) x) s1) (\<lambda>v. holds b (add_mset v (add_mset (fst y) M))) (holds b (add_mset (fst y) M))"
      by (rule vcall_one [OF parent]) (use assms(2) lookup_laws(2) in simp_all)
    then have "gives (vcall (v_creat ops (fst y) (snd y) x) s1) (\<lambda>v. holds b (add_mset (fst y) (add_mset v M))) (holds b (add_mset (fst y) M))"
      by (simp add: add_mset_commute)
    from drop_gives [OF this] show ?case by (simp add: case_prod_beta)
  qed (use assms(2) in simp)
  then show ?thesis using True by simp
next
  case False
  then show ?thesis using vfs_lookup_gives [OF assms(1)] assms(2) by simp
qed

lemma open_cut_gives:
  assumes "holds b (add_mset vn M) s" and "size M \<le> 3"
  shows "gives (if c then do {
                   (result, s) \<leftarrow> (if how = (0 :: nat) then kfail EINVAL s else vcall (v_truncate ops vn 0) s);
                   case result of
                     Inl e \<Rightarrow> do { s \<leftarrow> vdo (v_decopen ops vn) s; s \<leftarrow> vdo (v_decref ops vn) s; kfail e s }
                   | Inr _ \<Rightarrow> kret vn s
                 }
                 else kret vn s) (\<lambda>v. holds b (add_mset v M)) (holds b M)"
proof (cases c)
  case True
  have "gives (vcall (v_truncate ops vn 0) s) (\<lambda>_. holds b (add_mset vn M)) (holds b (add_mset vn M))"
    by (rule vcall_plain [OF assms(1)]) (use assms(2) call_laws(3) in simp_all)
  then have cut: "gives (if how = (0 :: nat) then kfail EINVAL s else vcall (v_truncate ops vn 0) s) (\<lambda>_. holds b (add_mset vn M)) (holds b (add_mset vn M))"
    using assms(1) by (simp add: gives_kfail)
  have fail: "holds b (add_mset vn M) s1 \<Longrightarrow> gives (do { s \<leftarrow> vdo (v_decopen ops vn) s1; s \<leftarrow> vdo (v_decref ops vn) s; kfail e s }) (\<lambda>v. holds b (add_mset v M)) (holds b M)" for s1 e
    by (rule gives_bind, rule decref_gives) (auto intro: decopen_holds gives_kfail)
  show ?thesis unfolding if_P [OF True] by (rule gives_result [OF cut]) (simp_all add: gives_kret fail)
qed (use assms in \<open>simp add: gives_kret\<close>)

lemma vfs_open_gives:
  assumes "holds b M s" and "size M \<le> 3"
  shows "gives (vfs_open ops path openflags s) (\<lambda>v. holds b (add_mset v M)) (holds b M)"
proof (cases "openflags AND 3 \<noteq> 0 \<and> openflags AND 3 \<noteq> 1 \<and> openflags AND 3 \<noteq> 2")
  case True
  then show ?thesis using assms(1) by (simp add: vfs_open_def Let_def gives_kfail)
next
  case False
  show ?thesis unfolding vfs_open_def Let_def if_not_P [OF False]
  proof (rule gives_kbind [OF open_find_gives [OF assms]], goal_cases found)
    case (found vn s1)
    have "gives (vcall (v_open ops vn openflags) s1) (\<lambda>_. holds b (add_mset vn M)) (holds b (add_mset vn M))"
      by (rule vcall_plain [OF found]) (use assms(2) call_laws(1) in simp_all)
    then show ?case
      by (rule gives_result)
        (auto simp del: One_nat_def intro!: decref_gives [where M = M] gives_kfail intro: gives_bind open_cut_gives [OF incopen_holds assms(2)])
  qed
qed

lemma world_holds:
  assumes "holds b M s" and "good (world s) \<Longrightarrow> few_refs refs (world s) \<Longrightarrow> good w \<and> grew strict refs (world s) {#} w"
  shows "holds b M (s\<lparr>world := w\<rparr>)"
proof -
  have o: "owed strict refs b (kept s + M) (world s)" "good (world s)" using assms(1) by (simp_all add: holds_def)
  then have "size (kept s + M + {#}) \<le> 10" by (simp add: owed_def)
  with owed_grew [OF o(1), of "{#}" w] assms(2) [OF o(2) owed_few [OF o(1)]] show ?thesis by (simp add: holds_def kept_def)
qed

lemma vfs_readlink_holds:
  assumes "holds b M s" and "size M \<le> 4" and "vfs_readlink ops path u s = Some (r, u', s')"
  shows "holds b M s'"
proof -
  from assms(3) obtain q s1 where q: "vfs_lookup ops path s = Some (q, s1)" by (auto simp: vfs_readlink_def split: Option.bind_splits)
  with vfs_lookup_gives [OF assms(1,2), of path] have h: "case q of Inl e \<Rightarrow> holds b M s1 | Inr v \<Rightarrow> holds b (add_mset v M) s1"
    by (simp add: gives_def)
  show ?thesis
  proof (cases q)
    case (Inl e)
    then show ?thesis using h assms(3) q by (simp add: vfs_readlink_def)
  next
    case (Inr v)
    with assms(3) q obtain w where w: "v_readlink ops v u (world s1) = Some (r, u', w)" "vdo (v_decref ops v) (s1\<lparr>world := w\<rparr>) = Some s'"
      by (auto simp: vfs_readlink_def split: Option.bind_splits)
    have "holds b (add_mset v M) (s1\<lparr>world := w\<rparr>)" by (rule world_holds) (use h Inr uio_laws(2) [OF _ _ w(1)] in auto)
    from decref_holds [OF this w(2)] show ?thesis by simp
  qed
qed

lemma sync_loop_holds: "holds b M s \<Longrightarrow> sync_loop ops kds (world s) = Some w \<Longrightarrow> holds b M (s\<lparr>world := w\<rparr>)"
proof (induction kds arbitrary: s)
  case (Cons kd kds)
  show ?case
  proof (cases "kd_fs kd")
    case (Ptr fs)
    with Cons.prems(2) obtain r w1 where w1: "f_sync ops fs (world s) = Some (r, w1)" "sync_loop ops kds w1 = Some w"
      by (auto split: Option.bind_splits)
    have "holds b M (s\<lparr>world := w1\<rparr>)" by (rule world_holds [OF Cons.prems(1)]) (use sync_law [OF _ _ w1(1)] in blast)
    from Cons.IH [OF this] w1(2) show ?thesis by simp
  qed (use Cons in simp)
qed (auto simp: holds_def kept_def)

lemma vfs_getcwd_holds:
  assumes "holds b M s" and "size M \<le> 4" and "vfs_getcwd ops u s = Some (r, u', s')"
  shows "holds b M s'"
proof -
  from assms(3) obtain q s1 where q: "vfs_getcurdir ops s = Some (q, s1)" by (auto simp: vfs_getcwd_def split: Option.bind_splits)
  with vfs_getcurdir_gives [OF assms(1)] assms(2) have h: "case q of Inl e \<Rightarrow> holds b M s1 | Inr v \<Rightarrow> holds b (add_mset v M) s1"
    by (simp add: gives_def)
  show ?thesis
  proof (cases q)
    case (Inl e)
    then show ?thesis using h assms(3) q by (auto simp: vfs_getcwd_def split: Option.bind_splits)
  next
    case (Inr v)
    with h have h: "holds b (add_mset v M) s1" by simp
    have name: "v_namefile ops v x (world s1) = Some (y, z, w) \<Longrightarrow> holds b (add_mset v M) (s1\<lparr>world := w\<rparr>)" for x y z w
      by (rule world_holds [OF h]) (use uio_laws(1) in blast)
    from Inr assms(3) q obtain s2 where s2: "vdo (v_decref ops v) s2 = Some s'" "s2 = s1 \<or> (\<exists>x y z w. v_namefile ops v x (world s1) = Some (y, z, w) \<and> s2 = s1\<lparr>world := w\<rparr>)"
      unfolding vfs_getcwd_def by (fastforce simp: kassert_def split: Option.bind_splits if_splits)
    then have "holds b (add_mset v M) s2" using h name by blast
    from decref_holds [OF this s2(1)] show ?thesis by simp
  qed
qed

text \<open>Every operation, with the references given to it and those it gives.\<close>

lemma got_holds:
  assumes "gives m (\<lambda>x. holds b (g x)) (holds b {#})" and "got g m = Some (N, s')"
  shows "holds b N s'"
  using assms unfolding got_def gives_def by (fastforce split: Option.bind_splits sum.splits)

lemma vfs_cmd_holds:
  assumes "holds b (given c) s" and "vfs_cmd ops c s = Some (N, s')"
  shows "holds b N s'"
proof (cases c)
  case (Close v)
  with assms vfs_close_holds [of b v "{#}" s] show ?thesis by (auto simp: given_def split: Option.bind_splits)
next
  case Sync
  with assms sync_loop_holds [of b "{#}" s] show ?thesis by (auto simp: given_def vfs_sync_def vdo_def split: Option.bind_splits)
next
  case Clearbootfs
  with assms change_bootfs_holds [of b NULL "{#}" s] show ?thesis by (auto simp: given_def vfs_clearbootfs_def split: Option.bind_splits)
next
  case Clearcurdir
  with assms vfs_clearcurdir_holds [of b "{#}" s] show ?thesis by (auto simp: given_def split: Option.bind_splits)
next
  case (Readlink path u)
  with assms vfs_readlink_holds [of b "{#}" s] show ?thesis by (auto simp: given_def split: Option.bind_splits)
next
  case (Getcwd u)
  with assms vfs_getcwd_holds [of b "{#}" s] show ?thesis by (auto simp: given_def split: Option.bind_splits)
next
  case (Lookup path)
  with assms show ?thesis by (auto simp: given_def intro: got_holds [OF vfs_lookup_gives])
next
  case (Lookparent path n)
  with assms show ?thesis by (auto simp: given_def intro: got_holds [OF vfs_lookparent_gives])
next
  case (Open path flags)
  with assms show ?thesis by (auto simp: given_def intro: got_holds [OF vfs_open_gives])
next
  case Getcurdir
  with assms show ?thesis by (auto simp: given_def intro: got_holds [OF vfs_getcurdir_gives])
next
  case (Remove path)
  with assms show ?thesis using on_parent_gives [of b "{#}" s "v_remove ops" path] call_laws(7)
    by (auto simp: given_def vfs_remove_def intro: got_holds)
next
  case (Mkdir path)
  with assms show ?thesis using on_parent_gives [of b "{#}" s "v_mkdir ops" path] call_laws(5)
    by (auto simp: given_def vfs_mkdir_def intro: got_holds)
next
  case (Rmdir path)
  with assms show ?thesis using on_parent_gives [of b "{#}" s "v_rmdir ops" path] call_laws(8)
    by (auto simp: given_def vfs_rmdir_def intro: got_holds)
next
  case (Symlink contents path)
  with assms show ?thesis using on_parent_gives [of b "{#}" s "\<lambda>dir name. v_symlink ops dir name contents" path] call_laws(4)
    by (auto simp: given_def vfs_symlink_def intro: got_holds)
next
  case (Rename path path2)
  with assms show ?thesis by (auto simp: given_def intro: got_holds [OF vfs_rename_gives])
next
  case (Link path path2)
  with assms show ?thesis by (auto simp: given_def intro: got_holds [OF vfs_link_gives])
next
  case (Setcurdir v)
  with assms show ?thesis by (auto simp: given_def intro: got_holds [OF vfs_setcurdir_gives])
next
  case (Chdir path)
  with assms show ?thesis by (auto simp: given_def intro: got_holds [OF vfs_chdir_gives])
next
  case (Setbootfs name)
  with assms show ?thesis by (auto simp: given_def intro: got_holds [OF vfs_setbootfs_gives])
qed

text \<open>The base of a single operation is whatever the counts are apart from its own references.\<close>

lemma cmd_balanced:
  assumes bal: "balanced strict refs b M s" and g: "good (world s)" and base: "\<And>v. 0 \<le> b v \<and> b v < 2 ^ 30"
    and M: "given c \<subseteq># M" "size M < 2 ^ 29" and cmd: "vfs_cmd ops c s = Some (N, s')"
  shows "balanced strict refs b (M - given c + N) s' \<and> good (world s')"
proof -
  let ?b = "\<lambda>v. refs (world s) v - int (count (kept s + given c) v)"
  have cnt: "count (given c) v \<le> count M v" "count M v < 2 ^ 29" "count (kept s) v \<le> 2" for v
    using M mset_subset_eq_count [OF M(1)] count_le_size [of M v] count_le_size [of "kept s" v]
      mset_of_simps(3) [of "t_cwd s"] mset_of_simps(3) [of "bootfs_vnode s"] by (auto simp: kept_def simp del: mset_of_simps)
  have refs: "refs (world s) v = b v + int (count (kept s) v + count M v) \<or> \<not> strict \<and> b v = 0 \<and> refs (world s) v = int (count (kept s) v + count M v) + 1" for v
    using bal by (auto simp: balanced_def)
  have sz: "size (given c) \<le> 1" by (auto simp: given_def split: vcmd.split)
  have "0 \<le> ?b v \<and> ?b v + 16 < INT_MAX" for v
    using refs [of v] cnt [of v] base [of v] by (auto simp: INT_MAX_def)
  moreover have "size (kept s + given c) \<le> 10"
    using sz mset_of_simps(3) [of "t_cwd s"] mset_of_simps(3) [of "bootfs_vnode s"] by (auto simp: kept_def simp del: mset_of_simps)
  ultimately have "holds ?b (given c) s" using g by (auto simp: holds_def owed_def)
  from vfs_cmd_holds [OF this cmd] have new: "good (world s')" "refs (world s') v = ?b v + int (count (kept s' + N) v) \<or> \<not> strict \<and> ?b v = 0 \<and> refs (world s') v = int (count (kept s' + N) v) + 1" for v
    by (auto simp: holds_def owed_def)
  have "refs (world s') v = b v + int (count (kept s' + (M - given c + N)) v)
     \<or> \<not> strict \<and> b v = 0 \<and> refs (world s') v = int (count (kept s' + (M - given c + N)) v) + 1" for v
    using new(2) [of v] refs [of v] cnt [of v] base [of v] by auto
  then show ?thesis using new(1) by (simp add: balanced_def)
qed

lemma run_balanced:
  assumes "vfs_run ops s0 M s" and "good (world s0)" and "balanced strict refs b {#} s0" and "\<And>v. 0 \<le> b v \<and> b v < 2 ^ 30"
  shows "balanced strict refs b M s \<and> good (world s)"
  using assms(1)
proof induction
  case start
  show ?case using assms by blast
next
  case (step M s c N s')
  then show ?case using cmd_balanced [of b M s c N s'] assms(4) by blast
qed

end

end
