(* ===== verification/Sysvfs.thy ===== *)
theory Sysvfs
  imports Kvfs_Refs Sfs
begin

unbundle bit_operations_syntax

text \<open>
  The VFS layer over the two kinds of vnodes of the kernel: those of a mounted SFS volume and those of devices.
  \<open>sys_ops\<close> is the dispatch through \<open>vn_ops\<close>: the tables \<open>sfs_fileops\<close> and \<open>sfs_dirops\<close> of \<open>sfs_vnode.c\<close> and
  \<open>dev_vnode_ops\<close> of \<open>device.c\<close>. The lemmas show how the operations of SFS change the reference counts, which
  is what the layer relies on.
\<close>

section \<open>The tables\<close>

text \<open>A vnode of a device, with the routines of the device for opening and closing.\<close>

record dev_vnode = "unit vnode" +
  dv_dev :: Kvfs.device
  dv_open :: "nat \<Rightarrow> rc"
  dv_close :: rc

text \<open>\<open>dev_close\<close> and \<open>dev_reclaim\<close>; \<open>dev_create_vnode\<close> with its address and the allocation of the lock,
  whose failure is a panic.\<close>

definition dev_close :: "dev_vnode \<Rightarrow> rc" where
  "dev_close dv = dv_close dv"

definition dev_reclaim :: rc where "dev_reclaim = OK"

record 'd sysw =
  sw_fsaddr :: nat
  sw_fs :: "'d sfs_fs"
  sw_dev :: "nat \<Rightarrow> dev_vnode option"

definition dev_create_vnode :: "nat nullable \<Rightarrow> bool \<Rightarrow> Kvfs.device \<Rightarrow> (nat \<Rightarrow> rc) \<Rightarrow> rc \<Rightarrow> 'd sysw \<Rightarrow> (nat nullable \<times> 'd sysw) option" where
  "dev_create_vnode mem lock_ok dev dopen dclose w =
     (case mem of
        NULL \<Rightarrow> Some (NULL, w)
      | Ptr a \<Rightarrow>
          (let (result, dv) = vnode_init lock_ok ()
             \<lparr>vn_refcount = 0, vn_opencount = 0, vn_countlock = False, vn_ops = NULL, dv_dev = dev, dv_open = dopen, dv_close = dclose\<rparr>
           in if result \<noteq> OK then None else Some (Ptr a, w\<lparr>sw_dev := (sw_dev w)(a \<mapsto> dv)\<rparr>)))"

text \<open>A call with an error code, and calls into SFS and to devices.\<close>

definition code :: "rc \<Rightarrow> 's \<Rightarrow> ('s, unit) kres" where
  "code r s = (if r = OK then kret () s else kfail r s)"

definition to_fs :: "('d sfs_fs \<Rightarrow> 'd sfs_fs option) \<Rightarrow> 'd sysw \<Rightarrow> 'd sysw option" where
  "to_fs f w = do { s \<leftarrow> f (sw_fs w); Some (w\<lparr>sw_fs := s\<rparr>) }"

definition call_fs :: "('d sfs_fs \<Rightarrow> ('d sfs_fs, 'a) kres) \<Rightarrow> 'd sysw \<Rightarrow> ('d sysw, 'a) kres" where
  "call_fs f w = do { (r, s) \<leftarrow> f (sw_fs w); Some (r, w\<lparr>sw_fs := s\<rparr>) }"

definition dispatch :: "(dev_vnode \<Rightarrow> ('d sysw, 'a) kres) \<Rightarrow> ('d sfs_fs \<Rightarrow> ('d sfs_fs, 'a) kres) \<Rightarrow> nat \<Rightarrow> 'd sysw \<Rightarrow> ('d sysw, 'a) kres" where
  "dispatch dev fs a w = (case sw_dev w a of Some dv \<Rightarrow> do { _ \<leftarrow> vnode_check False dv; dev dv } | None \<Rightarrow> call_fs fs w)"

definition DEV_INCREF :: "nat \<Rightarrow> dev_vnode \<Rightarrow> 'd sysw \<Rightarrow> 'd sysw option" where
  "DEV_INCREF a dv w = do { dv \<leftarrow> vnode_incref dv; Some (w\<lparr>sw_dev := (sw_dev w)(a \<mapsto> dv)\<rparr>) }"

definition DEV_DECREF :: "nat \<Rightarrow> dev_vnode \<Rightarrow> 'd sysw \<Rightarrow> 'd sysw option" where
  "DEV_DECREF a dv w = do {
     (dv, last) \<leftarrow> vnode_decref_count dv;
     if last then do { _ \<leftarrow> vnode_check True dv; let _ = dev_reclaim; Some w }
     else Some (w\<lparr>sw_dev := (sw_dev w)(a \<mapsto> dv)\<rparr>)
   }"

definition DEV_INCOPEN :: "nat \<Rightarrow> dev_vnode \<Rightarrow> 'd sysw \<Rightarrow> 'd sysw option" where
  "DEV_INCOPEN a dv w = do { dv \<leftarrow> vnode_incopen dv; Some (w\<lparr>sw_dev := (sw_dev w)(a \<mapsto> dv)\<rparr>) }"

definition DEV_DECOPEN :: "nat \<Rightarrow> dev_vnode \<Rightarrow> 'd sysw \<Rightarrow> 'd sysw option" where
  "DEV_DECOPEN a dv w = do {
     (dv, last) \<leftarrow> vnode_decopen_count dv;
     let w = w\<lparr>sw_dev := (sw_dev w)(a \<mapsto> dv)\<rparr>;
     if last then do { _ \<leftarrow> vnode_check False dv; let _ = dev_close dv; Some w } else Some w
   }"

text \<open>The entries of the two SFS tables that only return an error.\<close>

definition by_table :: "rc \<Rightarrow> rc \<Rightarrow> nat \<Rightarrow> 'd sfs_fs \<Rightarrow> ('d sfs_fs, 'a) kres" where
  "by_table file dir a s = vop (\<lambda>ops. case ops of sfs_fileops \<Rightarrow> kfail file s | sfs_dirops \<Rightarrow> kfail dir s) a s"

definition VOP_GETTYPE :: "nat \<Rightarrow> 'd sfs_fs \<Rightarrow> ('d sfs_fs, nat) kres" where
  "VOP_GETTYPE a s = vop (\<lambda>_. do { t \<leftarrow> sfs_gettype a s; kret t s }) a s"

definition VOP_NAMEFILE :: "nat \<Rightarrow> 'd sfs_fs \<Rightarrow> rc option" where
  "VOP_NAMEFILE a s = vop (\<lambda>ops. case ops of sfs_fileops \<Rightarrow> Some ENOTDIR | sfs_dirops \<Rightarrow> sfs_namefile a s) a s"

definition VOP_READLINK :: "nat \<Rightarrow> 'd sfs_fs \<Rightarrow> rc option" where
  "VOP_READLINK a s = vop (\<lambda>ops. Some (case ops of sfs_fileops \<Rightarrow> ENOTDIR | sfs_dirops \<Rightarrow> EISDIR)) a s"

definition sys_uio :: "rc \<Rightarrow> ('d sfs_fs \<Rightarrow> rc option) \<Rightarrow> nat \<Rightarrow> uio \<Rightarrow> 'd sysw \<Rightarrow> (rc \<times> uio \<times> 'd sysw) option" where
  "sys_uio dev fs a u w =
     (case sw_dev w a of
        Some dv \<Rightarrow> do { _ \<leftarrow> vnode_check False dv; Some (dev, u, w) }
      | None \<Rightarrow> do { r \<leftarrow> fs (sw_fs w); Some (r, u, w) })"

definition sys_count :: "(nat \<Rightarrow> dev_vnode \<Rightarrow> 'd sysw \<Rightarrow> 'd sysw option) \<Rightarrow> (nat \<Rightarrow> 'd sfs_fs \<Rightarrow> 'd sfs_fs option) \<Rightarrow> nat \<Rightarrow> 'd sysw \<Rightarrow> 'd sysw option" where
  "sys_count dev fs a w = (case sw_dev w a of Some dv \<Rightarrow> dev a dv w | None \<Rightarrow> to_fs (fs a) w)"

text \<open>The answers of the allocator are an argument: a function of the state.\<close>

definition sys_ops :: "('d sysw \<Rightarrow> load_mem) \<Rightarrow> 'd sysw vops" where
  "sys_ops alloc = \<lparr>
     v_incref = sys_count DEV_INCREF VOP_INCREF,
     v_decref = sys_count DEV_DECREF VOP_DECREF,
     v_incopen = sys_count DEV_INCOPEN VOP_INCOPEN,
     v_decopen = sys_count DEV_DECOPEN VOP_DECOPEN,
     v_open = \<lambda>a flags w. dispatch (\<lambda>dv. code (dev_open (dv_open dv) flags) w) (\<lambda>s. do { r \<leftarrow> VOP_OPEN a flags s; code r s }) a w,
     v_gettype = \<lambda>a w. dispatch (\<lambda>dv. kret (dev_gettype (dv_dev dv)) w) (VOP_GETTYPE a) a w,
     v_truncate = \<lambda>a len w. dispatch (\<lambda>dv. code (dev_truncate (dv_dev dv) len) w) (VOP_TRUNCATE a len) a w,
     v_namefile = \<lambda>a u w. sys_uio dev_namefile (VOP_NAMEFILE a) a u w,
     v_readlink = \<lambda>a u w. sys_uio null_io (VOP_READLINK a) a u w,
     v_creat = \<lambda>a name excl w. dispatch (\<lambda>_. kfail null_creat w) (\<lambda>s. VOP_CREAT (alloc w) a name excl s) a w,
     v_symlink = \<lambda>a name contents w. dispatch (\<lambda>_. kfail null_symlink w) (by_table ENOTDIR EUNIMP a) a w,
     v_mkdir = \<lambda>a name w. dispatch (\<lambda>_. kfail null_nameop w) (by_table ENOTDIR EUNIMP a) a w,
     v_link = \<lambda>a name file w. dispatch (\<lambda>_. kfail null_link w) (VOP_LINK a name file) a w,
     v_remove = \<lambda>a name w. dispatch (\<lambda>_. kfail null_nameop w) (\<lambda>s. VOP_REMOVE (alloc w) a name s) a w,
     v_rmdir = \<lambda>a name w. dispatch (\<lambda>_. kfail null_nameop w) (by_table ENOTDIR EUNIMP a) a w,
     v_rename = \<lambda>a name a2 name2 w. dispatch (\<lambda>_. kfail null_rename w) (\<lambda>s. VOP_RENAME (alloc w) a name a2 name2 s) a w,
     v_lookup = \<lambda>a path w. dispatch (\<lambda>dv. dev_lookup (DEV_INCREF a dv) a path w) (\<lambda>s. VOP_LOOKUP (alloc w) a path s) a w,
     v_lookparent = \<lambda>a path n w. dispatch (\<lambda>_. kfail dev_lookparent w) (VOP_LOOKPARENT a path n) a w,
     v_fs = \<lambda>a w. (case sw_dev w a of Some _ \<Rightarrow> NULL | None \<Rightarrow> Ptr (sw_fsaddr w)),
     f_sync = \<lambda>fs w. do { kassert (fs = sw_fsaddr w); (r, w) \<leftarrow> call_fs sfs_sync w; Some (case r of Inl e \<Rightarrow> e | Inr _ \<Rightarrow> OK, w) },
     f_getvolname = \<lambda>fs w. Ptr (takeWhile (\<lambda>c. c \<noteq> 0) (sfs_getvolname (sw_fs w))),
     f_getroot = \<lambda>fs w. do { kassert (fs = sw_fsaddr w); (a, s) \<leftarrow> sfs_getroot (alloc w) (sw_fs w); Some (a, w\<lparr>sw_fs := s\<rparr>) },
     f_unmount = \<lambda>fs w. do { kassert (fs = sw_fsaddr w); r \<leftarrow> sfs_unmount (sw_fs w); Some (case r of Inl e \<Rightarrow> e | Inr _ \<Rightarrow> OK, w) }\<rparr>"

section \<open>The routines of SFS that leave the counts alone\<close>

definition counts :: "'d sfs_fs \<Rightarrow> nat \<Rightarrow> int option" where
  "counts s = (\<lambda>a. map_option vn_refcount (vn_store s a))"

text \<open>\<open>frame p c m\<close>: whatever the call \<open>m\<close> returns, \<open>p\<close> of its last state is \<open>c\<close>.\<close>

definition frame :: "('s \<Rightarrow> 'c) \<Rightarrow> 'c \<Rightarrow> ('r \<times> 's) option \<Rightarrow> bool" where
  "frame p c m \<longleftrightarrow> (\<forall>r s. m = Some (r, s) \<longrightarrow> p s = c)"

lemma frame_kbind: "frame p c m \<Longrightarrow> (\<And>x s. p s = c \<Longrightarrow> frame p c (f x s)) \<Longrightarrow> frame p c (kbind m f)"
  unfolding frame_def kbind_Some by blast

lemma frame_kret: "p s = c \<Longrightarrow> frame p c (kret x s)"
  by (simp add: frame_def kret_def)

lemma frame_kfail: "p s = c \<Longrightarrow> frame p c (kfail e s)"
  by (simp add: frame_def kfail_def)

lemma frame_Some: "p s = c \<Longrightarrow> frame p c (Some (r, s))"
  by (simp add: frame_def)

lemma frame_None: "frame p c None"
  by (simp add: frame_def)

lemma frame_read: "(\<And>x. m = Some x \<Longrightarrow> frame p c (f x)) \<Longrightarrow> frame p c (Option.bind m f)"
  by (auto simp: frame_def split: Option.bind_splits)

lemma frame_call: "frame p c m \<Longrightarrow> (\<And>r s. p s = c \<Longrightarrow> frame p c (f r s)) \<Longrightarrow> frame p c (Option.bind m (\<lambda>(r, s). f r s))"
  by (fastforce simp: frame_def split: Option.bind_splits)

lemma frame_call3:
  "frame q c m \<Longrightarrow> (\<And>r u s. q (u, s) = c \<Longrightarrow> frame p c (f r u s)) \<Longrightarrow> frame p c (Option.bind m (\<lambda>(r, u, s). f r u s))"
  by (fastforce simp: frame_def split: Option.bind_splits)

lemmas frame_rules = frame_kret frame_kfail frame_Some frame_None

lemma counts_set_vn: "counts s a = Some (vn_refcount sv) \<Longrightarrow> counts (set_vn a sv s) = counts s"
  by (auto simp: counts_def set_vn_def)

lemma counts_set_vn' [simp]: "vn_store s a = Some sv0 \<Longrightarrow> vn_refcount sv = vn_refcount sv0 \<Longrightarrow> counts (set_vn a sv s) = counts s"
  by (auto simp: counts_def set_vn_def)

lemma counts_store [simp]: "vn_store s a = Some sv \<Longrightarrow> counts s a = Some (vn_refcount sv)"
  by (simp add: counts_def)

lemma counts_fields [simp]:
  "counts (s\<lparr>sfs_device := d\<rparr>) = counts s" "counts (s\<lparr>sfs_freemap := fm\<rparr>) = counts s" "counts (s\<lparr>sfs_freemapdirty := b\<rparr>) = counts s"
  "counts (s\<lparr>sfs_superdirty := b\<rparr>) = counts s" "counts (s\<lparr>sfs_vnodes := vs\<rparr>) = counts s"
  by (simp_all add: counts_def)

lemma rwblock_frame: "counts s = c \<Longrightarrow> frame (counts \<circ> snd) c (sfs_rwblock_from tries u s)"
proof (induction tries u s rule: sfs_rwblock_from.induct)
  case (1 tries u s)
  show ?case
    by (subst sfs_rwblock_from.simps) (rule frame_read, use 1 in \<open>auto simp: Let_def o_def intro!: frame_rules\<close>)
qed

lemma rblock_frame: "counts s = c \<Longrightarrow> frame counts c (sfs_rblock blk s)"
  unfolding sfs_rblock_def sfs_rwblock_def
  by (rule frame_call3 [OF rwblock_frame]) (auto intro: frame_rules)

lemma wblock_frame: "counts s = c \<Longrightarrow> frame counts c (sfs_wblock bs blk s)"
  unfolding sfs_wblock_def sfs_rwblock_def
  by (rule frame_call3 [OF rwblock_frame]) (auto intro: frame_rules)

lemma sync_inode_frame: "counts s = c \<Longrightarrow> frame counts c (sfs_sync_inode a s)"
  unfolding sfs_sync_inode_def
  by (rule frame_read) (auto intro!: frame_kbind wblock_frame frame_rules simp: counts_set_vn)

lemma balloc_frame: "counts s = c \<Longrightarrow> frame counts c (sfs_balloc s)"
  unfolding sfs_balloc_def sfs_clearblock_def
  by (rule frame_read) (auto intro!: frame_kbind wblock_frame frame_rules frame_read simp: Let_def split: sum.split)

lemma bfree_counts: "sfs_bfree blk s = Some s' \<Longrightarrow> counts s' = counts s"
  by (auto simp: sfs_bfree_def split: Option.bind_splits)

lemma bmap_result_frame: "counts s = c \<Longrightarrow> frame counts c (bmap_result blk s)"
  by (auto simp: bmap_result_def intro!: frame_rules frame_read)

lemma bmap_frame: "counts s = c \<Longrightarrow> frame counts c (sfs_bmap a fb al s)"
  unfolding sfs_bmap_def bmap_direct_def bmap_indirect_def bmap_idblock_def
  by (auto simp: Let_def counts_set_vn intro!: frame_read frame_kbind balloc_frame rblock_frame wblock_frame bmap_result_frame frame_rules)

lemma on_fs_frame: "frame counts c m \<Longrightarrow> frame (counts \<circ> snd) c (on_fs u m)"
  by (auto simp: frame_def on_fs_def)

lemma partialio_frame: "counts s = c \<Longrightarrow> frame (counts \<circ> snd) c (sfs_partialio a u skip len s)"
  unfolding sfs_partialio_def partialio_at_def Let_def
  by (rule frame_read, rule frame_kbind)
    (auto intro!: on_fs_frame bmap_frame frame_kbind frame_read rblock_frame wblock_frame frame_rules)

lemma blockio_frame: "counts s = c \<Longrightarrow> frame (counts \<circ> snd) c (sfs_blockio a u s)"
  unfolding sfs_blockio_def
proof (rule frame_kbind [OF on_fs_frame [OF bmap_frame]], assumption)
  fix blk and us :: "uio \<times> 'a sfs_fs" assume us: "(counts \<circ> snd) us = c"
  obtain u s where s: "us = (u, s)" by (cases us)
  have w: "frame (counts \<circ> snd) c (sfs_rwblock u' s)" for u' using rwblock_frame us s by (simp add: sfs_rwblock_def)
  show "frame (counts \<circ> snd) c ((\<lambda>(u, s). blockio_at blk u s) us)"
  proof (cases "blk = 0")
    case True
    then show ?thesis using us s by (auto simp: blockio_at_def intro!: frame_read frame_rules)
  next
    case False
    then show ?thesis unfolding s prod.case blockio_at_def Let_def if_not_P [OF False]
      by (intro frame_read [of "kassert _"] frame_call3 [OF w]) (auto intro: frame_rules)
  qed
qed

lemma io_blocks_frame: "counts s = c \<Longrightarrow> frame (counts \<circ> snd) c (sfs_io_blocks n a u s)"
  by (induction n arbitrary: u s) (auto intro!: frame_kbind blockio_frame frame_rules)

lemma io_tail_frame: "counts s = c \<Longrightarrow> frame (counts \<circ> snd) c (sfs_io_tail a u s)"
  unfolding sfs_io_tail_def by (auto intro!: frame_read frame_kbind io_blocks_frame partialio_frame frame_rules)

lemma io_body_frame: "counts s = c \<Longrightarrow> frame (counts \<circ> snd) c (sfs_io_body a u s)"
  unfolding sfs_io_body_def Let_def by (auto intro!: frame_kbind partialio_frame io_tail_frame)

lemma io_out_frame: "counts s = c \<Longrightarrow> frame (counts \<circ> snd) c (sfs_io_out a x r u s)"
  unfolding sfs_io_out_def Let_def by (auto intro!: frame_read frame_Some)

lemma io_frame: "counts s = c \<Longrightarrow> frame (counts \<circ> snd) c (sfs_io a u s)"
  unfolding sfs_io_def Let_def
  by (rule frame_read) (auto intro!: frame_rules frame_read [of "kassert _"] frame_call3 [OF io_body_frame] io_out_frame)

lemma readdir_frame: "counts s = c \<Longrightarrow> frame counts c (sfs_readdir a slot s)"
  unfolding sfs_readdir_def Let_def by (rule frame_call3 [OF io_frame]) (auto intro!: frame_rules frame_read split: sum.split)

lemma writedir_frame: "counts s = c \<Longrightarrow> frame counts c (sfs_writedir a sd slot s)"
  unfolding sfs_writedir_def Let_def by (rule frame_call3 [OF io_frame]) (auto intro!: frame_rules frame_read split: sum.split)

lemma findname_loop_frame: "counts s = c \<Longrightarrow> frame counts c (findname_loop n i a name found e s)"
  by (induction n arbitrary: i found e s) (auto intro!: frame_kbind readdir_frame frame_rules frame_read)

lemma findname_frame: "counts s = c \<Longrightarrow> frame counts c (sfs_dir_findname a name s)"
  unfolding sfs_dir_findname_def by (auto intro!: frame_read findname_loop_frame)

lemma dir_link_frame: "counts s = c \<Longrightarrow> frame counts c (sfs_dir_link a name ino s)"
  unfolding sfs_dir_link_def Let_def
  by (auto intro!: frame_kbind findname_frame frame_rules frame_read writedir_frame split: prod.split)

lemma dir_unlink_frame: "counts s = c \<Longrightarrow> frame counts c (sfs_dir_unlink a slot s)"
  unfolding sfs_dir_unlink_def by (rule writedir_frame)

lemma add_link_counts: "add_link a k s = Some s' \<Longrightarrow> counts s' = counts s"
  by (auto simp: add_link_def counts_set_vn split: Option.bind_splits)

lemma trunc_direct_counts: "trunc_direct bl i blks s = Some (d, dirty, s') \<Longrightarrow> counts s' = counts s"
  by (induction blks arbitrary: i s d dirty s') (auto split: if_splits Option.bind_splits dest!: bfree_counts)

lemma trunc_indirect_counts: "trunc_indirect bl i blks s = Some (d, nz, dirty, s') \<Longrightarrow> counts s' = counts s"
  by (induction blks arbitrary: i s d nz dirty s') (auto split: if_splits Option.bind_splits dest!: bfree_counts)

lemma trunc_idblock_frame: "counts s = c \<Longrightarrow> frame counts c (trunc_idblock a bl s)"
  unfolding trunc_idblock_def Let_def
  by (auto intro!: frame_read frame_kbind rblock_frame frame_rules wblock_frame simp: counts_set_vn dest!: trunc_indirect_counts bfree_counts)

lemma truncate_frame: "counts s = c \<Longrightarrow> frame counts c (sfs_truncate a len s)"
  unfolding sfs_truncate_def Let_def
  by (auto intro!: frame_read frame_kbind trunc_idblock_frame frame_rules simp: counts_set_vn dest!: trunc_direct_counts)

lemma VOP_TRUNCATE_frame: "counts s = c \<Longrightarrow> frame counts c (VOP_TRUNCATE a len s)"
  unfolding VOP_TRUNCATE_def by (auto intro!: frame_read truncate_frame frame_rules split: sfs_ops.split)

section \<open>The routines of SFS that take and drop references\<close>

definition ref :: "(nat \<Rightarrow> int option) \<Rightarrow> nat \<Rightarrow> int" where
  "ref c v = (case c v of None \<Rightarrow> 0 | Some n \<Rightarrow> n)"

text \<open>The counts are in range and the address that the allocator gives is not in use.\<close>

definition okc :: "load_mem \<Rightarrow> (nat \<Rightarrow> int option) \<Rightarrow> bool" where
  "okc lm c \<longleftrightarrow> c (lm_addr lm) = None \<and> (\<forall>v n. c v = Some n \<longrightarrow> 0 \<le> n \<and> n + 2 < INT_MAX)"

definition sgrew :: "load_mem \<Rightarrow> (nat \<Rightarrow> int option) \<Rightarrow> nat multiset \<Rightarrow> (nat \<Rightarrow> int option) \<Rightarrow> bool" where
  "sgrew lm c M c' \<longleftrightarrow> grew False ref c M c' \<and> dom c' \<subseteq> insert (lm_addr lm) (dom c) \<and> set_mset M \<subseteq> dom c'"

definition loaded :: "load_mem \<Rightarrow> (nat \<Rightarrow> int option) \<Rightarrow> nat \<Rightarrow> (nat \<Rightarrow> int option) \<Rightarrow> bool" where
  "loaded lm c v c' \<longleftrightarrow> (\<exists>n. c v = Some n \<and> c' = c(v \<mapsto> n + 1)) \<or> v = lm_addr lm \<and> c v = None \<and> c' = c(v \<mapsto> 1)"

lemma sgrew_same: "sgrew lm c {#} c"
  by (auto simp: sgrew_def grew_def)

lemma sgrew_loaded: "loaded lm c v c' \<Longrightarrow> sgrew lm c {#v#} c'"
  by (auto simp: sgrew_def grew_def loaded_def ref_def split: option.splits if_splits)

lemma gives_frame: "frame counts c m \<Longrightarrow> gives m (\<lambda>_ s. counts s = c) (\<lambda>s. counts s = c)"
  by (auto simp: frame_def gives_def split: sum.split)

lemma incref_counts: "VOP_INCREF a s = Some s' \<Longrightarrow> okc lm (counts s) \<Longrightarrow> loaded lm (counts s) a (counts s')"
proof -
  assume i: "VOP_INCREF a s = Some s'" and c: "okc lm (counts s)"
  then obtain sv where sv: "vn_store s a = Some sv" "s' = set_vn a (sv\<lparr>vn_refcount := s32 (vn_refcount sv + 1)\<rparr>) s"
    by (auto simp: VOP_INCREF_def vnode_incref_def kassert_def split: Option.bind_splits if_splits)
  have "0 \<le> vn_refcount sv \<and> vn_refcount sv + 2 < INT_MAX" using c sv(1) unfolding okc_def by (metis counts_store)
  then have "s32 (vn_refcount sv + 1) = vn_refcount sv + 1" by (intro s32_id) (auto simp: INT_MAX_def)
  then show ?thesis using sv by (auto simp: loaded_def counts_def set_vn_def)
qed

lemma counts_remove: "counts (s\<lparr>sfs_vnodes := vs, vn_store := (vn_store s)(a := None)\<rparr>) = (counts s)(a := None)"
  by (auto simp: counts_def)

lemma reclaim_counts:
  assumes "vn_store s a = Some sv" and "vn_refcount sv = 1"
  shows "gives (sfs_reclaim a s) (\<lambda>_ s'. counts s' = (counts s)(a := None)) (\<lambda>s'. counts s' = counts s)"
proof -
  have last: "gives (do {
         sv \<leftarrow> vn_store s1 a;
         s \<leftarrow> (if sfi_linkcount (sv_i sv) = 0 then sfs_bfree (sv_ino sv) s1 else Some s1);
         r \<leftarrow> table_index (nat (array_getnum (sfs_vnodes s))) 0 a s;
         ix \<leftarrow> r;
         vs \<leftarrow> array_remove (sfs_vnodes s) (int ix);
         _ \<leftarrow> vnode_kill sv;
         kret () (s\<lparr>sfs_vnodes := vs, vn_store := (vn_store s)(a := None)\<rparr>)
       }) (\<lambda>_ s'. counts s' = (counts s)(a := None)) (\<lambda>s'. counts s' = counts s)" if "counts s1 = counts s" for s1
    using that by (auto intro!: gives_bind gives_kret simp: counts_remove split: if_splits dest!: bfree_counts)
  have cut: "gives (if sfi_linkcount (sv_i sv) = 0 then VOP_TRUNCATE a 0 s else kret () s) (\<lambda>_ s'. counts s' = counts s) (\<lambda>s'. counts s' = counts s)"
    by (simp add: gives_frame VOP_TRUNCATE_frame gives_kret)
  show ?thesis unfolding sfs_reclaim_def assms(1) bind.bind_lunit if_not_P [OF not_not [THEN iffD2, OF assms(2)]]
    by (rule gives_kbind [OF cut], rule gives_kbind [OF gives_frame [OF sync_inode_frame]], assumption, rule last)
qed

lemma decref_counts:
  assumes "VOP_DECREF a s = Some s'"
  shows "\<exists>n. counts s a = Some n \<and> n > 0 \<and> (if n > 1 then counts s' = (counts s)(a \<mapsto> n - 1) else counts s' = (counts s)(a := None) \<or> counts s' = counts s)"
proof -
  from assms obtain sv where sv: "vn_store s a = Some sv" "vn_refcount sv > 0"
    by (auto simp: VOP_DECREF_def vnode_decref_count_def kassert_def split: Option.bind_splits if_splits)
  show ?thesis
  proof (cases "vn_refcount sv = 1")
    case False
    then have "counts s' = (counts s)(a \<mapsto> vn_refcount sv - 1)"
      using assms sv by (auto simp: VOP_DECREF_def vnode_decref_count_def kassert_def counts_def set_vn_def split: Option.bind_splits if_splits)
    then show ?thesis using sv False by (intro exI [of _ "vn_refcount sv"]) auto
  next
    case True
    from assms sv True obtain r where r: "sfs_reclaim a s = Some (r, s')"
      by (auto simp: VOP_DECREF_def vnode_decref_count_def kassert_def split: Option.bind_splits if_splits)
    then have "counts s' = (counts s)(a := None) \<or> counts s' = counts s"
      using reclaim_counts [OF sv(1) True] by (cases r) (auto simp: gives_def)
    then show ?thesis using sv True by (intro exI [of _ "vn_refcount sv"]) auto
  qed
qed

text \<open>A reference that was taken by a lookup and is dropped again.\<close>

lemma drop_loaded:
  assumes "VOP_DECREF a s = Some s'" and l: "loaded lm c a c1" and c1: "counts s = c1" and "okc lm c"
  shows "sgrew lm c {#} (counts s')"
proof -
  from decref_counts [OF assms(1)] obtain n where n: "counts s a = Some n" "n > 0"
    "if n > 1 then counts s' = (counts s)(a \<mapsto> n - 1) else counts s' = (counts s)(a := None) \<or> counts s' = counts s" by blast
  show ?thesis
  proof (cases "c a")
    case None
    then have "counts s = c(a \<mapsto> 1)" "a = lm_addr lm" using l c1 by (auto simp: loaded_def)
    then show ?thesis using n None by (auto simp: sgrew_def grew_def ref_def split: if_splits option.split)
  next
    case (Some k)
    then have "counts s = c(a \<mapsto> k + 1)" "0 \<le> k" using l c1 assms(4) by (auto simp: loaded_def okc_def)
    then show ?thesis using n Some by (auto simp: sgrew_def grew_def ref_def split: if_splits option.split)
  qed
qed

lemma load_search_known: "load_search n i ino s = Some (Some a) \<Longrightarrow> vn_store s a \<noteq> None"
  by (induction n arbitrary: i) (auto split: Option.bind_splits if_splits)

lemma new_loaded:
  "counts s = c \<Longrightarrow> okc lm c \<Longrightarrow> vn_refcount sv = 1 \<Longrightarrow> loaded lm c (lm_addr lm) (counts (set_vn (lm_addr lm) sv (s\<lparr>sfs_vnodes := vs\<rparr>)))"
  by (auto simp: loaded_def counts_def set_vn_def okc_def)

lemma load_new_gives:
  assumes "counts s = c" and "okc lm c"
  shows "gives (load_new lm ino ft s) (\<lambda>v s'. loaded lm c v (counts s')) (\<lambda>s'. counts s' = c)"
  using assms unfolding load_new_def
  by (auto simp: Let_def vnode_init_def intro!: gives_kfail gives_bind gives_kbind [OF gives_frame [OF rblock_frame]] gives_kret new_loaded split: prod.split)

lemma loadvnode_gives:
  assumes "counts s = c" and "okc lm c"
  shows "gives (sfs_loadvnode lm ino ft s) (\<lambda>v s'. loaded lm c v (counts s')) (\<lambda>s'. counts s' = c)"
  unfolding sfs_loadvnode_def
  using assms load_new_gives [OF assms] incref_counts by (auto intro!: gives_bind gives_kret split: option.split)

lemma lookonce_gives:
  assumes "counts s = c" and "okc lm c"
  shows "gives (sfs_lookonce lm a name s) (\<lambda>x s'. loaded lm c (fst x) (counts s')) (\<lambda>s'. counts s' = c)"
  unfolding sfs_lookonce_def
proof (rule gives_kbind [OF gives_frame [OF findname_frame]], rule assms, goal_cases found)
  case (found x s1)
  then show ?case using assms(2)
    by (auto simp: case_prod_beta intro!: gives_kfail gives_kbind [OF loadvnode_gives] gives_bind gives_kret split: option.split)
qed

lemma makeobj_gives:
  assumes "counts s = c" and "okc lm c"
  shows "gives (sfs_makeobj lm ty s) (\<lambda>v s'. loaded lm c v (counts s')) (\<lambda>s'. counts s' = c)"
  unfolding sfs_makeobj_def
  by (rule gives_kbind [OF gives_frame [OF balloc_frame]], rule assms, rule loadvnode_gives, assumption, rule assms)

text \<open>The operations of the tables.\<close>

lemma gives_sgrew: "gives m (\<lambda>v s'. loaded lm c (f v) (counts s')) (\<lambda>s'. counts s' = c)
    \<Longrightarrow> gives m (\<lambda>v s'. sgrew lm c {#f v#} (counts s')) (\<lambda>s'. sgrew lm c {#} (counts s'))"
  by (erule gives_mono) (auto simp: sgrew_loaded sgrew_same)

lemma frame_sgrew: "frame counts c m \<Longrightarrow> gives m (\<lambda>_ s'. sgrew lm c {#} (counts s')) (\<lambda>s'. sgrew lm c {#} (counts s'))"
  by (drule gives_frame, erule gives_mono) (auto simp: sgrew_same)

lemma vop_gives: "(\<And>ops. gives (f ops) Q E) \<Longrightarrow> gives (vop f a s) Q E"
  unfolding vop_def by (auto intro: gives_bind)

lemma gives_kbind': "gives m Q E0 \<Longrightarrow> (\<And>s. E0 s \<Longrightarrow> E s) \<Longrightarrow> (\<And>x s. Q x s \<Longrightarrow> gives (f x s) Q' E) \<Longrightarrow> gives (kbind m f) Q' E"
  by (rule gives_kbind [OF gives_mono [of m Q E0 Q E]]) auto

lemma creat_gives:
  assumes "counts s = c" and "okc lm c"
  shows "gives (sfs_creat lm a name excl s) (\<lambda>v s'. sgrew lm c {#v#} (counts s')) (\<lambda>s'. sgrew lm c {#} (counts s'))"
  unfolding sfs_creat_def
proof (rule gives_kbind' [OF gives_frame [OF findname_frame [OF assms(1)]]], goal_cases fail found)
  case (found x s1)
  have new: "gives (do {
             sv \<leftarrow> vn_store s2 v;
             (result, s) \<leftarrow> sfs_dir_link a name (sv_ino sv) s2;
             case result of
               Inl e \<Rightarrow> do { s \<leftarrow> VOP_DECREF v s; kfail e s }
             | Inr _ \<Rightarrow> do { s \<leftarrow> add_link v 1 s; kret v s }
           }) (\<lambda>v s'. sgrew lm c {#v#} (counts s')) (\<lambda>s'. sgrew lm c {#} (counts s'))" if l: "loaded lm c v (counts s2)" for v s2
  proof (rule gives_bind, rule gives_result [OF gives_frame [OF dir_link_frame [OF refl]]], goal_cases)
    case (1 sv e s3)
    then show ?case using l assms(2) by (auto intro!: gives_bind gives_kfail intro: drop_loaded)
  next
    case (2 sv slot s3)
    then show ?case using l sgrew_loaded add_link_counts by (fastforce intro!: gives_bind gives_kret)
  qed
  show ?case
  proof (cases "fst x")
    case None
    then show ?thesis by (simp add: case_prod_beta, intro gives_kbind' [OF makeobj_gives [OF found assms(2)]]) (auto simp: sgrew_same new)
  next
    case (Some y)
    then show ?thesis using found gives_sgrew [OF loadvnode_gives [OF found assms(2)]] by (simp add: case_prod_beta gives_kfail sgrew_same)
  qed
qed (simp add: sgrew_same)

lemma remove_gives:
  assumes "counts s = c" and "okc lm c"
  shows "gives (sfs_remove lm dir name s) (\<lambda>_ s'. sgrew lm c {#} (counts s')) (\<lambda>s'. sgrew lm c {#} (counts s'))"
  unfolding sfs_remove_def
proof (rule gives_kbind' [OF lookonce_gives [OF assms]], goal_cases fail found)
  case (found x s1)
  have "frame counts (counts s1) (sfs_dir_unlink dir (snd x) s1)" by (rule dir_unlink_frame) simp
  then have link: "sfs_dir_unlink dir (snd x) s1 = Some (r, s2) \<Longrightarrow> counts s2 = counts s1" for r s2 by (auto simp: frame_def)
  show ?case unfolding case_prod_beta
    using found assms(2) by (intro gives_bind)
      (auto intro!: gives_Some split: sum.splits Option.bind_splits dest!: add_link_counts link intro: drop_loaded)
qed (simp add: sgrew_same)

lemma rename_gives:
  assumes "counts s = c" and "okc lm c"
  shows "gives (sfs_rename lm d1 n1 d2 n2 s) (\<lambda>_ s'. sgrew lm c {#} (counts s')) (\<lambda>s'. sgrew lm c {#} (counts s'))"
  unfolding sfs_rename_def
proof (rule gives_bind, rule gives_bind, rule gives_bind, rule gives_kbind' [OF lookonce_gives [OF assms]], goal_cases fail found)
  case (found _ _ _ x s1)
  have unl: "sfs_dir_unlink d slot s2 = Some (r, s3) \<Longrightarrow> counts s3 = counts s2" for d slot s2 r s3
    using dir_unlink_frame [OF refl] unfolding frame_def by blast
  have set: "vn_store s2 g = Some sv \<Longrightarrow> counts (set_vn g (sv\<lparr>sv_i := i\<rparr>) s2) = counts s2" for s2 g sv i
    by simp
  obtain g1 slot1 where x: "x = (g1, slot1)" by (cases x)
  show ?case unfolding x prod.case
  proof (rule gives_bind, rule gives_bind, rule gives_result [OF gives_frame [OF dir_link_frame [OF refl]]], goal_cases)
    case (1 g _ e s2)
    then show ?case using found x assms(2) by (auto intro!: gives_bind gives_kfail intro: drop_loaded)
  next
    case (2 g _ slot2 s2)
    then show ?case using found x assms(2)
      by (auto simp: gives_None intro!: gives_bind gives_kret gives_kfail split: sum.split dest!: add_link_counts unl)
        (erule drop_loaded, assumption, simp, assumption)+
  qed
qed (simp_all add: sgrew_same)

lemma lookup_gives:
  assumes "counts s = c" and "okc lm c"
  shows "gives (sfs_lookup lm a path s) (\<lambda>v s'. sgrew lm c {#v#} (counts s')) (\<lambda>s'. sgrew lm c {#} (counts s'))"
  unfolding sfs_lookup_def using assms
  by (auto intro!: gives_bind gives_kfail gives_kbind' [OF lookonce_gives] gives_kret simp: sgrew_same sgrew_loaded)

lemma lookparent_gives:
  assumes "counts s = c" and "okc lm c"
  shows "gives (sfs_lookparent a path n s) (\<lambda>x s'. sgrew lm c {#fst x#} (counts s')) (\<lambda>s'. sgrew lm c {#} (counts s'))"
  unfolding sfs_lookparent_def using assms sgrew_loaded [OF incref_counts, of a s _ lm]
  by (auto intro!: gives_bind gives_kfail gives_kret simp: sgrew_same)

lemma link_frame: "counts s = c \<Longrightarrow> frame counts c (sfs_link dir name file s)"
  unfolding sfs_link_def by (auto intro!: frame_read frame_kbind dir_link_frame frame_rules dest: add_link_counts)

lemma fsync_frame: "counts s = c \<Longrightarrow> frame counts c (VOP_FSYNC a s)"
  unfolding VOP_FSYNC_def sfs_fsync_def by (auto intro!: frame_read sync_inode_frame)

lemma close_frame: "counts s = c \<Longrightarrow> frame counts c (VOP_CLOSE a s)"
  unfolding VOP_CLOSE_def vop_def sfs_close_def by (auto intro!: frame_read fsync_frame)

lemma incopen_counts: "VOP_INCOPEN a s = Some s' \<Longrightarrow> counts s' = counts s"
  by (auto simp: VOP_INCOPEN_def vnode_incopen_def kassert_def split: Option.bind_splits if_splits)

lemma decopen_counts:
  assumes "VOP_DECOPEN a s = Some s'"
  shows "counts s' = counts s"
proof -
  from assms obtain sv s1 where s1: "vn_store s a = Some sv" "s1 = set_vn a (sv\<lparr>vn_opencount := vn_opencount sv - 1\<rparr>) s"
    "s' = s1 \<or> (\<exists>r. VOP_CLOSE a s1 = Some (r, s'))"
    by (auto simp: VOP_DECOPEN_def vnode_decopen_count_def kassert_def Let_def split: Option.bind_splits if_splits)
  have "counts s1 = counts s" using s1(1,2) by simp
  then show ?thesis using s1(3) close_frame [of s1 "counts s" a] by (auto simp: frame_def)
qed

lemma mapio_loop_frame: "counts s = c \<Longrightarrow> frame counts c (sfs_mapio_loop n j rw s)"
  by (induction n arbitrary: j s) (auto simp: Let_def intro!: frame_rules frame_kbind frame_read rblock_frame wblock_frame)

lemma sync_vnodes_counts: "sync_vnodes n i s = Some s' \<Longrightarrow> counts s' = counts s"
proof (induction n arbitrary: i s)
  case (Suc n)
  then obtain a r s1 where a: "VOP_FSYNC a s = Some (r, s1)" "sync_vnodes n (Suc i) s1 = Some s'" by (auto split: Option.bind_splits)
  then show ?case using Suc.IH [OF a(2)] fsync_frame [of s "counts s" a] by (auto simp: frame_def)
qed simp

lemma sync_frame: "counts s = c \<Longrightarrow> frame counts c (sfs_sync s)"
  unfolding sfs_sync_def sfs_mapio_def
  by (auto intro!: frame_read frame_kbind mapio_loop_frame wblock_frame frame_rules dest!: sync_vnodes_counts)

section \<open>The counts of the kernel\<close>

definition sys_refs :: "'d sysw \<Rightarrow> nat \<Rightarrow> int" where
  "sys_refs w v = (case sw_dev w v of Some dv \<Rightarrow> vn_refcount dv | None \<Rightarrow> ref (counts (sw_fs w)) v)"

text \<open>What the layer relies on of \<open>kmalloc\<close>: the memory for a new vnode is not that of another one.\<close>

definition fresh_memory :: "('d sysw \<Rightarrow> load_mem) \<Rightarrow> bool" where
  "fresh_memory alloc \<longleftrightarrow> (\<forall>w. finite (dom (vn_store (sw_fs w))) \<longrightarrow> finite (dom (sw_dev w))
     \<longrightarrow> vn_store (sw_fs w) (lm_addr (alloc w)) = None \<and> sw_dev w (lm_addr (alloc w)) = None)"

definition sys_good :: "('d sysw \<Rightarrow> load_mem) \<Rightarrow> 'd sysw \<Rightarrow> bool" where
  "sys_good alloc w \<longleftrightarrow> fresh_memory alloc \<and> finite (dom (vn_store (sw_fs w))) \<and> finite (dom (sw_dev w))
     \<and> dom (vn_store (sw_fs w)) \<inter> dom (sw_dev w) = {}"

lemma dom_counts: "dom (counts s) = dom (vn_store s)"
  by (auto simp: counts_def)

lemma few_okc: "sys_good alloc w \<Longrightarrow> few_refs sys_refs w \<Longrightarrow> okc (alloc w) (counts (sw_fs w))"
  unfolding okc_def
proof (intro conjI allI impI)
  assume g: "sys_good alloc w" and f: "few_refs sys_refs w"
  show "counts (sw_fs w) (lm_addr (alloc w)) = None" using g by (auto simp: sys_good_def fresh_memory_def counts_def)
  fix v n assume n: "counts (sw_fs w) v = Some n"
  then have "v \<in> dom (vn_store (sw_fs w))" using dom_counts by (metis domI)
  then have "sw_dev w v = None" using g by (auto simp: sys_good_def)
  then have "sys_refs w v = n" using n by (simp add: sys_refs_def ref_def)
  then show "0 \<le> n" "n + 2 < INT_MAX" using f by (auto simp: few_refs_def)
qed

lemma sys_grew:
  assumes g: "sys_good alloc w" and s: "sgrew (alloc w) (counts (sw_fs w)) M (counts s')"
  shows "sys_good alloc (w\<lparr>sw_fs := s'\<rparr>) \<and> grew False sys_refs w M (w\<lparr>sw_fs := s'\<rparr>)"
proof -
  have d: "dom (vn_store s') \<subseteq> insert (lm_addr (alloc w)) (dom (vn_store (sw_fs w)))" "set_mset M \<subseteq> dom (vn_store s')"
    using s by (auto simp: sgrew_def dom_counts)
  have fresh: "lm_addr (alloc w) \<notin> dom (sw_dev w)" using g by (auto simp: sys_good_def fresh_memory_def)
  have "finite (dom (vn_store s'))" using d(1) g finite_subset by (auto simp: sys_good_def)
  moreover have disj: "dom (vn_store s') \<inter> dom (sw_dev w) = {}" using d(1) g fresh unfolding sys_good_def by blast
  ultimately have "sys_good alloc (w\<lparr>sw_fs := s'\<rparr>)" using g by (simp add: sys_good_def)
  moreover have "grew False sys_refs w M (w\<lparr>sw_fs := s'\<rparr>)"
    unfolding grew_def
  proof
    fix v
    show "sys_refs (w\<lparr>sw_fs := s'\<rparr>) v = sys_refs w v + int (count M v) \<or> \<not> False \<and> sys_refs w v = 0 \<and> sys_refs (w\<lparr>sw_fs := s'\<rparr>) v = int (count M v) + 1"
    proof (cases "sw_dev w v")
      case None
      then show ?thesis using s by (auto simp: sys_refs_def sgrew_def grew_def)
    next
      case (Some dv)
      then have "v \<notin># M" using d(2) disj by auto
      then show ?thesis using Some by (simp add: sys_refs_def count_eq_zero_iff)
    qed
  qed
  ultimately show ?thesis by blast
qed

lemma sys_stay: "sys_good alloc w \<Longrightarrow> sys_good alloc w \<and> grew False sys_refs w {#} w"
  by (simp add: grew_def)

text \<open>A call through the tables, from what its two entries do.\<close>

lemma dispatch_gives:
  assumes g: "sys_good alloc w"
    and dev: "\<And>dv. sw_dev w a = Some dv \<Longrightarrow> gives (dev dv) (\<lambda>x w'. sys_good alloc w' \<and> grew False sys_refs w (N x) w') (\<lambda>w'. sys_good alloc w' \<and> grew False sys_refs w {#} w')"
    and fs: "gives (fs (sw_fs w)) (\<lambda>x s'. sgrew (alloc w) (counts (sw_fs w)) (N x) (counts s')) (\<lambda>s'. sgrew (alloc w) (counts (sw_fs w)) {#} (counts s'))"
  shows "gives (dispatch dev fs a w) (\<lambda>x w'. sys_good alloc w' \<and> grew False sys_refs w (N x) w') (\<lambda>w'. sys_good alloc w' \<and> grew False sys_refs w {#} w')"
proof (cases "sw_dev w a")
  case None
  have "gives (call_fs fs w) (\<lambda>x w'. sys_good alloc w' \<and> grew False sys_refs w (N x) w') (\<lambda>w'. sys_good alloc w' \<and> grew False sys_refs w {#} w')"
    unfolding call_fs_def by (rule gives_result [OF fs]) (auto intro!: gives_Some dest: sys_grew [OF g])
  then show ?thesis using None by (simp add: dispatch_def)
next
  case (Some dv)
  then show ?thesis using dev by (auto simp: dispatch_def intro!: gives_bind)
qed

lemma code_gives: "E s \<Longrightarrow> Q () s \<Longrightarrow> gives (code r s) Q E"
  by (simp add: code_def gives_kret gives_kfail)

lemma sys_refs_fs: "sys_refs (w\<lparr>sw_fs := s'\<rparr>) = (\<lambda>v. if sw_dev w v = None then ref (counts s') v else sys_refs w v)"
  by (rule ext) (simp add: sys_refs_def split: option.split)

lemma same_counts:
  assumes "counts s' = counts (sw_fs w)" and "sys_good alloc w"
  shows "sys_good alloc (w\<lparr>sw_fs := s'\<rparr>) \<and> sys_refs (w\<lparr>sw_fs := s'\<rparr>) = sys_refs w"
proof -
  have "dom (vn_store s') = dom (vn_store (sw_fs w))" using assms(1) dom_counts by metis
  moreover have "sys_refs w v = ref (counts (sw_fs w)) v" if "sw_dev w v = None" for v using that by (simp add: sys_refs_def)
  ultimately show ?thesis using assms by (auto simp: sys_good_def sys_refs_fs)
qed

lemma set_dev:
  assumes "sys_good alloc w" and "sw_dev w v = Some dv"
  shows "sys_good alloc (w\<lparr>sw_dev := (sw_dev w)(v \<mapsto> dv')\<rparr>) \<and> sys_refs (w\<lparr>sw_dev := (sw_dev w)(v \<mapsto> dv')\<rparr>) = (sys_refs w)(v := vn_refcount dv')"
proof -
  have "dom ((sw_dev w)(v \<mapsto> dv')) = dom (sw_dev w)" using assms(2) by auto
  moreover have "sys_refs (w\<lparr>sw_dev := (sw_dev w)(v \<mapsto> dv')\<rparr>) x = ((sys_refs w)(v := vn_refcount dv')) x" for x
    by (simp add: sys_refs_def split: option.split)
  ultimately show ?thesis using assms(1) by (auto simp: sys_good_def)
qed

lemma sys_refs_dev: "sw_dev w v = Some dv \<Longrightarrow> sys_refs w v = vn_refcount dv"
  by (simp add: sys_refs_def)

lemma sys_incref:
  assumes g: "sys_good alloc w" and f: "few_refs sys_refs w" and i: "v_incref (sys_ops alloc) v w = Some w'"
  shows "sys_good alloc w' \<and> sys_refs w' = (sys_refs w)(v := sys_refs w v + 1)"
proof (cases "sw_dev w v")
  case None
  with i obtain s' where s': "VOP_INCREF v (sw_fs w) = Some s'" "w' = w\<lparr>sw_fs := s'\<rparr>"
    by (auto simp: sys_ops_def sys_count_def to_fs_def split: Option.bind_splits)
  from incref_counts [OF s'(1) few_okc [OF g f]] have l: "loaded (alloc w) (counts (sw_fs w)) v (counts s')" .
  from s'(1) obtain n where n: "counts (sw_fs w) v = Some n" by (auto simp: VOP_INCREF_def split: Option.bind_splits)
  then have c: "counts s' = (counts (sw_fs w))(v \<mapsto> n + 1)" using l by (auto simp: loaded_def)
  have "sys_good alloc w'" using sys_grew [OF g sgrew_loaded [OF l]] s'(2) by simp
  moreover have "sys_refs w' = (sys_refs w)(v := sys_refs w v + 1)" using None c n s'(2)
    by (auto simp: sys_refs_fs fun_eq_iff) (auto simp: sys_refs_def ref_def)
  ultimately show ?thesis by blast
next
  case (Some dv)
  have "0 \<le> vn_refcount dv \<and> vn_refcount dv + 2 < INT_MAX" using f Some by (auto simp: few_refs_def sys_refs_def split: option.splits)
  then have "s32 (vn_refcount dv + 1) = vn_refcount dv + 1" by (intro s32_id) (auto simp: INT_MAX_def)
  then have "w' = w\<lparr>sw_dev := (sw_dev w)(v \<mapsto> dv\<lparr>vn_refcount := vn_refcount dv + 1\<rparr>)\<rparr>"
    using i Some by (auto simp: sys_ops_def sys_count_def DEV_INCREF_def vnode_incref_def kassert_def split: Option.bind_splits if_splits)
  then show ?thesis using g set_dev [OF g Some] sys_refs_dev [OF Some] by auto
qed

lemma sys_decref:
  assumes g: "sys_good alloc w" and i: "v_decref (sys_ops alloc) v w = Some w'"
  shows "sys_good alloc w' \<and> (sys_refs w' = (sys_refs w)(v := sys_refs w v - 1) \<or> \<not> False \<and> sys_refs w v = 1 \<and> sys_refs w' = sys_refs w)"
proof (cases "sw_dev w v")
  case None
  with i obtain s' where s': "VOP_DECREF v (sw_fs w) = Some s'" "w' = w\<lparr>sw_fs := s'\<rparr>"
    by (auto simp: sys_ops_def sys_count_def to_fs_def split: Option.bind_splits)
  from decref_counts [OF s'(1)] obtain n where n: "counts (sw_fs w) v = Some n" "n > 0"
    "if n > 1 then counts s' = (counts (sw_fs w))(v \<mapsto> n - 1) else counts s' = (counts (sw_fs w))(v := None) \<or> counts s' = counts (sw_fs w)" by blast
  have "dom (counts s') \<subseteq> dom (counts (sw_fs w))" using n by (auto split: if_splits)
  then have "sys_good alloc w'" using g s'(2) finite_subset by (fastforce simp: sys_good_def dom_counts)
  moreover have "sys_refs w' = (sys_refs w)(v := sys_refs w v - 1) \<or> sys_refs w v = 1 \<and> sys_refs w' = sys_refs w"
  proof (cases "counts s' = counts (sw_fs w)")
    case True
    then have "counts s' v = Some n" using n(1) by simp
    then have "n = 1" using n(2,3) by (cases "n > 1") auto
    then have "sys_refs w v = 1" using None n(1) by (simp add: sys_refs_def ref_def)
    then show ?thesis using s'(2) same_counts [OF True g] by simp
  next
    case False
    then have "ref (counts s') = (ref (counts (sw_fs w)))(v := n - 1)" using n by (cases "n > 1") (auto simp: ref_def)
    moreover have "sys_refs w x = ref (counts (sw_fs w)) x" if "sw_dev w x = None" for x using that by (simp add: sys_refs_def)
    ultimately show ?thesis using None n s'(2) by (auto simp: sys_refs_fs fun_eq_iff ref_def)
  qed
  ultimately show ?thesis by blast
next
  case (Some dv)
  then have "w' = w\<lparr>sw_dev := (sw_dev w)(v \<mapsto> dv\<lparr>vn_refcount := vn_refcount dv - 1\<rparr>)\<rparr> \<or> w' = w \<and> vn_refcount dv = 1"
    using i by (auto simp: sys_ops_def sys_count_def DEV_DECREF_def vnode_decref_count_def kassert_def split: Option.bind_splits if_splits)
  then show ?thesis using g set_dev [OF g Some] sys_refs_dev [OF Some] by auto
qed

lemma sys_incopen:
  assumes g: "sys_good alloc w" and i: "v_incopen (sys_ops alloc) v w = Some w'"
  shows "sys_good alloc w' \<and> sys_refs w' = sys_refs w"
proof (cases "sw_dev w v")
  case None
  with i obtain s' where s': "VOP_INCOPEN v (sw_fs w) = Some s'" "w' = w\<lparr>sw_fs := s'\<rparr>"
    by (auto simp: sys_ops_def sys_count_def to_fs_def split: Option.bind_splits)
  from same_counts [OF incopen_counts [OF s'(1)] g] show ?thesis using s'(2) by simp
next
  case (Some dv)
  then show ?thesis using i set_dev [OF g Some] sys_refs_dev [OF Some]
    by (auto simp: sys_ops_def sys_count_def DEV_INCOPEN_def vnode_incopen_def kassert_def Let_def fun_upd_idem split: Option.bind_splits if_splits)
qed

lemma sys_decopen:
  assumes g: "sys_good alloc w" and i: "v_decopen (sys_ops alloc) v w = Some w'"
  shows "sys_good alloc w' \<and> sys_refs w' = sys_refs w"
proof (cases "sw_dev w v")
  case None
  with i obtain s' where s': "VOP_DECOPEN v (sw_fs w) = Some s'" "w' = w\<lparr>sw_fs := s'\<rparr>"
    by (auto simp: sys_ops_def sys_count_def to_fs_def split: Option.bind_splits)
  from same_counts [OF decopen_counts [OF s'(1)] g] show ?thesis using s'(2) by simp
next
  case (Some dv)
  then show ?thesis using i set_dev [OF g Some] sys_refs_dev [OF Some]
    by (auto simp: sys_ops_def sys_count_def DEV_DECOPEN_def vnode_decopen_count_def kassert_def Let_def fun_upd_idem split: Option.bind_splits if_splits)
qed

lemma table_sgrew: "gives (by_table x y a s) (\<lambda>_ s'. sgrew lm (counts s) {#} (counts s')) (\<lambda>s'. sgrew lm (counts s) {#} (counts s'))"
  unfolding by_table_def by (rule vop_gives) (simp add: gives_kfail sgrew_same split: sfs_ops.split)

lemma vop_table:
  assumes "gives m Q (\<lambda>s'. sgrew lm (counts s) {#} (counts s'))"
  shows "gives (vop (\<lambda>ops. case ops of sfs_fileops \<Rightarrow> kfail e s | sfs_dirops \<Rightarrow> m) a s) Q (\<lambda>s'. sgrew lm (counts s) {#} (counts s'))"
  by (rule vop_gives) (simp add: gives_kfail sgrew_same assms split: sfs_ops.split)

lemma sys_lookups:
  assumes g: "sys_good alloc w" and f: "few_refs sys_refs w"
  shows "gives (v_lookup (sys_ops alloc) v path w) (\<lambda>x w'. sys_good alloc w' \<and> grew False sys_refs w {#x#} w') (\<lambda>w'. sys_good alloc w' \<and> grew False sys_refs w {#} w')"
    and "gives (v_creat (sys_ops alloc) v path ex w) (\<lambda>x w'. sys_good alloc w' \<and> grew False sys_refs w {#x#} w') (\<lambda>w'. sys_good alloc w' \<and> grew False sys_refs w {#} w')"
    and "gives (v_lookparent (sys_ops alloc) v path n w) (\<lambda>x w'. sys_good alloc w' \<and> grew False sys_refs w {#fst x#} w') (\<lambda>w'. sys_good alloc w' \<and> grew False sys_refs w {#} w')"
proof -
  note stay = sys_stay [OF g]
  note ok = few_okc [OF g f]
  have dev: "gives (dev_lookup (DEV_INCREF v dv) v path w) (\<lambda>x w'. sys_good alloc w' \<and> grew False sys_refs w {#x#} w') (\<lambda>w'. sys_good alloc w' \<and> grew False sys_refs w {#} w')"
    if d: "sw_dev w v = Some dv" for dv
  proof -
    have "DEV_INCREF v dv w = Some w' \<Longrightarrow> sys_good alloc w' \<and> grew False sys_refs w {#v#} w'" for w'
      using sys_incref [OF g f, of v w'] d by (auto simp: sys_ops_def sys_count_def grew_def)
    then show ?thesis using stay by (auto simp: dev_lookup_def intro!: gives_kfail gives_bind gives_kret)
  qed
  show "gives (v_lookup (sys_ops alloc) v path w) (\<lambda>x w'. sys_good alloc w' \<and> grew False sys_refs w {#x#} w') (\<lambda>w'. sys_good alloc w' \<and> grew False sys_refs w {#} w')"
    unfolding sys_ops_def vops.simps VOP_LOOKUP_def
    by (rule dispatch_gives [OF g]) (simp_all add: dev vop_table [OF lookup_gives [OF refl ok]])
  show "gives (v_creat (sys_ops alloc) v path ex w) (\<lambda>x w'. sys_good alloc w' \<and> grew False sys_refs w {#x#} w') (\<lambda>w'. sys_good alloc w' \<and> grew False sys_refs w {#} w')"
    unfolding sys_ops_def vops.simps VOP_CREAT_def
    by (rule dispatch_gives [OF g]) (simp_all add: gives_kfail stay vop_table [OF creat_gives [OF refl ok]])
  show "gives (v_lookparent (sys_ops alloc) v path n w) (\<lambda>x w'. sys_good alloc w' \<and> grew False sys_refs w {#fst x#} w') (\<lambda>w'. sys_good alloc w' \<and> grew False sys_refs w {#} w')"
    unfolding sys_ops_def vops.simps VOP_LOOKPARENT_def
    by (rule dispatch_gives [OF g]) (simp_all add: gives_kfail stay vop_table [OF lookparent_gives [OF refl ok]])
qed

lemma sys_getroot:
  assumes g: "sys_good alloc w" and f: "few_refs sys_refs w" and r: "f_getroot (sys_ops alloc) fs w = Some (x, w')"
  shows "sys_good alloc w' \<and> grew False sys_refs w {#x#} w'"
proof -
  from r obtain s' where s': "sfs_loadvnode (alloc w) SFS_ROOT_LOCATION SFS_TYPE_INVAL (sw_fs w) = Some (Inr x, s')" "w' = w\<lparr>sw_fs := s'\<rparr>"
    by (auto simp: sys_ops_def sfs_getroot_def split: Option.bind_splits sum.splits)
  have "loaded (alloc w) (counts (sw_fs w)) x (counts s')"
    using loadvnode_gives [OF refl few_okc [OF g f], of SFS_ROOT_LOCATION SFS_TYPE_INVAL] s'(1) unfolding gives_def by fastforce
  from sys_grew [OF g sgrew_loaded [OF this]] show ?thesis using s'(2) by simp
qed

text \<open>The calls that give no reference.\<close>

lemma dispatch_plain:
  assumes g: "sys_good alloc w"
    and dev: "\<And>dv. gives (dev dv) (\<lambda>_ w'. sys_good alloc w' \<and> grew False sys_refs w {#} w') (\<lambda>w'. sys_good alloc w' \<and> grew False sys_refs w {#} w')"
    and fs: "gives (fs (sw_fs w)) (\<lambda>_ s'. sgrew (alloc w) (counts (sw_fs w)) {#} (counts s')) (\<lambda>s'. sgrew (alloc w) (counts (sw_fs w)) {#} (counts s'))"
  shows "gives (dispatch dev fs a w) (\<lambda>_ w'. sys_good alloc w' \<and> grew False sys_refs w {#} w') (\<lambda>w'. sys_good alloc w' \<and> grew False sys_refs w {#} w')"
  by (rule dispatch_gives [OF g, where N = "\<lambda>_. {#}"]) (use dev fs in auto)

lemma open_frame: "counts s = c \<Longrightarrow> frame counts c (do { r \<leftarrow> VOP_OPEN a fl s; code r s })"
  by (auto simp: code_def intro!: frame_read frame_rules)

lemma gettype_frame: "counts s = c \<Longrightarrow> frame counts c (VOP_GETTYPE a s)"
  unfolding VOP_GETTYPE_def vop_def by (auto intro!: frame_read frame_rules)

lemma LINK_frame: "counts s = c \<Longrightarrow> frame counts c (VOP_LINK a name file s)"
  unfolding VOP_LINK_def vop_def by (auto intro!: frame_read link_frame frame_rules split: sfs_ops.split)

interpretation sysv: vnode_layer "sys_ops alloc" sys_refs False "sys_good alloc" for alloc
proof (unfold_locales, goal_cases incref decref incopen decopen lookup creat lookparent getroot vopen gettype truncate symlink mkdir link remove rmdir rename namefile readlink sync)
  case incref then show ?case by (rule sys_incref)
next
  case decref then show ?case using sys_decref by blast
next
  case incopen then show ?case using sys_incopen by blast
next
  case decopen then show ?case using sys_decopen by blast
next
  case lookup then show ?case by (rule sys_lookups)
next
  case creat then show ?case by (rule sys_lookups)
next
  case lookparent then show ?case by (rule sys_lookups)
next
  case getroot then show ?case by (rule sys_getroot)
next
  case vopen then show ?case
    by (simp add: sys_ops_def dispatch_plain code_gives sys_stay frame_sgrew open_frame)
next
  case gettype then show ?case
    by (simp add: sys_ops_def dispatch_plain gives_kret sys_stay frame_sgrew gettype_frame)
next
  case truncate then show ?case
    by (simp add: sys_ops_def dispatch_plain code_gives sys_stay frame_sgrew VOP_TRUNCATE_frame)
next
  case symlink then show ?case by (simp add: sys_ops_def dispatch_plain gives_kfail sys_stay table_sgrew)
next
  case mkdir then show ?case by (simp add: sys_ops_def dispatch_plain gives_kfail sys_stay table_sgrew)
next
  case link then show ?case by (simp add: sys_ops_def dispatch_plain gives_kfail sys_stay frame_sgrew LINK_frame)
next
  case (remove w) then show ?case
    by (simp add: sys_ops_def VOP_REMOVE_def dispatch_plain gives_kfail sys_stay vop_table [OF remove_gives [OF refl few_okc]])
next
  case rmdir then show ?case by (simp add: sys_ops_def dispatch_plain gives_kfail sys_stay table_sgrew)
next
  case rename then show ?case
    by (simp add: sys_ops_def VOP_RENAME_def dispatch_plain gives_kfail sys_stay vop_table [OF rename_gives [OF refl few_okc]])
next
  case namefile then show ?case
    by (auto simp: sys_ops_def sys_uio_def sys_stay split: option.splits Option.bind_splits)
next
  case readlink then show ?case
    by (auto simp: sys_ops_def sys_uio_def sys_stay split: option.splits Option.bind_splits)
next
  case (sync w fs r w')
  then obtain q s' where s': "sfs_sync (sw_fs w) = Some (q, s')" "w' = w\<lparr>sw_fs := s'\<rparr>"
    by (auto simp: sys_ops_def call_fs_def split: Option.bind_splits)
  have "counts s' = counts (sw_fs w)" using sync_frame [OF refl] s'(1) unfolding frame_def by blast
  from same_counts [OF this sync(1)] show ?case using s'(2) by (simp add: grew_def)
qed

lemma present: "0 < sys_refs w v \<Longrightarrow> vn_store (sw_fs w) v \<noteq> None \<or> sw_dev w v \<noteq> None"
  by (auto simp: sys_refs_def ref_def counts_def split: option.splits)


text \<open>A volume with its root directory, in use as the current directory, and the null device; a caller opens the
  root through the path \<open>":"\<close> and closes it again.\<close>

definition demo_root :: "int \<Rightarrow> int \<Rightarrow> sfs_vnode" where
  "demo_root n k = \<lparr>vn_refcount = n, vn_opencount = k, vn_countlock = True, vn_ops = Ptr sfs_dirops,
     sv_i = \<lparr>sfi_size = 0, sfi_type = 2, sfi_linkcount = 1, sfi_direct = replicate 15 0, sfi_indirect = 0, sfi_waste = replicate 110 0\<rparr>,
     sv_ino = 1, sv_dirty = False\<rparr>"

definition demo_null :: dev_vnode where
  "demo_null = \<lparr>vn_refcount = 1, vn_opencount = 0, vn_countlock = True, vn_ops = Ptr (),
     dv_dev = device.make 0 1, dv_open = nullopen, dv_close = nullclose\<rparr>"

definition demo_world :: "sfs_vnode \<Rightarrow> (nat \<Rightarrow> byte list) sysw" where
  "demo_world root = \<lparr>sw_fsaddr = 3,
     sw_fs = \<lparr>sfs_device = ram_lhd 8 (\<lambda>s. []),
       sfs_super = \<lparr>sp_magic = SFS_MAGIC, sp_nblocks = 8, sp_volname = replicate 32 0, sp_reserved = replicate 118 0\<rparr>, sfs_superdirty = False,
       sfs_vnodes = \<lparr>a_num = 1, a_max = 1, a_v = Ptr [Some 7]\<rparr>, sfs_freemap = \<lparr>b_nbits = 8, b_v = [15]\<rparr>, sfs_freemapdirty = False,
       vn_store = [7 \<mapsto> root]\<rparr>,
     sw_dev = [5 \<mapsto> demo_null]\<rparr>"

definition demo_vfs :: "sfs_vnode \<Rightarrow> (nat \<Rightarrow> byte list) sysw vfs" where
  "demo_vfs root = \<lparr>knowndevs = [], bootfs_vnode = NULL, t_cwd = Ptr 7, world = demo_world root\<rparr>"

definition demo_alloc :: "'d sysw \<Rightarrow> load_mem" where
  "demo_alloc w = \<lparr>lm_addr = Suc (Max (insert 0 (dom (vn_store (sw_fs w)) \<union> dom (sw_dev w)))), lm_vnode = True, lm_lock = True, lm_array = (\<lambda>_. True)\<rparr>"

lemma demo_alloc_fresh: "fresh_memory demo_alloc"
  unfolding fresh_memory_def
proof (intro allI impI)
  fix w :: "'d sysw" assume f: "finite (dom (vn_store (sw_fs w)))" "finite (dom (sw_dev w))"
  let ?m = "Max (insert 0 (dom (vn_store (sw_fs w)) \<union> dom (sw_dev w)))"
  have "a \<le> ?m" if "a \<in> dom (vn_store (sw_fs w)) \<union> dom (sw_dev w)" for a using f that by (intro Max_ge) auto
  then have "Suc ?m \<notin> dom (vn_store (sw_fs w)) \<union> dom (sw_dev w)" using not_less_eq_eq by blast
  then show "vn_store (sw_fs w) (lm_addr (demo_alloc w)) = None \<and> sw_dev w (lm_addr (demo_alloc w)) = None"
    by (auto simp: demo_alloc_def)
qed

lemma demo_good: "sys_good demo_alloc (demo_world root)"
  by (simp add: sys_good_def demo_alloc_fresh demo_world_def)

lemma demo_counts:
  "v_incref (sys_ops al) 7 (demo_world (demo_root n k)) = Some (demo_world (demo_root (s32 (n + 1)) k))"
  "n > 1 \<Longrightarrow> v_decref (sys_ops al) 7 (demo_world (demo_root n k)) = Some (demo_world (demo_root (n - 1) k))"
  "v_incopen (sys_ops al) 7 (demo_world (demo_root n k)) = Some (demo_world (demo_root n (s32 (k + 1))))"
  "n > 0 \<Longrightarrow> v_decopen (sys_ops al) 7 (demo_world (demo_root n 1)) = Some (demo_world (demo_root n 0))"
  by (simp_all add: sys_ops_def sys_count_def to_fs_def demo_world_def demo_root_def VOP_INCREF_def VOP_DECREF_def VOP_INCOPEN_def VOP_DECOPEN_def
      vnode_incref_def vnode_decref_count_def vnode_incopen_def vnode_decopen_count_def kassert_def set_vn_def Let_def
      VOP_CLOSE_def vop_def sfs_close_def VOP_FSYNC_def sfs_fsync_def sfs_sync_inode_def vnode_check_def kret_def)

lemma demo_calls:
  "v_fs (sys_ops al) 7 (demo_world r) = Ptr 3"
  "n > 0 \<Longrightarrow> k \<ge> 0 \<Longrightarrow> v_open (sys_ops al) 7 0 (demo_world (demo_root n k)) = Some (Inr (), demo_world (demo_root n k))"
  by (simp_all add: sys_ops_def demo_world_def demo_root_def dispatch_def call_fs_def VOP_OPEN_def vop_def vnode_check_def kassert_def sfs_opendir_def code_def kret_def)

lemma demo_getroot: "f_getroot (sys_ops al) 3 (demo_world (demo_root n k)) = Some (7, demo_world (demo_root (s32 (n + 1)) k))"
proof -
  have "sfs_bused 1 (sw_fs (demo_world (demo_root n k))) = Some True"
    by (simp add: sfs_bused_def demo_world_def kassert_def bitmap_isset_def bitmap_translate_def rd_def bitmask_def)
  then show ?thesis
    by (simp add: sys_ops_def kassert_def sfs_getroot_def sfs_loadvnode_def SFS_ROOT_LOCATION_def)
      (simp add: demo_world_def demo_root_def array_getnum_def array_getguy_def kassert_def rd_def VOP_INCREF_def vnode_incref_def set_vn_def kret_def)
qed

lemma s32_2: "s32 1 = 1" "s32 2 = 2" "s32 3 = 3"
  by (simp_all add: s32_def)

lemma demo_open: "vfs_open (sys_ops al) [58] 0 (demo_vfs (demo_root 1 0)) = Some (Inr 7, demo_vfs (demo_root 2 1))"
  by (simp add: vfs_open_def vfs_lookup_def getdevice_def vfs_getcurdir_def demo_vfs_def Let_def kassert_def vdo_def vcall_def kret_def kbind_def
      skip_slashes_def demo_counts demo_calls demo_getroot s32_2)

lemma demo_close: "vfs_close (sys_ops al) 7 (demo_vfs (demo_root 2 1)) = Some (demo_vfs (demo_root 1 0))"
  by (simp add: vfs_close_def demo_vfs_def vdo_def demo_counts)

lemma demo_run: "vfs_run (sys_ops al) (demo_vfs (demo_root 1 0)) {#7#} (demo_vfs (demo_root 2 1))"
  using vfs_run.step [OF vfs_run.start, of "Open [58] 0" "sys_ops al" "demo_vfs (demo_root 1 0)" "{#7#}" "demo_vfs (demo_root 2 1)"]
  by (simp add: given_def got_def demo_open)

lemma demo_refs: "sys_refs (world (demo_vfs (demo_root n k))) v = (if v = 7 then n else if v = 5 then 1 else 0)"
  by (simp add: demo_vfs_def demo_world_def sys_refs_def ref_def counts_def demo_root_def demo_null_def)

lemma demo_kept: "kept (demo_vfs r) = {#7#}"
  by (simp add: kept_def demo_vfs_def)


end
