(* ===== verification/Krandom.thy ===== *)
theory Krandom
  imports Kprelude "HOL-Library.Word"
begin

unbundle bit_operations_syntax

text \<open>
  The random number generator of the C library, \<open>lib/libc/random.c\<close>: \<open>srandom\<close>, \<open>initstate\<close>, \<open>setstate\<close> and
  \<open>random\<close>. State tables are arrays of 32-bit words, named by their addresses; a pointer is an array with an
  index, and an access outside of an array is a stop. Word 0 of a table holds the type of the generator with
  the position of the rear pointer; \<open>state\<close> points to word 1.
\<close>

section \<open>The code\<close>

type_synonym ptr = "nat \<times> int"

record rng =
  tabs :: "nat \<Rightarrow> 32 word list option"
  fptr :: ptr
  rptr :: ptr
  rstate :: ptr
  rand_type :: int
  rand_deg :: int
  rand_sep :: int
  end_ptr :: ptr

definition MAX_TYPES :: int where "MAX_TYPES = 5"

definition degrees :: "int list" where "degrees = [0, 7, 15, 31, 63]"

definition seps :: "int list" where "seps = [0, 3, 1, 3, 1]"

definition at :: "ptr \<Rightarrow> int \<Rightarrow> ptr" where
  "at p i = (fst p, snd p + i)"

definition ld :: "ptr \<Rightarrow> rng \<Rightarrow> 32 word option" where
  "ld p s = do { t \<leftarrow> tabs s (fst p); rd t (snd p) }"

definition st :: "ptr \<Rightarrow> 32 word \<Rightarrow> rng \<Rightarrow> rng option" where
  "st p w s = do { t \<leftarrow> tabs s (fst p); t \<leftarrow> wr t (snd p) w; Some (s\<lparr>tabs := (tabs s)(fst p \<mapsto> t)\<rparr>) }"

text \<open>The table and the pointers that the library starts with.\<close>

definition randtbl :: "32 word list" where
  "randtbl = [3,
     0x9a319039, 0x32d9c024, 0x9b663182, 0x5da1f342, 0xde3b81e0, 0xdf0a6fb5, 0xf103bc02, 0x48f340fb, 0x7449e56b,
     0xbeb1dbb0, 0xab5c5918, 0x946554fd, 0x8c2e680f, 0xeb3d799f, 0xb11ee0b7, 0x2d436b86, 0xda672e2a, 0x1588ca88,
     0xe369735d, 0x904f35f7, 0xd7158fd6, 0x6fa6f051, 0x616e6b96, 0xac94efdc, 0x36413f93, 0xc622c298, 0xf5a42ab8,
     0x8a88d77b, 0xf5ad9d0e, 0x8999220b, 0x27fb47b9]"

definition rng0 :: rng where
  "rng0 = \<lparr>tabs = [0 \<mapsto> randtbl], fptr = (0, 3 + 1), rptr = (0, 1), rstate = (0, 1), rand_type = 3, rand_deg = 31, rand_sep = 3, end_ptr = (0, 31 + 1)\<rparr>"

text \<open>\<open>random\<close>. The sums wrap around.\<close>

definition random_unlocked :: "rng \<Rightarrow> (32 word \<times> rng) option" where
  "random_unlocked s =
     (if rand_type s = 0 then do {
        i \<leftarrow> ld (rstate s) s;
        let i = (i * 1103515245 + 12345) AND 0x7fffffff;
        s \<leftarrow> st (rstate s) i s;
        Some (i, s)
      }
      else do {
        let f = fptr s;
        let r = rptr s;
        x \<leftarrow> ld f s;
        y \<leftarrow> ld r s;
        s \<leftarrow> st f (x + y) s;
        let i = drop_bit 1 (x + y) AND 0x7fffffff;
        let (f, r) =
          (if snd f + 1 \<ge> snd (end_ptr s) then (rstate s, at r 1)
           else if snd r + 1 \<ge> snd (end_ptr s) then (at f 1, rstate s)
           else (at f 1, at r 1));
        Some (i, s\<lparr>fptr := f, rptr := r\<rparr>)
      })"

definition random :: "rng \<Rightarrow> (32 word \<times> rng) option" where
  "random s = random_unlocked s"

fun fill_lcg :: "nat \<Rightarrow> int \<Rightarrow> rng \<Rightarrow> rng option" where
  "fill_lcg 0 i s = Some s"
| "fill_lcg (Suc n) i s = do {
     x \<leftarrow> ld (at (rstate s) (i - 1)) s;
     s \<leftarrow> st (at (rstate s) i) (1103515245 * x + 12345) s;
     fill_lcg n (i + 1) s
   }"

fun discard :: "nat \<Rightarrow> rng \<Rightarrow> rng option" where
  "discard 0 s = Some s"
| "discard (Suc n) s = do { (_, s) \<leftarrow> random_unlocked s; discard n s }"

definition srandom_unlocked :: "32 word \<Rightarrow> rng \<Rightarrow> rng option" where
  "srandom_unlocked x s =
     (if rand_type s = 0 then st (rstate s) x s
      else do {
        s \<leftarrow> st (rstate s) x s;
        s \<leftarrow> fill_lcg (nat (rand_deg s - 1)) 1 s;
        let s = s\<lparr>fptr := at (rstate s) (rand_sep s), rptr := rstate s\<rparr>;
        discard (nat (10 * rand_deg s)) s
      })"

definition srandom :: "32 word \<Rightarrow> rng \<Rightarrow> rng option" where
  "srandom x s = srandom_unlocked x s"

text \<open>The word that \<open>initstate\<close> and \<open>setstate\<close> leave in front of the table they are called in.\<close>

definition info_word :: "rng \<Rightarrow> 32 word" where
  "info_word s = (if rand_type s = 0 then word_of_int (rand_type s)
                  else word_of_int (MAX_TYPES * (snd (rptr s) - snd (rstate s)) + rand_type s))"

definition set_type :: "int \<Rightarrow> int \<Rightarrow> int \<Rightarrow> rng \<Rightarrow> rng" where
  "set_type t d p s = s\<lparr>rand_type := t, rand_deg := d, rand_sep := p\<rparr>"

definition initstate :: "32 word \<Rightarrow> nat nullable \<Rightarrow> nat \<Rightarrow> rng \<Rightarrow> (ptr nullable \<times> rng) option" where
  "initstate seed arg_state n s = do {
     let ostate = at (rstate s) (- 1);
     a \<leftarrow> (case arg_state of NULL \<Rightarrow> None | Ptr a \<Rightarrow> Some a);
     s \<leftarrow> st (at (rstate s) (- 1)) (info_word s) s;
     if n < 8 then Some (NULL, s)
     else do {
       let s = (if n < 32 then set_type 0 0 0 s else if n < 64 then set_type 1 7 3 s else if n < 128 then set_type 2 15 1 s
                else if n < 256 then set_type 3 31 3 s else set_type 4 63 1 s);
       let s = s\<lparr>rstate := (a, 1)\<rparr>;
       let s = s\<lparr>end_ptr := at (rstate s) (rand_deg s)\<rparr>;
       s \<leftarrow> srandom_unlocked seed s;
       s \<leftarrow> st (a, 0) (info_word s) s;
       Some (Ptr ostate, s)
     }
   }"

definition setstate :: "nat nullable \<Rightarrow> rng \<Rightarrow> (ptr nullable \<times> rng) option" where
  "setstate arg_state s = do {
     let ostate = at (rstate s) (- 1);
     a \<leftarrow> (case arg_state of NULL \<Rightarrow> None | Ptr a \<Rightarrow> Some a);
     w \<leftarrow> ld (a, 0) s;
     let type = crem (sint w) MAX_TYPES;
     let rear = cdiv (sint w) MAX_TYPES;
     s \<leftarrow> st (at (rstate s) (- 1)) (info_word s) s;
     if \<not> (0 \<le> type \<and> type \<le> 4) then Some (NULL, s)
     else do {
       let s = set_type type (degrees ! nat type) (seps ! nat type) s;
       let s = s\<lparr>rstate := (a, 1)\<rparr>;
       let s = (if rand_type s \<noteq> 0 then s\<lparr>rptr := at (rstate s) rear, fptr := at (rstate s) (crem (rear + rand_sep s) (rand_deg s))\<rparr> else s);
       let s = s\<lparr>end_ptr := at (rstate s) (rand_deg s)\<rparr>;
       Some (Ptr ostate, s)
     }
   }"

section \<open>The generators\<close>

text \<open>
  What the code computes: a linear congruential generator, or a feedback register of the last words that were
  made, oldest first, in which the new word is the sum of the oldest and of the one made \<open>sep\<close> calls ago.
\<close>

datatype gen = LCG "32 word" | LFSR nat "32 word list"

fun gen_next :: "gen \<Rightarrow> 32 word \<times> gen" where
  "gen_next (LCG x) = (let y = (x * 1103515245 + 12345) AND 0x7fffffff in (y, LCG y))"
| "gen_next (LFSR sep w) =
     (let y = hd w + w ! (length w - sep) in (drop_bit 1 y AND 0x7fffffff, LFSR sep (tl w @ [y])))"

lemma rotate_front: "f < length T \<Longrightarrow> hd (rotate f T) = T ! f"
  using nth_rotate [of 0 T f] by (subst hd_conv_nth) (cases T; simp)+

lemma register_step:
  assumes "length T = d" and "f < d" and "0 < sep" and "sep < d" and r: "r = (f + (d - sep)) mod d"
  shows "rotate (Suc f mod d) (T[f := T ! f + T ! r]) = tl (rotate f T) @ [hd (rotate f T) + rotate f T ! (d - sep)]"
proof (rule nth_equalityI)
  fix i assume "i < length (rotate (Suc f mod d) (T[f := T ! f + T ! r]))"
  then have i: "i < d" using assms by simp
  let ?T = "T[f := T ! f + T ! r]"
  have l: "rotate (Suc f mod d) ?T ! i = ?T ! (Suc (f + i) mod d)"
    using i assms(1) mod_add_right_eq [of i "Suc f" d] by (simp add: nth_rotate add.commute)
  have hd: "hd (rotate f T) = T ! f" using assms(1,2) by (simp add: rotate_front)
  have tap: "rotate f T ! (d - sep) = T ! r" using assms by (simp add: nth_rotate add.commute)
  show "rotate (Suc f mod d) ?T ! i = (tl (rotate f T) @ [hd (rotate f T) + rotate f T ! (d - sep)]) ! i"
  proof (cases "Suc i = d")
    case True
    then have "Suc (f + i) mod d = f" using assms(2) by (metis add_Suc_right mod_add_self2 mod_less)
    moreover have "(tl (rotate f T) @ [x]) ! i = x" for x using True assms(1) by (auto simp: nth_append)
    ultimately show ?thesis using l hd tap assms by simp
  next
    case False
    then have "Suc i < d" using i by simp
    then have ne: "Suc (f + i) mod d \<noteq> f" using assms(2) by (cases "Suc (f + i) < d") (auto simp: mod_if)
    have "(tl (rotate f T) @ [x]) ! i = T ! (Suc (f + i) mod d)" for x
      using \<open>Suc i < d\<close> assms(1) by (auto simp: nth_append nth_tl nth_rotate add_ac)
    then show ?thesis using l ne by simp
  qed
qed (use assms in simp)

section \<open>The code refines the generators\<close>

text \<open>A generator in a table: the types have the degrees and separations of the two arrays of the code.\<close>

definition gtype :: "rng \<Rightarrow> bool" where
  "gtype s \<longleftrightarrow> 0 \<le> rand_type s \<and> rand_type s \<le> 4 \<and> rand_deg s = degrees ! nat (rand_type s) \<and> rand_sep s = seps ! nat (rand_type s)"

definition rng_ok :: "rng \<Rightarrow> bool" where
  "rng_ok s \<longleftrightarrow> gtype s \<and> (\<exists>a t. rstate s = (a, 1) \<and> tabs s a = Some t \<and> end_ptr s = (a, 1 + rand_deg s)
     \<and> 1 + rand_deg s \<le> int (length t) \<and> 2 \<le> length t
     \<and> (rand_type s \<noteq> 0 \<longrightarrow> (\<exists>r. 0 \<le> r \<and> r < rand_deg s \<and> rptr s = (a, 1 + r) \<and> fptr s = (a, 1 + (r + rand_sep s) mod rand_deg s))))"

definition table_of :: "rng \<Rightarrow> 32 word list" where
  "table_of s = tl (the (tabs s (fst (rstate s))))"

definition gen_of :: "rng \<Rightarrow> gen" where
  "gen_of s = (if rand_type s = 0 then LCG (table_of s ! 0)
     else LFSR (nat (rand_sep s)) (rotate (nat (snd (fptr s) - 1)) (take (nat (rand_deg s)) (table_of s))))"

lemma type_cases:
  assumes "gtype s"
  shows "rand_type s = 0 \<and> rand_deg s = 0 \<and> rand_sep s = 0 \<or> rand_type s = 1 \<and> rand_deg s = 7 \<and> rand_sep s = 3
    \<or> rand_type s = 2 \<and> rand_deg s = 15 \<and> rand_sep s = 1 \<or> rand_type s = 3 \<and> rand_deg s = 31 \<and> rand_sep s = 3
    \<or> rand_type s = 4 \<and> rand_deg s = 63 \<and> rand_sep s = 1"
proof -
  have "0 \<le> k \<Longrightarrow> k \<le> 4 \<Longrightarrow> k = 0 \<or> k = 1 \<or> k = 2 \<or> k = 3 \<or> k = 4" for k :: int by linarith
  then have "rand_type s = 0 \<or> rand_type s = 1 \<or> rand_type s = 2 \<or> rand_type s = 3 \<or> rand_type s = 4"
    using assms by (simp add: gtype_def)
  then show ?thesis using assms unfolding gtype_def by (elim disjE) (simp_all add: degrees_def seps_def)
qed

text \<open>One call, on the table of the register.\<close>

lemma random_table:
  assumes "rng_ok s" and "rand_type s \<noteq> 0"
  obtains a t r f where "rstate s = (a, 1)" "tabs s a = Some t" "end_ptr s = (a, 1 + rand_deg s)" "nat (rand_deg s) < length t"
    "0 < nat (rand_sep s)" "nat (rand_sep s) < nat (rand_deg s)" "rptr s = (a, 1 + int r)" "fptr s = (a, 1 + int f)" "r < nat (rand_deg s)"
    "f = (r + nat (rand_sep s)) mod nat (rand_deg s)"
proof -
  obtain a t r where a: "rstate s = (a, 1)" "tabs s a = Some t" "end_ptr s = (a, 1 + rand_deg s)" "1 + rand_deg s \<le> int (length t)"
    "0 \<le> r" "r < rand_deg s" "rptr s = (a, 1 + r)" "fptr s = (a, 1 + (r + rand_sep s) mod rand_deg s)"
    using assms unfolding rng_ok_def by blast
  have g: "0 < rand_sep s" "rand_sep s < rand_deg s" using type_cases [of s] assms by (auto simp: rng_ok_def)
  have "(r + rand_sep s) mod rand_deg s = int ((nat r + nat (rand_sep s)) mod nat (rand_deg s))"
    using a(5) g by (simp add: zmod_int nat_add_distrib flip: nat_mod_distrib)
  then show ?thesis using that [of a t "nat r" "(nat r + nat (rand_sep s)) mod nat (rand_deg s)"] a g by auto
qed

lemma take_tl_update: "take d (tl (t[Suc f := x])) = (take d (tl t))[f := x]"
  by (cases t) (simp_all add: take_update_swap)

text \<open>The position of the front pointer after a call, and the rear pointer that follows it.\<close>

lemma next_front: "f < d \<Longrightarrow> (if d \<le> Suc f then 0 else Suc f) = Suc f mod d"
  by (auto simp: mod_if le_Suc_eq)

lemma rear_of_front:
  fixes d :: nat
  assumes "0 < sep" and "sep < d" and "r < d" and "f = (r + sep) mod d"
  shows "r = (f + (d - sep)) mod d"
proof -
  have "(f + (d - sep)) mod d = (r + sep + (d - sep)) mod d" unfolding assms(4) by (rule mod_add_left_eq)
  also have "\<dots> = (r + d) mod d" using assms(2) by simp
  finally show ?thesis using assms(3) by simp
qed

lemma next_rear:
  assumes "0 < sep" and "sep < d" and "r < d" and f: "f = (r + sep) mod d"
  shows "(if d \<le> Suc f then Suc r else if d \<le> Suc r then 0 else Suc r) < d"
    and "((if d \<le> Suc f then Suc r else if d \<le> Suc r then 0 else Suc r) + sep) mod d = Suc f mod d"
proof -
  have "f < d" using assms by simp
  have wrap: "Suc r < d" if "d \<le> Suc f"
  proof (rule ccontr)
    assume "\<not> Suc r < d"
    then have "r = d - 1" using assms(3) by simp
    then have "f = sep - 1" using f assms(1,2) by (auto simp: mod_if)
    then show False using that assms(1,2) by linarith
  qed
  then show "(if d \<le> Suc f then Suc r else if d \<le> Suc r then 0 else Suc r) < d" using assms by auto
  have eq: "Suc f mod d = (Suc r + sep) mod d" unfolding f by (simp add: mod_Suc_eq)
  show "((if d \<le> Suc f then Suc r else if d \<le> Suc r then 0 else Suc r) + sep) mod d = Suc f mod d"
  proof (cases "Suc r < d")
    case True
    then show ?thesis using eq by simp
  next
    case False
    then have "Suc r = d" "\<not> d \<le> Suc f" using assms(3) wrap by auto
    then show ?thesis using eq by simp
  qed
qed

text \<open>The call itself, with the positions as numbers.\<close>

lemma random_run:
  assumes s: "rstate s = (a, 1)" "tabs s a = Some t" "end_ptr s = (a, 1 + int d)" "d < length t" "rptr s = (a, 1 + int r)" "fptr s = (a, 1 + int f)"
    and "r < d" and "f < d" and "rand_type s \<noteq> 0" and x: "x = t ! Suc f + t ! Suc r"
    and f': "f' = (if d \<le> Suc f then 0 else Suc f)" and r': "r' = (if d \<le> Suc f then Suc r else if d \<le> Suc r then 0 else Suc r)"
  shows "random_unlocked s = Some (drop_bit 1 x AND 0x7fffffff,
    s\<lparr>tabs := (tabs s)(a \<mapsto> t[Suc f := x]), fptr := (a, 1 + int f'), rptr := (a, 1 + int r')\<rparr>)"
proof -
  have n: "nat (1 + int f) = Suc f" "nat (1 + int r) = Suc r" by simp_all
  have rd: "rd t (1 + int f) = Some (t ! Suc f)" "rd t (1 + int r) = Some (t ! Suc r)" "wr t (1 + int f) x = Some (t[Suc f := x])"
    using assms(4,7,8) by (simp_all add: rd_def wr_def n)
  have ld: "ld (fptr s) s = Some (t ! Suc f)" "ld (rptr s) s = Some (t ! Suc r)"
    "st (fptr s) x s = Some (s\<lparr>tabs := (tabs s)(a \<mapsto> t[Suc f := x])\<rparr>)"
    using s rd by (simp_all add: ld_def st_def)
  show ?thesis unfolding random_unlocked_def Let_def ld if_not_P [OF assms(9)] bind.bind_lunit x [symmetric]
    by (cases "d \<le> Suc f"; cases "d \<le> Suc r") (simp_all add: s f' r' at_def)
qed

lemma lfsr_call:
  assumes "rng_ok s" and "rand_type s \<noteq> 0"
  shows "\<exists>s'. random_unlocked s = Some (fst (gen_next (gen_of s)), s') \<and> rng_ok s' \<and> gen_of s' = snd (gen_next (gen_of s))
    \<and> rstate s' = rstate s \<and> (\<forall>b. b \<noteq> fst (rstate s) \<longrightarrow> tabs s' b = tabs s b)"
proof -
  define d p where dp: "d = nat (rand_deg s)" "p = nat (rand_sep s)"
  obtain a t r f where s: "rstate s = (a, 1)" "tabs s a = Some t" "end_ptr s = (a, 1 + rand_deg s)" "d < length t"
    "0 < p" "p < d" "rptr s = (a, 1 + int r)" "fptr s = (a, 1 + int f)" "r < d" and f: "f = (r + p) mod d"
    unfolding dp using random_table [OF assms] .
  have deg: "rand_deg s = int d" "rand_sep s = int p" using dp s(5,6) by auto
  define T where "T = take d (tl t)"
  have fd: "f < d" using f s by simp
  have len: "length T = d" using s(4) by (simp add: T_def)
  have nth: "t ! Suc i = T ! i" if "i < d" for i using that s(4) by (simp add: T_def nth_tl)
  define x f' r' where x: "x = T ! f + T ! r" and f': "f' = (if d \<le> Suc f then 0 else Suc f)"
    and r': "r' = (if d \<le> Suc f then Suc r else if d \<le> Suc r then 0 else Suc r)"
  define s' where "s' = s\<lparr>tabs := (tabs s)(a \<mapsto> t[Suc f := x]), fptr := (a, 1 + int f'), rptr := (a, 1 + int r')\<rparr>"
  have run: "random_unlocked s = Some (drop_bit 1 x AND 0x7fffffff, s')"
    unfolding s'_def by (rule random_run [OF s(1,2) _ s(4,7,8,9) fd assms(2) _ f' r']) (simp_all add: s deg x nth fd)
  have rear: "r = (f + (d - p)) mod d" by (rule rear_of_front [OF s(5,6,9) f])
  have front: "f' = Suc f mod d" unfolding f' by (rule next_front [OF fd])
  have hd: "hd (rotate f T) = T ! f" using len fd by (simp add: rotate_front)
  have tap: "rotate f T ! (d - p) = T ! r" using len s(5,6) rear by (simp add: nth_rotate add.commute)
  have step: "rotate f' (take d (tl (t[Suc f := x]))) = tl (rotate f T) @ [x]"
    unfolding take_tl_update front x T_def [symmetric] using register_step [OF len fd s(5,6) rear] by (simp add: hd tap)
  have g: "gen_of s = LFSR p (rotate f T)" using assms(2) s by (simp add: gen_of_def table_of_def deg T_def)
  have g': "gen_of s' = LFSR p (tl (rotate f T) @ [x])" using assms(2) s step by (simp add: s'_def gen_of_def table_of_def deg)
  have r'd: "r' < d" "(r' + p) mod d = Suc f mod d" unfolding r' by (rule next_rear [OF s(5,6,9) f])+
  then have "int f' = (int r' + int p) mod int d" unfolding front by (metis of_nat_add zmod_int)
  then have "rng_ok s'" using assms s r'd(1) unfolding rng_ok_def s'_def gtype_def by (auto simp: deg)
  then show ?thesis using run g g' hd tap len s(1) x by (intro exI [of _ s']) (auto simp: Let_def s'_def)
qed

lemma lcg_call:
  assumes "rng_ok s" and "rand_type s = 0"
  shows "\<exists>s'. random_unlocked s = Some (fst (gen_next (gen_of s)), s') \<and> rng_ok s' \<and> gen_of s' = snd (gen_next (gen_of s))
    \<and> rstate s' = rstate s \<and> (\<forall>b. b \<noteq> fst (rstate s) \<longrightarrow> tabs s' b = tabs s b)"
proof -
  obtain a t where s: "rstate s = (a, 1)" "tabs s a = Some t" "2 \<le> length t" using assms unfolding rng_ok_def by blast
  have tl: "tl t ! 0 = t ! 1" using s(3) by (simp add: nth_tl)
  define y where "y = (t ! 1 * 1103515245 + 12345) AND 0x7fffffff"
  define s' where "s' = s\<lparr>tabs := (tabs s)(a \<mapsto> t[1 := y])\<rparr>"
  have run: "random_unlocked s = Some (y, s')"
    using s assms(2) by (simp add: random_unlocked_def ld_def st_def rd_def wr_def y_def s'_def Let_def)
  have "rng_ok s'" using assms s unfolding rng_ok_def s'_def gtype_def by auto
  moreover have "gen_of s' = LCG y" using s assms(2) by (simp add: gen_of_def table_of_def s'_def nth_tl)
  moreover have "gen_next (gen_of s) = (y, LCG y)" using s assms(2) tl by (simp add: gen_of_def table_of_def y_def Let_def)
  ultimately show ?thesis using run s(1) by (intro exI [of _ s']) (auto simp: s'_def)
qed

lemma random_call:
  assumes "rng_ok s"
  shows "\<exists>s'. random_unlocked s = Some (fst (gen_next (gen_of s)), s') \<and> rng_ok s' \<and> gen_of s' = snd (gen_next (gen_of s))
    \<and> rstate s' = rstate s \<and> (\<forall>b. b \<noteq> fst (rstate s) \<longrightarrow> tabs s' b = tabs s b)"
  using lcg_call [OF assms] lfsr_call [OF assms] by blast

lemma gen_range: "fst (gen_next g) \<le> 0x7fffffff"
  by (cases g) (simp_all add: Let_def word_and_le1)

lemma rng0_ok: "rng_ok rng0"
  by (simp add: rng_ok_def gtype_def degrees_def seps_def rng0_def randtbl_def)

text \<open>C10. \<open>random\<close> refines the abstract generators: on a proper state it returns, its result is the next number
  of the generator in its table, of at most 31 bits, the new state holds the generator after that number, and
  no other table changes. For the types with a register the number is the sum of the oldest word and of the one
  made \<open>rand_sep\<close> calls ago, without its last bit, although the code moves two pointers over a fixed table
  and tests only one of them when the other has wrapped.\<close>

theorem random_refines:
  assumes "rng_ok s"
  shows "\<exists>s'. random s = Some (fst (gen_next (gen_of s)), s') \<and> rng_ok s' \<and> gen_of s' = snd (gen_next (gen_of s))
    \<and> fst (gen_next (gen_of s)) \<le> 0x7fffffff \<and> (\<forall>b. b \<noteq> fst (rstate s) \<longrightarrow> tabs s' b = tabs s b)"
  using random_call [OF assms] gen_range unfolding random_def by blast

theorem random_refines_witness:
  "\<exists>s'. random rng0 = Some (0x7be9c1bd, s') \<and> gen_of s' = snd (gen_next (gen_of rng0))"
proof -
  have "fst (gen_next (gen_of rng0)) = 0x7be9c1bd"
    by (simp add: gen_of_def table_of_def rng0_def randtbl_def rotate_drop_take)
  then show ?thesis using random_refines [OF rng0_ok] by auto
qed

section \<open>Seeds\<close>

lemma discard_ok:
  assumes "rng_ok s"
  shows "\<exists>s'. discard n s = Some s' \<and> rng_ok s' \<and> gen_of s' = ((snd \<circ> gen_next) ^^ n) (gen_of s)
    \<and> rstate s' = rstate s \<and> (\<forall>b. b \<noteq> fst (rstate s) \<longrightarrow> tabs s' b = tabs s b)"
  using assms
proof (induction n arbitrary: s)
  case (Suc n)
  from random_call [OF Suc.prems] obtain s1 where s1: "random_unlocked s = Some (fst (gen_next (gen_of s)), s1)" "rng_ok s1"
    "gen_of s1 = snd (gen_next (gen_of s))" "rstate s1 = rstate s" "\<forall>b. b \<noteq> fst (rstate s) \<longrightarrow> tabs s1 b = tabs s b" by blast
  from Suc.IH [OF s1(2)] obtain s' where "discard n s1 = Some s'" "rng_ok s'" "gen_of s' = ((snd \<circ> gen_next) ^^ n) (gen_of s1)"
    "rstate s' = rstate s1" "\<forall>b. b \<noteq> fst (rstate s1) \<longrightarrow> tabs s' b = tabs s1 b" by blast
  then show ?case using s1 by (intro exI [of _ s']) (simp add: funpow_Suc_right o_def del: funpow.simps)
qed simp

text \<open>The start of a register, and the table that the loop of \<open>srandom\<close> makes of it.\<close>

fun lcg_words :: "nat \<Rightarrow> 32 word \<Rightarrow> 32 word list" where
  "lcg_words 0 x = []"
| "lcg_words (Suc n) x = (1103515245 * x + 12345) # lcg_words n (1103515245 * x + 12345)"

lemma lcg_words_length [simp]: "length (lcg_words n x) = n"
  by (induction n arbitrary: x) simp_all

lemma fill_lcg_run:
  assumes "rstate s = (a, 1)" and "tabs s a = Some (u @ x # v @ w)" and "length v = n"
  shows "fill_lcg n (int (length u)) s = Some (s\<lparr>tabs := (tabs s)(a \<mapsto> u @ x # lcg_words n x @ w)\<rparr>)"
  using assms
proof (induction n arbitrary: u x v s)
  case 0
  then show ?case by (cases s) (simp add: fun_upd_idem)
next
  case (Suc n)
  then obtain y v' where v: "v = y # v'" "length v' = n" by (cases v) auto
  let ?y = "1103515245 * x + 12345"
  let ?s = "s\<lparr>tabs := (tabs s)(a \<mapsto> (u @ [x]) @ ?y # v' @ w)\<rparr>"
  have n: "nat (1 + int (length u)) = Suc (length u)" by simp
  have ld: "ld (at (rstate s) (int (length u) - 1)) s = Some x" using Suc.prems by (simp add: ld_def at_def rd_def nth_append)
  have st: "st (at (rstate s) (int (length u))) ?y s = Some ?s"
    using Suc.prems v by (simp add: st_def at_def wr_def n list_update_append)
  have "fill_lcg (Suc n) (int (length u)) s = fill_lcg n (int (length u) + 1) ?s" using ld st by simp
  also have "int (length u) + 1 = int (length (u @ [x]))" by simp
  also have "fill_lcg n (int (length (u @ [x]))) ?s = Some (?s\<lparr>tabs := (tabs ?s)(a \<mapsto> (u @ [x]) @ ?y # lcg_words n ?y @ w)\<rparr>)"
    by (rule Suc.IH [OF _ _ v(2)]) (use Suc.prems in simp_all)
  finally have "fill_lcg (Suc n) (int (length u)) s = Some (?s\<lparr>tabs := (tabs ?s)(a \<mapsto> (u @ [x]) @ ?y # lcg_words n ?y @ w)\<rparr>)" .
  moreover have "?s\<lparr>tabs := (tabs ?s)(a \<mapsto> z)\<rparr> = s\<lparr>tabs := (tabs s)(a \<mapsto> z)\<rparr>" for z by simp
  ultimately show ?case by (simp only: lcg_words.simps append.simps append_assoc)
qed

lemma srandom_ok:
  assumes g: "gtype s" and s: "rstate s = (a, 1)" "tabs s a = Some t" "end_ptr s = (a, 1 + rand_deg s)" "1 + rand_deg s \<le> int (length t)" "2 \<le> length t"
  shows "\<exists>s'. srandom_unlocked x s = Some s' \<and> rng_ok s' \<and> rstate s' = rstate s \<and> (\<forall>b. b \<noteq> a \<longrightarrow> tabs s' b = tabs s b)
    \<and> gen_of s' = (if rand_type s = 0 then LCG x
        else ((snd \<circ> gen_next) ^^ nat (10 * rand_deg s)) (LFSR (nat (rand_sep s)) (rotate (nat (rand_sep s)) (x # lcg_words (nat (rand_deg s) - 1) x))))"
proof (cases "rand_type s = 0")
  case True
  have "st (rstate s) x s = Some (s\<lparr>tabs := (tabs s)(a \<mapsto> t[1 := x])\<rparr>)" using s by (simp add: st_def wr_def)
  then show ?thesis using True s g
    by (auto simp: srandom_unlocked_def rng_ok_def gtype_def gen_of_def table_of_def nth_tl)
next
  case False
  have d: "0 < rand_sep s" "rand_sep s < rand_deg s" using type_cases [OF g] False by auto
  obtain k c u where t: "t = k # c # u" using s(5) by (cases t; cases "tl t") auto
  define n where "n = nat (rand_deg s) - 1"
  have u: "u = take n u @ drop n u" "length (take n u) = n" using s(4) d t by (auto simp: n_def)
  define s1 where "s1 = s\<lparr>tabs := (tabs s)(a \<mapsto> [k] @ x # take n u @ drop n u)\<rparr>"
  define s2 where "s2 = s1\<lparr>tabs := (tabs s1)(a \<mapsto> [k] @ x # lcg_words n x @ drop n u)\<rparr>"
  define s3 where "s3 = s2\<lparr>fptr := at (rstate s2) (rand_sep s2), rptr := rstate s2\<rparr>"
  have "st (rstate s) x s = Some s1" using s t by (simp add: st_def wr_def s1_def)
  moreover have "fill_lcg n 1 s1 = Some s2"
    using fill_lcg_run [of s1 a "[k]" x "take n u" "drop n u" n] s u by (simp add: s1_def s2_def)
  moreover have "nat (rand_deg s1 - 1) = n" using d by (simp add: n_def s1_def)
  ultimately have run: "srandom_unlocked x s = discard (nat (10 * rand_deg s)) s3"
    using False by (simp add: srandom_unlocked_def Let_def s3_def s2_def s1_def)
  have fields: "rand_type s3 = rand_type s" "rand_deg s3 = rand_deg s" "rand_sep s3 = rand_sep s" "rstate s3 = (a, 1)" "end_ptr s3 = (a, 1 + rand_deg s)"
    "fptr s3 = (a, 1 + rand_sep s)" "rptr s3 = (a, 1)" "tabs s3 a = Some (k # x # lcg_words n x @ drop n u)" "\<forall>b. b \<noteq> a \<longrightarrow> tabs s3 b = tabs s b"
    using s by (simp_all add: s3_def s2_def s1_def at_def)
  have ok: "rng_ok s3"
    using g d s(4) t u by (auto simp: rng_ok_def gtype_def fields n_def intro!: exI [of _ "0 :: int"])
  have "take (nat (rand_deg s)) (x # lcg_words n x @ drop n u) = x # lcg_words n x"
    using d by (simp add: take_Cons' n_def)
  then have gen: "gen_of s3 = LFSR (nat (rand_sep s)) (rotate (nat (rand_sep s)) (x # lcg_words n x))"
    using False by (simp add: gen_of_def table_of_def fields)
  from discard_ok [OF ok, of "nat (10 * rand_deg s)"] show ?thesis
    unfolding run gen using False fields s(1) by (auto simp: n_def)
qed

section \<open>Switching between tables\<close>

text \<open>A generator parked in a table that is not in use: word 0 has the type and the position of the rear pointer.\<close>

definition parked :: "nat \<Rightarrow> gen \<Rightarrow> rng \<Rightarrow> bool" where
  "parked a g s \<longleftrightarrow> (\<exists>t ty rear. tabs s a = Some t \<and> 2 \<le> length t \<and> 0 \<le> ty \<and> ty \<le> 4 \<and> sint (t ! 0) = MAX_TYPES * rear + ty
     \<and> 1 + degrees ! nat ty \<le> int (length t)
     \<and> (if ty = 0 then rear = 0 \<and> g = LCG (t ! 1)
        else 0 \<le> rear \<and> rear < degrees ! nat ty
          \<and> g = LFSR (nat (seps ! nat ty)) (rotate (nat ((rear + seps ! nat ty) mod degrees ! nat ty)) (take (nat (degrees ! nat ty)) (tl t)))))"

lemma small_word: "0 \<le> k \<Longrightarrow> k < 2147483648 \<Longrightarrow> sint (word_of_int k :: 32 word) = k"
  by (simp add: sint_sbintrunc' signed_take_bit_int_eq_self)

text \<open>Leaving a table parks its generator there.\<close>

lemma park:
  assumes "rng_ok s"
  shows "\<exists>s'. st (at (rstate s) (- 1)) (info_word s) s = Some s' \<and> parked (fst (rstate s)) (gen_of s) s' \<and> (\<forall>b. b \<noteq> fst (rstate s) \<longrightarrow> tabs s' b = tabs s b)
    \<and> s' = s\<lparr>tabs := tabs s'\<rparr> \<and> (\<forall>b. (tabs s' b = None) = (tabs s b = None))"
proof -
  obtain a t where s: "rstate s = (a, 1)" "tabs s a = Some t" "end_ptr s = (a, 1 + rand_deg s)" "1 + rand_deg s \<le> int (length t)" "2 \<le> length t"
    and p: "rand_type s \<noteq> 0 \<longrightarrow> (\<exists>r. 0 \<le> r \<and> r < rand_deg s \<and> rptr s = (a, 1 + r) \<and> fptr s = (a, 1 + (r + rand_sep s) mod rand_deg s))"
    and g: "gtype s" using assms unfolding rng_ok_def by blast
  let ?s = "s\<lparr>tabs := (tabs s)(a \<mapsto> t[0 := info_word s])\<rparr>"
  have run: "st (at (rstate s) (- 1)) (info_word s) s = Some ?s" using s by (auto simp: st_def at_def wr_def)
  have gd: "rand_deg s = degrees ! nat (rand_type s)" "rand_sep s = seps ! nat (rand_type s)" "0 \<le> rand_type s" "rand_type s \<le> 4"
    using g by (simp_all add: gtype_def)
  have tl: "tl (t[0 := w]) = tl t" "t[0 := w] ! 1 = tl t ! 0" "t[0 := w] ! 0 = w" for w using s(5) by (cases t; simp add: nth_tl)+
  have "parked a (gen_of s) ?s"
  proof (cases "rand_type s = 0")
    case True
    then show ?thesis using s gd tl
      by (auto simp: parked_def info_word_def gen_of_def table_of_def MAX_TYPES_def small_word intro!: exI [of _ "0 :: int"])
  next
    case False
    then obtain r where r: "0 \<le> r" "r < rand_deg s" "rptr s = (a, 1 + r)" "fptr s = (a, 1 + (r + rand_sep s) mod rand_deg s)" using p by blast
    have d: "rand_deg s \<le> 63" using type_cases [OF g] by auto
    have w: "sint (info_word s) = MAX_TYPES * r + rand_type s"
    proof -
      have info: "info_word s = word_of_int (5 * r + rand_type s)" using False r(3) s(1) by (simp add: info_word_def MAX_TYPES_def)
      show ?thesis unfolding info MAX_TYPES_def by (rule small_word) (use r(1,2) d gd(3,4) in linarith)+
    qed
    have "gen_of s = LFSR (nat (rand_sep s)) (rotate (nat ((r + rand_sep s) mod rand_deg s)) (take (nat (rand_deg s)) (tl t)))"
      using False r s by (simp add: gen_of_def table_of_def)
    then show ?thesis unfolding parked_def using False s gd tl r w
      by (intro exI [of _ "t[0 := info_word s]"] exI [of _ "rand_type s"] exI [of _ r]) simp
  qed
  then show ?thesis using run s by auto
qed

text \<open>Entering a table takes its generator up again.\<close>

lemma setstate_ok:
  assumes ok: "rng_ok s" and b: "parked b g s" "b \<noteq> fst (rstate s)"
  shows "\<exists>s'. setstate (Ptr b) s = Some (Ptr (fst (rstate s), 0), s') \<and> rng_ok s' \<and> gen_of s' = g \<and> rstate s' = (b, 1)
    \<and> parked (fst (rstate s)) (gen_of s) s' \<and> (\<forall>c. c \<noteq> fst (rstate s) \<longrightarrow> tabs s' c = tabs s c)"
proof -
  from park [OF ok] obtain s1 where s1: "st (at (rstate s) (- 1)) (info_word s) s = Some s1" "parked (fst (rstate s)) (gen_of s) s1"
    "\<forall>c. c \<noteq> fst (rstate s) \<longrightarrow> tabs s1 c = tabs s c" "s1 = s\<lparr>tabs := tabs s1\<rparr>" by blast
  from b(1) obtain t ty rear where t: "tabs s b = Some t" "2 \<le> length t" "0 \<le> ty" "ty \<le> 4" "sint (t ! 0) = MAX_TYPES * rear + ty"
    "1 + degrees ! nat ty \<le> int (length t)"
    "if ty = 0 then rear = 0 \<and> g = LCG (t ! 1)
        else 0 \<le> rear \<and> rear < degrees ! nat ty
          \<and> g = LFSR (nat (seps ! nat ty)) (rotate (nat ((rear + seps ! nat ty) mod degrees ! nat ty)) (take (nat (degrees ! nat ty)) (tl t)))"
    unfolding parked_def by blast
  define deg sep where ds: "deg = degrees ! nat ty" "sep = seps ! nat ty"
  have rear: "0 \<le> rear" using t(7) by (auto split: if_splits)
  have w: "ld (b, 0) s = Some (t ! 0)" using t(1,2) by (auto simp: ld_def rd_def)
  have dec: "crem (sint (t ! 0)) MAX_TYPES = ty" "cdiv (sint (t ! 0)) MAX_TYPES = rear"
    using t(3,4,5) rear by (simp_all add: crem_mod cdiv_nonneg MAX_TYPES_def)
  define s' where "s' = s1\<lparr>rand_type := ty, rand_deg := deg, rand_sep := sep, rstate := (b, 1), end_ptr := (b, 1 + deg),
    rptr := (if ty \<noteq> 0 then (b, 1 + rear) else rptr s1), fptr := (if ty \<noteq> 0 then (b, 1 + crem (rear + sep) deg) else fptr s1)\<rparr>"
  have old: "at (rstate s) (- 1) = (fst (rstate s), 0)" using ok by (auto simp: rng_ok_def at_def)
  have run: "setstate (Ptr b) s = Some (Ptr (fst (rstate s), 0), s')"
    using w dec s1(1) t(3,4) old by (simp add: setstate_def Let_def set_type_def s'_def ds at_def)
  have tb: "tabs s' b = Some t" using s1(3) b(2) t(1) by (simp add: s'_def)
  have gt: "gtype s'" using t(3,4) by (simp add: gtype_def s'_def ds)
  have deg: "ty \<noteq> 0 \<Longrightarrow> 0 < sep \<and> sep < deg" using type_cases [OF gt] by (auto simp: s'_def)
  have front: "ty \<noteq> 0 \<Longrightarrow> crem (rear + sep) deg = (rear + sep) mod deg" using rear deg by (intro crem_mod) auto
  have "rng_ok s'" unfolding rng_ok_def using gt tb t(2,6,7) front ds
    by (auto simp: s'_def split: if_splits intro!: exI [of _ rear])
  moreover have "gen_of s' = g" using tb t(2,7) front ds by (auto simp: gen_of_def table_of_def s'_def nth_tl split: if_splits)
  moreover have "parked (fst (rstate s)) (gen_of s) s'" using s1(2) by (simp add: parked_def s'_def)
  ultimately show ?thesis using run s1(3) by (intro exI [of _ s']) (simp add: s'_def)
qed

lemma initstate_ok:
  assumes ok: "rng_ok s" and b: "tabs s b = Some t" "b \<noteq> fst (rstate s)" and n: "8 \<le> n" "n \<le> 4 * length t"
  shows "\<exists>s'. initstate seed (Ptr b) n s = Some (Ptr (fst (rstate s), 0), s') \<and> rng_ok s' \<and> rstate s' = (b, 1)
    \<and> parked (fst (rstate s)) (gen_of s) s' \<and> (\<forall>c. c \<noteq> fst (rstate s) \<longrightarrow> c \<noteq> b \<longrightarrow> tabs s' c = tabs s c)"
proof -
  from park [OF ok] obtain s1 where s1: "st (at (rstate s) (- 1)) (info_word s) s = Some s1" "parked (fst (rstate s)) (gen_of s) s1"
    "\<forall>c. c \<noteq> fst (rstate s) \<longrightarrow> tabs s1 c = tabs s c" "s1 = s\<lparr>tabs := tabs s1\<rparr>" by blast
  define s2 where "s2 = (if n < 32 then set_type 0 0 0 s1 else if n < 64 then set_type 1 7 3 s1 else if n < 128 then set_type 2 15 1 s1
                else if n < 256 then set_type 3 31 3 s1 else set_type 4 63 1 s1)"
  define s3 where "s3 = s2\<lparr>rstate := (b, 1), end_ptr := (b, 1 + rand_deg s2)\<rparr>"
  have gt: "gtype s3" by (auto simp: s3_def s2_def set_type_def gtype_def degrees_def seps_def)
  have tabs: "tabs s3 = tabs s1" by (auto simp: s3_def s2_def set_type_def)
  have len: "1 + rand_deg s3 \<le> int (length t)" using n by (auto simp: s3_def s2_def set_type_def)
  have sim: "rstate s3 = (b, 1)" "tabs s3 b = Some t" "end_ptr s3 = (b, 1 + rand_deg s3)" "2 \<le> length t"
    using b s1(3) tabs n by (simp_all add: s3_def)
  from srandom_ok [OF gt sim(1,2,3) len sim(4), of seed] obtain s4 where s4: "srandom_unlocked seed s3 = Some s4" "rng_ok s4" "rstate s4 = (b, 1)"
    "\<forall>c. c \<noteq> b \<longrightarrow> tabs s4 c = tabs s3 c" using sim(1) by auto
  from park [OF s4(2)] obtain s5 where s5: "st (b, 0) (info_word s4) s4 = Some s5" "\<forall>c. c \<noteq> b \<longrightarrow> tabs s5 c = tabs s4 c" "s5 = s4\<lparr>tabs := tabs s5\<rparr>"
    "parked b (gen_of s4) s5" using s4(3) by (auto simp: at_def)
  have old: "at (rstate s) (- 1) = (fst (rstate s), 0)" using ok by (auto simp: rng_ok_def at_def)
  have run: "initstate seed (Ptr b) n s = Some (Ptr (fst (rstate s), 0), s5)"
    using s1(1) s4(1) s5(1) n(1) old unfolding initstate_def Let_def s2_def [symmetric] by (simp add: s3_def at_def flip: s2_def)
  have tl: "\<exists>t' w. tabs s4 b = Some t' \<and> tabs s5 b = Some (t'[0 := w])"
    using s5(1) by (auto simp: st_def wr_def split: Option.bind_splits if_splits)
  have "rng_ok s5" using s4(2,3) tl s5(3) unfolding rng_ok_def gtype_def by (cases s4; cases s5) auto
  moreover have "rstate s5 = (b, 1)" using s4(3) s5(3) by (metis rng.select_convs(4) rng.surjective rng.update_convs(1))
  moreover have "parked (fst (rstate s)) (gen_of s) s5" using s1(2) s5(2) s4(4) tabs b(2) by (simp add: parked_def)
  ultimately show ?thesis using run s5(2) s4(4) tabs s1(3) by (intro exI [of _ s5]) simp
qed

lemma parked_other: "parked c g s \<Longrightarrow> tabs s' c = tabs s c \<Longrightarrow> parked c g s'"
  by (simp add: parked_def)

text \<open>C38. A table can be left at any time and taken up again: \<open>initstate\<close> on a second table returns the first one, and
  after any number of calls of \<open>random\<close> there, \<open>setstate\<close> with the returned table continues the first generator
  where it was, and a later \<open>setstate\<close> with the second table continues that one where it was.\<close>

theorem initstate_setstate_resume:
  assumes "rng_ok s" and "tabs s b = Some t" and "b \<noteq> fst (rstate s)" and "8 \<le> n" and "n \<le> 4 * length t"
  shows "\<exists>s1. initstate seed (Ptr b) n s = Some (Ptr (fst (rstate s), 0), s1) \<and>
    (\<forall>k. \<exists>s2 s3. discard k s1 = Some s2 \<and> setstate (Ptr (fst (rstate s))) s2 = Some (Ptr (b, 0), s3) \<and> rng_ok s3 \<and> gen_of s3 = gen_of s \<and>
      (\<forall>j. \<exists>s4 s5. discard j s3 = Some s4 \<and> setstate (Ptr b) s4 = Some (Ptr (fst (rstate s), 0), s5) \<and> rng_ok s5 \<and> gen_of s5 = gen_of s2))"
proof -
  let ?a = "fst (rstate s)"
  from initstate_ok [OF assms] obtain s1 where s1: "initstate seed (Ptr b) n s = Some (Ptr (?a, 0), s1)" "rng_ok s1" "rstate s1 = (b, 1)"
    "parked ?a (gen_of s) s1" by blast
  have "\<exists>s2 s3. discard k s1 = Some s2 \<and> setstate (Ptr ?a) s2 = Some (Ptr (b, 0), s3) \<and> rng_ok s3 \<and> gen_of s3 = gen_of s \<and>
      (\<forall>j. \<exists>s4 s5. discard j s3 = Some s4 \<and> setstate (Ptr b) s4 = Some (Ptr (?a, 0), s5) \<and> rng_ok s5 \<and> gen_of s5 = gen_of s2)" for k
  proof -
    from discard_ok [OF s1(2), of k] obtain s2 where s2: "discard k s1 = Some s2" "rng_ok s2" "rstate s2 = (b, 1)" "tabs s2 ?a = tabs s1 ?a"
      using s1(3) assms(3) by auto
    from setstate_ok [OF s2(2) parked_other [OF s1(4) s2(4)]] s2(3) assms(3) obtain s3 where
      s3: "setstate (Ptr ?a) s2 = Some (Ptr (b, 0), s3)" "rng_ok s3" "gen_of s3 = gen_of s" "rstate s3 = (?a, 1)" "parked b (gen_of s2) s3" by auto
    have "\<exists>s4 s5. discard j s3 = Some s4 \<and> setstate (Ptr b) s4 = Some (Ptr (?a, 0), s5) \<and> rng_ok s5 \<and> gen_of s5 = gen_of s2" for j
    proof -
      from discard_ok [OF s3(2), of j] obtain s4 where s4: "discard j s3 = Some s4" "rng_ok s4" "rstate s4 = (?a, 1)" "tabs s4 b = tabs s3 b"
        using s3(4) assms(3) by auto
      from setstate_ok [OF s4(2) parked_other [OF s3(5) s4(4)]] s4(1,3) assms(3) show ?thesis by auto
    qed
    then show ?thesis using s2(1) s3 by blast
  qed
  then show ?thesis using s1(1) by blast
qed

theorem initstate_setstate_resume_witness:
  "\<exists>s1 s2 s3. initstate 7 (Ptr 1) 64 (rng0\<lparr>tabs := (tabs rng0)(1 \<mapsto> replicate 16 0)\<rparr>) = Some (Ptr (0, 0), s1)
    \<and> discard 5 s1 = Some s2 \<and> setstate (Ptr 0) s2 = Some (Ptr (1, 0), s3) \<and> gen_of s3 = gen_of rng0"
proof -
  let ?s = "rng0\<lparr>tabs := (tabs rng0)(1 \<mapsto> replicate 16 0)\<rparr>"
  have "rng_ok ?s" "gen_of ?s = gen_of rng0"
    by (simp_all add: rng_ok_def gtype_def degrees_def seps_def rng0_def randtbl_def gen_of_def table_of_def)
  then show ?thesis using initstate_setstate_resume [of ?s 1 "replicate 16 0" 64 7] by (simp add: rng0_def) blast
qed

text \<open>The table that the library starts with is the one that the seed 1 gives.\<close>

lemma seed_1: "((snd \<circ> gen_next) ^^ 310) (LFSR 3 (rotate 3 (1 # lcg_words 30 1))) = gen_of rng0"
  by code_simp

theorem srandom_1_initial: "\<exists>s. srandom 1 rng0 = Some s \<and> gen_of s = gen_of rng0"
proof -
  have "gtype rng0" "rstate rng0 = (0, 1)" "tabs rng0 0 = Some randtbl" "end_ptr rng0 = (0, 1 + rand_deg rng0)"
    "1 + rand_deg rng0 \<le> int (length randtbl)" "2 \<le> length randtbl"
    by (simp_all add: gtype_def degrees_def seps_def rng0_def randtbl_def)
  from srandom_ok [OF this, of 1] seed_1 show ?thesis by (auto simp: srandom_def rng0_def)
qed

text \<open>\<open>setstate\<close> with the table that is already in use does not leave the generator as it is, although a comment in the
  code says that this is all right: the position is read from word 0 before it is saved there, so the pointers go
  back to where they were when the table was last entered.\<close>

theorem setstate_current_moves_back:
  "case random rng0 of
     None \<Rightarrow> False
   | Some (_, s) \<Rightarrow> (case setstate (Ptr 0) s of
       None \<Rightarrow> False
     | Some (r, s') \<Rightarrow> r = Ptr (0, 0) \<and> rptr s = (0, 2) \<and> rptr s' = (0, 1) \<and> gen_of s' \<noteq> gen_of s)"
  by code_simp

end
