(* ===== verification/Spec2Isabelle.thy ===== *)
theory Spec2Isabelle
  imports Ksynch Sfs_Rw Kvm Sysvfs Krandom
begin

text \<open>
  A verification library for the OS/161 kernel under \<open>src/os161\<close>: its threads, its memory, its file system
  and the libraries they share.

  \<^bold>\<open>The program.\<close> The kernel is a set of C modules on a MIPS machine. Threads (\<open>kern/thread\<close>) run on one
  processor and sleep on addresses; semaphores and locks are built on sleeping. Memory is taken in pages
  from \<open>ram.c\<close>; the heap (\<open>kheap.c\<close>) cuts pages into blocks and the virtual memory (\<open>dumbvm.c\<close>) gives pages to
  programs. Data moves between the kernel, programs and devices through \<open>uio\<close> structures. A path name goes
  through the VFS layer (\<open>kern/fs/vfs\<close>) to a vnode and from there to the file system SFS (\<open>kern/fs/sfs\<close>) or to
  a device; SFS keeps files in blocks of the disk behind the driver \<open>lhd.c\<close>. Arrays, queues, bitmaps and the C
  library serve all of them.

  \<^bold>\<open>Conventions.\<close> (Theory \<open>Kprelude\<close>.) A routine that can stop the machine, by \<open>panic\<close>, a failed \<open>assert\<close> or
  a wild access, has a result of an \<open>option\<close> type, and \<open>None\<close> is the stop. Error codes are the datatype \<open>rc\<close>;
  \<open>('s, 'a) kres\<close> is the result of a routine with state \<open>'s\<close> that may fail with a code. C integers are
  \<open>nat\<close> or \<open>int\<close> with the wrap-around of \<open>u32\<close> and \<open>s32\<close> written where it can matter, or words where the code
  works on bits. \<open>kmalloc\<close> is a function that says which requests succeed, so every theorem covers every
  pattern of failures; where its addresses matter they are an argument and must be fresh. Byte memory is a
  map from addresses to bytes, and an address outside its domain is a fault.

  \<^bold>\<open>Data structures.\<close> \<open>Karray\<close> (\<open>kern/lib/array.c\<close>), \<open>Kqueue\<close> (\<open>queue.c\<close>) and \<open>Kbitmap\<close> (\<open>bitmap.c\<close>) hold every
  operation of their files, the invariant each keeps, and an interface locale that their clients use. They show
  that the queue is first in, first out across growing, that room reserved in an array is there, and that the
  bitmap hands out the lowest clear bit.

  \<^bold>\<open>Threads.\<close> \<open>Kthread\<close> models \<open>thread.c\<close>, \<open>scheduler.c\<close>, \<open>spl.c\<close> and \<open>pcb.c\<close>: the state is the run queue, the
  sleepers, the zombies, the thread structures and the interrupt level, and every routine is a function on it.
  A switch is the pair of the state in which the old thread stops and that in which the new one goes on.
  \<open>Kthread_Inv\<close> shows that every thread is in exactly one place in every reachable state, that
  \<open>thread_wakeup\<close> moves exactly the sleepers of the address in order, that \<open>thread_yield\<close> is round robin and that
  \<open>thread_fork\<close> happens as a whole or not at all. \<open>Ksynch\<close> interleaves \<open>synch.c\<close> over it, one step per
  stretch without a switch: no wakeup is lost, counts of semaphores are accounted for, and locks exclude
  under the discipline that the missing check of \<open>lock_release\<close> leaves to its callers.

  \<^bold>\<open>Memory.\<close> \<open>Kram\<close> (\<open>ram.c\<close> and the page allocator), \<open>Kheap\<close> (\<open>kheap.c\<close>) and \<open>Kvm\<close> (\<open>dumbvm.c\<close>) share a state of
  the free pages and the bytes of memory. The heap keeps its lists of free blocks in those bytes, as the code
  does; blocks in use never overlap and every correct call returns. A program whose address space has been
  prepared finds its own pages through \<open>vm_fault\<close>, and \<open>as_copy\<close> copies them.

  \<^bold>\<open>The C library and transfers.\<close> \<open>Klibc\<close> models the memory and string routines over byte memory (copies by
  words and bytes equal the simultaneous copy for every overlap), \<open>Kprintf\<close> the formatting engine and \<open>snprintf\<close>
  (it returns, stays in its buffer, and \<open>atoi\<close> reads its numbers back), \<open>Kcopy\<close> the copies from and to user
  addresses (\<open>copyinout.c\<close>) and \<open>Kuio\<close> the transfers of \<open>uio.c\<close>. \<open>Krandom\<close> models \<open>random.c\<close>: the generator over a
  table with two pointers refines a feedback register, its starting table is the one of seed 1, and a generator
  that is left is continued where it was.

  \<^bold>\<open>Files.\<close> \<open>Klhd\<close> is the disk driver over a disk that is an argument: a function from the command to the new
  contents and status. \<open>Kvnode\<close> holds the counts of a vnode, \<open>Kwords\<close> and \<open>Sfs_Disk\<close> the structures on disk and
  their bytes, \<open>Sfs\<close> every routine of \<open>sfs_io.c\<close>, \<open>sfs_vnode.c\<close> and \<open>sfs_fs.c\<close>. \<open>Sfs_File\<close> and \<open>Sfs_Rw\<close> prove that
  reading and writing refine an array of bytes with a size, with the exact reasons for stopping early, and
  that no other file changes. \<open>Kvfs\<close> is the VFS layer (\<open>vfslist.c\<close>, \<open>vfscwd.c\<close>, \<open>vfslookup.c\<close>, \<open>vfspath.c\<close>, \<open>device.c\<close>,
  \<open>devnull.c\<close>) over tables of functions; \<open>Kvfs_Refs\<close> states what the layer relies on of the tables and follows the
  references through every operation; \<open>Sysvfs\<close> gives the tables of SFS and of the devices and discharges it, so
  that references to vnodes are balanced in every run.

  \<^bold>\<open>Loops and bounds.\<close> Loops are structural recursion or have a termination proof; \<open>sfs_rwblock\<close> retries ten
  times as the code does. The wait for a runnable thread in \<open>scheduler\<close> takes the interrupts that come in as an
  argument, and the scan of \<open>thread_wakeup\<close> has fuel for the length of the table, which is shown to be
  enough. Results that depend on counts assume that fewer than \<open>2\<^sup>2\<^sup>9\<close> references are held, and those on files that
  the disk reports no error where they claim success.

  \<^bold>\<open>Not modelled.\<close>
  \<^item> The machine: assembly (\<open>exception.S\<close>, \<open>switch.S\<close>, \<open>start.S\<close>), traps, the bus (\<open>lamebus.c\<close>) and the other
    devices. They are register accesses whose meaning is that of hardware outside the repository.
  \<^item> \<open>emu.c\<close>, which passes every file operation to the emulator of the machine.
  \<^item> The menu, start-up code and the tests of the kernel (\<open>kern/main\<close>, \<open>kern/test\<close>): drivers that print.
  \<^item> \<open>kern/asst1\<close>: the exercises there have empty bodies.
  \<^item> System calls: \<open>syscall.c\<close> has only \<open>reboot\<close>, and \<open>loadelf.c\<close> and \<open>runprogram.c\<close> end in a jump to user mode.
  \<^item> User programs (\<open>bin\<close>, \<open>sbin\<close>, \<open>testbin\<close>), the rest of the user library and the manual pages.
  \<^item> The programs in other languages beside the kernel (\<open>AzureSpider\<close>, \<open>phenom\<close>, \<open>config\<close>): scripts that
    fetch pages and tools around a data base, whose behaviour is that of those services.
\<close>

end
